(* ===== verification/Prelude.thy ===== *)
theory Prelude
  imports Main "HOL-Library.Word"
begin

text \<open>
  What the component theories share: the widths of the program's integers, the ways a run of
  the program can go wrong, and the small error monad the models are written in.

  A C++ call that can abort, hit undefined behaviour or fall off the model is a value of
  \<open>err + 'a\<close>: \<open>Inl\<close> names the statement that went wrong, \<open>Inr\<close> holds the result. The
  exception \<open>std::out_of_range\<close>, which the program throws and catches as a normal outcome,
  is an \<open>option\<close> inside \<open>Inr\<close>.  \<open>wpE\<close> is the weakest precondition of such a call with one
  postcondition for errors and one for results; the component proofs are calculated with it.
\<close>

named_theorems wp_rules \<open>weakest-precondition equations of the error monad\<close>

named_theorems map_view \<open>std::map operations on ordered lists rewritten to filters\<close>

type_synonym u64 = "64 word"
type_synonym u32 = "32 word"

datatype err =
    Assertion string
  | Uncaught_Out_Of_Range
  | Dangling_Iterator
  | Past_The_End
  | Division_By_Zero
  | Int_Overflow
  | Buffer_Overflow
  | Null_Pointer
  | Stream_Failure
  | Counter_Wrap
  | Panic string
  | Out_Of_Fuel

definition bindE :: "'e + 'a \<Rightarrow> ('a \<Rightarrow> 'e + 'b) \<Rightarrow> 'e + 'b" where
  "bindE m f = (case m of Inl e \<Rightarrow> Inl e | Inr x \<Rightarrow> f x)"

definition assertE :: "bool \<Rightarrow> 'e \<Rightarrow> 'e + unit" where
  "assertE b e = (if b then Inr () else Inl e)"

text \<open>A narrowing conversion to a 32-bit \<open>int\<close>; a value that does not fit is an error.\<close>

definition to_int :: "nat \<Rightarrow> err + nat" where
  "to_int n = (if n < 2 ^ 31 then Inr n else Inl Int_Overflow)"

definition wpE :: "'e + 'a \<Rightarrow> ('e \<Rightarrow> bool) \<Rightarrow> ('a \<Rightarrow> bool) \<Rightarrow> bool" where
  "wpE m E Q = (case m of Inl e \<Rightarrow> E e | Inr x \<Rightarrow> Q x)"

lemma bindE_simps [simp]:
  "bindE (Inl e) f = Inl e"
  "bindE (Inr x) f = f x"
  by (simp_all add: bindE_def)

lemma bindE_cong [fundef_cong]:
  "m = m' \<Longrightarrow> (\<And>x. m' = Inr x \<Longrightarrow> f x = g x) \<Longrightarrow> bindE m f = bindE m' g"
  by (auto simp: bindE_def split: sum.splits)

lemma bindE_eq_Inr_iff:
  "bindE m f = Inr y \<longleftrightarrow> (\<exists>x. m = Inr x \<and> f x = Inr y)"
  by (cases m) auto

lemma assertE_eq_Inr_iff [simp]: "assertE b e = Inr u \<longleftrightarrow> b"
  by (auto simp: assertE_def)

lemma assertE_True [simp]: "assertE True e = Inr ()"
  by (simp add: assertE_def)

lemma assertE_P: "b \<Longrightarrow> assertE b e = Inr ()"
  by simp

lemma to_int_small: "n < 2 ^ 31 \<Longrightarrow> to_int n = Inr n"
  by (simp add: to_int_def)

lemma to_int_eq_Inr_iff: "to_int n = Inr k \<longleftrightarrow> n < 2 ^ 31 \<and> k = n"
  by (auto simp: to_int_def)

lemma wpE_simps [simp]:
  "wpE (Inl e) E Q = E e"
  "wpE (Inr x) E Q = Q x"
  by (simp_all add: wpE_def)

lemma wpE_bindE [wp_rules]: "wpE (bindE m f) E Q = wpE m E (\<lambda>x. wpE (f x) E Q)"
  by (cases m) simp_all

lemma wpE_assertE [wp_rules]: "wpE (assertE b e) E Q = (if b then Q () else E e)"
  by (simp add: assertE_def)

lemma wpE_to_int [wp_rules]: "wpE (to_int n) E Q = (if n < 2 ^ 31 then Q n else E Int_Overflow)"
  by (simp add: to_int_def)

lemma wpE_mono:
  "wpE m E Q \<Longrightarrow> (\<And>e. E e \<Longrightarrow> E' e) \<Longrightarrow> (\<And>x. Q x \<Longrightarrow> Q' x) \<Longrightarrow> wpE m E' Q'"
  by (cases m) auto

text \<open>The composition rule: a call with a known contract, then a continuation.\<close>

lemma wpE_bind_rule:
  assumes "wpE m E R" and "\<And>x. m = Inr x \<Longrightarrow> R x \<Longrightarrow> wpE (f x) E Q"
  shows "wpE (bindE m f) E Q"
  using assms by (cases m) auto

lemma wpE_InrD: "wpE m E Q \<Longrightarrow> m = Inr x \<Longrightarrow> Q x"
  by simp

lemma wpE_InlD: "wpE m E Q \<Longrightarrow> m = Inl e \<Longrightarrow> E e"
  by simp

subsection \<open>Lists\<close>

lemma distinct_map_sorted_wrt_less:
  "sorted_wrt (<) (xs :: 'a :: linorder list) \<Longrightarrow> distinct xs"
  by (induction xs) auto

lemma foldl_conv_append: "foldl f (foldl f a xs) ys = foldl f a (xs @ ys)"
  by simp

lemma filter_all_False: "(\<And>x. x \<in> set xs \<Longrightarrow> \<not> P x) \<Longrightarrow> filter P xs = []"
  by (induction xs) auto

lemma filter_all_True: "(\<And>x. x \<in> set xs \<Longrightarrow> P x) \<Longrightarrow> filter P xs = xs"
  by (induction xs) auto

lemma filter_filter_absorb:
  "(\<And>x. x \<in> set xs \<Longrightarrow> P x \<Longrightarrow> Q x) \<Longrightarrow> filter P (filter Q xs) = filter P xs"
  by (induction xs) auto

lemma length_le_card: "distinct xs \<Longrightarrow> set xs \<subseteq> M \<Longrightarrow> finite M \<Longrightarrow> length xs \<le> card M"
  by (metis card_mono distinct_card)

end
