(* ===== verification/Std_Map.thy ===== *)
theory Std_Map
  imports Prelude
begin

text \<open>
  \<open>std::map\<close> as the program uses it: an association list kept in strictly increasing key
  order.  An iterator is a position \<open>0 \<dots> size\<close>, \<open>end()\<close> being the size; \<open>--it\<close>, \<open>++it\<close>,
  \<open>next\<close> and \<open>distance\<close> are arithmetic on positions.  The operations are written with
  positions as the C++ writes them; the \<open>map_view\<close> equations say what each of them is on an
  ordered list in terms of filters over keys, which is what the component proofs use.
\<close>

type_synonym ('k, 'v) std_map = "('k \<times> 'v) list"

definition map_ok :: "('k :: linorder \<times> 'v) list \<Rightarrow> bool" where
  "map_ok m \<longleftrightarrow> sorted_wrt (<) (map fst m)"

definition lower_bound :: "('k :: linorder \<times> 'v) list \<Rightarrow> 'k \<Rightarrow> nat" where
  "lower_bound m k = length (takeWhile (\<lambda>p. fst p < k) m)"

definition upper_bound :: "('k :: linorder \<times> 'v) list \<Rightarrow> 'k \<Rightarrow> nat" where
  "upper_bound m k = length (takeWhile (\<lambda>p. fst p \<le> k) m)"

definition erase_range :: "('k \<times> 'v) list \<Rightarrow> nat \<Rightarrow> nat \<Rightarrow> ('k \<times> 'v) list" where
  "erase_range m i j = take i m @ drop j m"

definition subrange :: "'a list \<Rightarrow> nat \<Rightarrow> nat \<Rightarrow> 'a list" where
  "subrange m i j = take (j - i) (drop i m)"

text \<open>\<open>m[k] = v\<close>\<close>

definition put :: "('k :: linorder \<times> 'v) list \<Rightarrow> 'k \<Rightarrow> 'v \<Rightarrow> ('k \<times> 'v) list" where
  "put m k v = take (lower_bound m k) m @ (k, v) # drop (upper_bound m k) m"

text \<open>\<open>m.erase(k)\<close>\<close>

definition erase_key :: "('k :: linorder \<times> 'v) list \<Rightarrow> 'k \<Rightarrow> ('k \<times> 'v) list" where
  "erase_key m k = erase_range m (lower_bound m k) (upper_bound m k)"

text \<open>\<open>m.insert(first, last)\<close>: a key that is already there keeps its value.\<close>

fun insert_range :: "('k :: linorder \<times> 'v) list \<Rightarrow> ('k \<times> 'v) list \<Rightarrow> ('k \<times> 'v) list" where
  "insert_range m [] = m"
| "insert_range m ((k, v) # xs) =
     insert_range (if k \<in> fst ` set m then m else put m k v) xs"

subsection \<open>Order\<close>

lemma map_ok_Nil [simp]: "map_ok []"
  by (simp add: map_ok_def)

lemma map_ok_Cons: "map_ok (p # m) \<longleftrightarrow> (\<forall>q\<in>set m. fst p < fst q) \<and> map_ok m"
  by (auto simp: map_ok_def)

lemma map_ok_append:
  "map_ok (m @ n) \<longleftrightarrow> map_ok m \<and> map_ok n \<and> (\<forall>p\<in>set m. \<forall>q\<in>set n. fst p < fst q)"
  by (auto simp: map_ok_def sorted_wrt_append)

lemma map_ok_filter: "map_ok m \<Longrightarrow> map_ok (filter P m)"
  by (induction m) (auto simp: map_ok_Cons)

lemma map_ok_take: "map_ok m \<Longrightarrow> map_ok (take n m)"
  by (metis append_take_drop_id map_ok_append)

lemma map_ok_drop: "map_ok m \<Longrightarrow> map_ok (drop n m)"
  by (metis append_take_drop_id map_ok_append)

lemma map_ok_distinct: "map_ok m \<Longrightarrow> distinct (map fst m)"
  by (simp add: map_ok_def distinct_map_sorted_wrt_less)

lemma map_ok_key_unique:
  "map_ok m \<Longrightarrow> (k, v) \<in> set m \<Longrightarrow> (k, w) \<in> set m \<Longrightarrow> v = w"
  using map_ok_distinct[of m] by (simp add: eq_key_imp_eq_value)

lemma map_ok_subrange: "map_ok m \<Longrightarrow> map_ok (subrange m i j)"
  by (simp add: subrange_def map_ok_take map_ok_drop)

subsection \<open>Positions as filters\<close>

lemma takeWhile_ordered:
  assumes "map_ok m" and "\<And>a b. a < b \<Longrightarrow> P b \<Longrightarrow> P a"
  shows "takeWhile (\<lambda>p. P (fst p)) m = filter (\<lambda>p. P (fst p)) m"
    and "dropWhile (\<lambda>p. P (fst p)) m = filter (\<lambda>p. \<not> P (fst p)) m"
proof -
  have "takeWhile (\<lambda>p. P (fst p)) m = filter (\<lambda>p. P (fst p)) m \<and>
        dropWhile (\<lambda>p. P (fst p)) m = filter (\<lambda>p. \<not> P (fst p)) m"
    using assms(1)
  proof (induction m)
    case (Cons p m)
    show ?case
    proof (cases "P (fst p)")
      case True
      with Cons show ?thesis by (simp add: map_ok_Cons)
    next
      case False
      with Cons.prems assms(2) have "\<forall>q\<in>set m. \<not> P (fst q)"
        by (auto simp: map_ok_Cons)
      with False show ?thesis by (auto intro: filter_all_False filter_all_True[symmetric])
    qed
  qed simp
  then show "takeWhile (\<lambda>p. P (fst p)) m = filter (\<lambda>p. P (fst p)) m"
    and "dropWhile (\<lambda>p. P (fst p)) m = filter (\<lambda>p. \<not> P (fst p)) m"
    by simp_all
qed

lemma take_length_takeWhile: "take (length (takeWhile P xs)) xs = takeWhile P xs"
  by (metis append_eq_conv_conj takeWhile_dropWhile_id)

lemma drop_length_takeWhile: "drop (length (takeWhile P xs)) xs = dropWhile P xs"
  by (metis append_eq_conv_conj takeWhile_dropWhile_id)

lemma take_lower_bound [map_view]:
  "map_ok m \<Longrightarrow> take (lower_bound m k) m = filter (\<lambda>p. fst p < k) m"
  unfolding lower_bound_def take_length_takeWhile
  by (rule takeWhile_ordered(1)) auto

lemma drop_lower_bound [map_view]:
  "map_ok m \<Longrightarrow> drop (lower_bound m k) m = filter (\<lambda>p. k \<le> fst p) m"
  unfolding lower_bound_def drop_length_takeWhile
  by (subst takeWhile_ordered(2)) (auto simp: not_less)

lemma take_upper_bound [map_view]:
  "map_ok m \<Longrightarrow> take (upper_bound m k) m = filter (\<lambda>p. fst p \<le> k) m"
  unfolding upper_bound_def take_length_takeWhile
  by (rule takeWhile_ordered(1)) auto

lemma drop_upper_bound [map_view]:
  "map_ok m \<Longrightarrow> drop (upper_bound m k) m = filter (\<lambda>p. k < fst p) m"
  unfolding upper_bound_def drop_length_takeWhile
  by (subst takeWhile_ordered(2)) (auto simp: not_le)

lemma map_ok_split_le:
  "map_ok m \<Longrightarrow> filter (\<lambda>p. fst p < k) m @ filter (\<lambda>p. k \<le> fst p) m = m"
  by (metis append_take_drop_id take_lower_bound drop_lower_bound)

lemma map_ok_split_less:
  "map_ok m \<Longrightarrow> filter (\<lambda>p. fst p \<le> k) m @ filter (\<lambda>p. k < fst p) m = m"
  by (metis append_take_drop_id take_upper_bound drop_upper_bound)

lemma map_ok_split_absent:
  assumes "map_ok m" and "k \<notin> fst ` set m"
  shows "filter (\<lambda>p. fst p < k) m @ filter (\<lambda>p. k < fst p) m = m"
proof -
  have "filter (\<lambda>p. k < fst p) m = filter (\<lambda>p. k \<le> fst p) m"
    using assms(2) by (intro filter_cong) (auto simp: less_le)
  then show ?thesis using map_ok_split_le[OF assms(1)] by simp
qed

lemma lower_bound_filter: "map_ok m \<Longrightarrow> lower_bound m k = length (filter (\<lambda>p. fst p < k) m)"
  unfolding lower_bound_def by (subst takeWhile_ordered(1)) auto

lemma upper_bound_filter: "map_ok m \<Longrightarrow> upper_bound m k = length (filter (\<lambda>p. fst p \<le> k) m)"
  unfolding upper_bound_def by (subst takeWhile_ordered(1)) auto

lemma lower_bound_le [simp]: "lower_bound m k \<le> length m"
  by (simp add: lower_bound_def length_takeWhile_le)

lemma upper_bound_le [simp]: "upper_bound m k \<le> length m"
  by (simp add: upper_bound_def length_takeWhile_le)

lemma put_filter [map_view]:
  "map_ok m \<Longrightarrow> put m k v = filter (\<lambda>p. fst p < k) m @ (k, v) # filter (\<lambda>p. k < fst p) m"
  by (simp add: put_def map_view)

lemma erase_key_filter [map_view]:
  "map_ok m \<Longrightarrow> erase_key m k = filter (\<lambda>p. fst p \<noteq> k) m"
proof (induction m)
  case Nil
  then show ?case by (simp add: erase_key_def erase_range_def)
next
  case (Cons p m)
  have "filter (\<lambda>q. fst q < k) m @ filter (\<lambda>q. k < fst q) m = filter (\<lambda>q. fst q \<noteq> k) m"
    using Cons by (simp add: erase_key_def erase_range_def map_view map_ok_Cons)
  moreover have "fst p > k \<Longrightarrow> filter (\<lambda>q. fst q < k) m = []"
    using Cons.prems by (auto simp: map_ok_Cons intro!: filter_all_False)
  ultimately show ?case
    using Cons.prems by (auto simp: erase_key_def erase_range_def map_view)
qed

lemma filter_range_split:
  assumes "map_ok m" and "a \<le> b"
  shows "filter (\<lambda>p. fst p < a) m @ filter (\<lambda>p. b < fst p) m
         = filter (\<lambda>p. \<not> (a \<le> fst p \<and> fst p \<le> b)) m"
  using assms(1)
proof (induction m)
  case (Cons p m)
  have "b < fst p \<Longrightarrow> filter (\<lambda>q. fst q < a) m = []"
    using Cons.prems \<open>a \<le> b\<close> by (fastforce simp: map_ok_Cons intro!: filter_all_False)
  then show ?case
    using Cons \<open>a \<le> b\<close> by (auto simp: map_ok_Cons)
qed simp

lemma erase_bounds [map_view]:
  "map_ok m \<Longrightarrow> a \<le> b \<Longrightarrow>
   erase_range m (lower_bound m a) (upper_bound m b)
   = filter (\<lambda>p. \<not> (a \<le> fst p \<and> fst p \<le> b)) m"
  by (simp add: erase_range_def map_view filter_range_split)

subsection \<open>Content\<close>

lemma map_ok_put: "map_ok m \<Longrightarrow> map_ok (put m k v)"
  by (auto simp: put_filter map_ok_append map_ok_Cons map_ok_filter)

lemma set_put: "map_ok m \<Longrightarrow> set (put m k v) = insert (k, v) {p \<in> set m. fst p \<noteq> k}"
  by (auto simp: put_filter)

lemma map_ok_erase_key: "map_ok m \<Longrightarrow> map_ok (erase_key m k)"
  by (simp add: erase_key_filter map_ok_filter)

lemma put_at_end: "map_ok m \<Longrightarrow> (\<And>p. p \<in> set m \<Longrightarrow> fst p < k) \<Longrightarrow> put m k v = m @ [(k, v)]"
  by (simp add: put_filter filter_all_True) (force intro!: filter_all_False)

lemma put_at_front:
  "map_ok m \<Longrightarrow> (\<And>p. p \<in> set m \<Longrightarrow> k < fst p) \<Longrightarrow> put m k v = (k, v) # m"
  by (simp add: put_filter filter_all_True) (force intro!: filter_all_False)

lemma put_at_key:
  "map_ok (a @ (k, w) # b) \<Longrightarrow> put (a @ (k, w) # b) k v = a @ (k, v) # b"
proof -
  assume ok: "map_ok (a @ (k, w) # b)"
  then have "filter (\<lambda>p. fst p < k) b = []" and "filter (\<lambda>p. k < fst p) a = []"
    by (fastforce simp: map_ok_append map_ok_Cons intro!: filter_all_False)+
  with ok show ?thesis
    by (simp add: put_filter map_ok_append map_ok_Cons filter_all_True)
qed

lemma map_of_put: "map_ok m \<Longrightarrow> map_of (put m k v) = (map_of m)(k \<mapsto> v)"
proof (rule ext)
  fix x assume m: "map_ok m"
  have "map_of (put m k v) x = Some y \<longleftrightarrow> ((map_of m)(k \<mapsto> v)) x = Some y" for y
    using m map_ok_put[OF m, of k v]
    by (auto simp: map_of_eq_Some_iff map_ok_distinct set_put)
  then show "map_of (put m k v) x = ((map_of m)(k \<mapsto> v)) x"
    by (metis option.exhaust)
qed

lemma map_of_erase_key: "map_ok m \<Longrightarrow> map_of (erase_key m k) = (map_of m)(k := None)"
proof (rule ext)
  fix x assume m: "map_ok m"
  have "map_of (erase_key m k) x = Some y \<longleftrightarrow> ((map_of m)(k := None)) x = Some y" for y
    using m map_ok_erase_key[OF m, of k]
    by (auto simp: map_of_eq_Some_iff map_ok_distinct erase_key_filter)
  then show "map_of (erase_key m k) x = ((map_of m)(k := None)) x"
    by (metis option.exhaust)
qed

text \<open>An ordered list is determined by its content.\<close>

lemma map_ok_rebuild: "map_ok m \<Longrightarrow> map (\<lambda>k. (k, the (map_of m k))) (map fst m) = m"
  by (auto simp: map_ok_distinct intro!: map_idI)

lemma map_ok_eqI:
  fixes m n :: "('k :: linorder \<times> 'v) list"
  assumes "map_ok m" and "map_ok n" and "set m = set n"
  shows "m = n"
proof -
  have "map fst m = map fst n"
    using assms by (intro strict_sorted_equal) (auto simp: map_ok_def)
  moreover have "map_of m = map_of n"
    using assms by (intro map_of_eqI) (auto simp: map_ok_distinct)
  ultimately show ?thesis
    using map_ok_rebuild[OF assms(1)] map_ok_rebuild[OF assms(2)] by simp
qed

text \<open>
  Replacing one entry by a run of entries whose keys lie between its own key and the next:
  what \<open>pivots.erase(it); pivots.insert(first, last)\<close> does in the tree code.
\<close>

lemma insert_range_middle:
  assumes "map_ok (a @ g @ b)"
  shows "insert_range (a @ b) g = a @ g @ b"
  using assms
proof (induction g arbitrary: a)
  case (Cons p g)
  obtain k v where p: "p = (k, v)" by (cases p)
  have lt: "\<And>q. q \<in> set a \<Longrightarrow> fst q < k" and gt: "\<And>q. q \<in> set b \<Longrightarrow> k < fst q"
    and ab: "map_ok (a @ b)"
    using Cons.prems p by (auto simp: map_ok_append map_ok_Cons)
  have "k \<notin> fst ` set (a @ b)"
    using lt gt by fastforce
  moreover have "put (a @ b) k v = (a @ [(k, v)]) @ b"
  proof -
    have "filter (\<lambda>q. fst q < k) b = []" and "filter (\<lambda>q. k < fst q) a = []"
      using lt gt by (fastforce intro!: filter_all_False)+
    then show ?thesis
      using ab lt gt by (simp add: put_filter filter_all_True)
  qed
  ultimately have "insert_range (a @ b) (p # g) = insert_range ((a @ [p]) @ b) g"
    using p by simp
  also have "\<dots> = (a @ [p]) @ g @ b"
    using Cons.prems by (intro Cons.IH) simp
  finally show ?case by simp
qed simp

lemma erase_key_middle:
  "map_ok (a @ (k, w) # b) \<Longrightarrow> erase_key (a @ (k, w) # b) k = a @ b"
proof -
  assume ok: "map_ok (a @ (k, w) # b)"
  then have "filter (\<lambda>p. fst p \<noteq> k) a = a" and "filter (\<lambda>p. fst p \<noteq> k) b = b"
    by (fastforce simp: map_ok_append map_ok_Cons intro!: filter_all_True)+
  with ok show ?thesis by (simp add: erase_key_filter)
qed

lemma subrange_whole [simp]: "subrange m 0 (length m) = m"
  by (simp add: subrange_def)

lemma subrange_empty [simp]: "subrange m i i = []"
  by (simp add: subrange_def)

lemma subrange_append:
  assumes "i \<le> j" and "j \<le> k"
  shows "subrange m i j @ subrange m j k = subrange m i k"
proof -
  obtain a b where "j = i + a" and "k = i + a + b"
    using assms by (metis le_iff_add)
  then show ?thesis
    by (simp add: subrange_def take_add drop_drop add.commute)
qed

lemma take_subrange: "i \<le> j \<Longrightarrow> take i m @ subrange m i j = take j m"
  by (metis le_add_diff_inverse subrange_def take_add)

lemma subrange_drop: "i \<le> j \<Longrightarrow> subrange m i j @ drop j m = drop i m"
  by (metis append_take_drop_id drop_drop le_add_diff_inverse2 subrange_def)

lemma subrange_eq_Nil_iff: "subrange m i j = [] \<longleftrightarrow> j \<le> i \<or> length m \<le> i"
  by (auto simp: subrange_def)

lemma hd_subrange: "i < j \<Longrightarrow> i < length m \<Longrightarrow> hd (subrange m i j) = m ! i"
  by (simp add: subrange_def hd_drop_conv_nth hd_take)

lemma subrange_Suc: "i < length m \<Longrightarrow> subrange m i (Suc i) = [m ! i]"
  by (simp add: subrange_def take_Suc hd_drop_conv_nth)

lemma length_subrange: "length (subrange m i j) \<le> length m"
  by (simp add: subrange_def)

lemma set_subrange_subset: "set (subrange m i j) \<subseteq> set m"
  unfolding subrange_def by (meson in_set_dropD in_set_takeD subsetI)

subsection \<open>The interface of an ordered map\<close>

text \<open>
  What a client of \<open>std::map\<close> relies on: looking a key up after a store or an erase.
\<close>

locale ordered_map =
  fixes mempty :: "'m"
    and mput :: "'m \<Rightarrow> 'k \<Rightarrow> 'v \<Rightarrow> 'm"
    and merase :: "'m \<Rightarrow> 'k \<Rightarrow> 'm"
    and mlookup :: "'m \<Rightarrow> 'k \<Rightarrow> 'v option"
    and minv :: "'m \<Rightarrow> bool"
  assumes inv_empty: "minv mempty"
    and inv_put: "minv m \<Longrightarrow> minv (mput m k v)"
    and inv_erase: "minv m \<Longrightarrow> minv (merase m k)"
    and lookup_empty: "mlookup mempty = Map.empty"
    and lookup_put: "minv m \<Longrightarrow> mlookup (mput m k v) = (mlookup m)(k \<mapsto> v)"
    and lookup_erase: "minv m \<Longrightarrow> mlookup (merase m k) = (mlookup m)(k := None)"
begin

lemma inv_fold_put: "minv m \<Longrightarrow> minv (foldl (\<lambda>m (k, v). mput m k v) m xs)"
  by (induction xs arbitrary: m) (auto simp: inv_put)

lemma lookup_fold_put:
  "minv m \<Longrightarrow> mlookup (foldl (\<lambda>m (k, v). mput m k v) m xs) = mlookup m ++ map_of (rev xs)"
proof (induction xs arbitrary: m)
  case (Cons p xs)
  then show ?case
    by (cases p) (auto simp: inv_put lookup_put map_add_def fun_eq_iff split: option.splits)
qed simp

end

interpretation std: ordered_map "[]" put erase_key map_of map_ok
  by unfold_locales (auto simp: map_ok_put map_ok_erase_key map_of_put map_of_erase_key)

end
