(* ===== verification/Upserts.thy ===== *)
theory Upserts
  imports Std_Map
begin

text \<open>
  The messages of the tree (client/betree.hpp, "Upserts"): a \<open>MessageKey\<close> is a user key with
  a 64-bit timestamp, ordered by key and then by timestamp, and a \<open>Message\<close> is an opcode with
  a value.  \<open>apply_msg\<close> is what a message means: the effect of one insert, delete or update
  on the value stored under its key.  Everything the tree does with messages is measured
  against it.
\<close>

subsection \<open>MessageKey\<close>

datatype 'k message_key = MessageKey (key: 'k) (timestamp: u64)

definition range_start :: "'k \<Rightarrow> 'k message_key" where
  "range_start k = MessageKey k 0"

definition range_end :: "'k \<Rightarrow> 'k message_key" where
  "range_end k = MessageKey k (- 1)"

instantiation message_key :: (linorder) linorder
begin

definition less_message_key :: "'a message_key \<Rightarrow> 'a message_key \<Rightarrow> bool" where
  "mkey1 < mkey2 \<longleftrightarrow>
     key mkey1 < key mkey2 \<or> (key mkey1 = key mkey2 \<and> timestamp mkey1 < timestamp mkey2)"

definition less_eq_message_key :: "'a message_key \<Rightarrow> 'a message_key \<Rightarrow> bool" where
  "mkey1 \<le> mkey2 \<longleftrightarrow> mkey1 < mkey2 \<or> mkey1 = (mkey2 :: 'a message_key)"

instance
proof
  fix x y z :: "'a message_key"
  show "x < y \<longleftrightarrow> x \<le> y \<and> \<not> y \<le> x"
    by (auto simp: less_message_key_def less_eq_message_key_def)
  show "x \<le> x" by (simp add: less_eq_message_key_def)
  show "x \<le> y \<Longrightarrow> y \<le> z \<Longrightarrow> x \<le> z"
    by (auto simp: less_message_key_def less_eq_message_key_def)
  show "x \<le> y \<Longrightarrow> y \<le> x \<Longrightarrow> x = y"
    by (auto simp: less_message_key_def less_eq_message_key_def)
  show "x \<le> y \<or> y \<le> x"
    by (cases x; cases y) (auto simp: less_message_key_def less_eq_message_key_def)
qed

end

text \<open>The mixed comparisons of a key with a message key look at the user key only.\<close>

definition key_less_mkey :: "'k :: linorder \<Rightarrow> 'k message_key \<Rightarrow> bool" where
  "key_less_mkey k mkey \<longleftrightarrow> k < key mkey"

definition mkey_less_key :: "'k message_key \<Rightarrow> 'k :: linorder \<Rightarrow> bool" where
  "mkey_less_key mkey k \<longleftrightarrow> key mkey < k"

lemma word_le_minus_one [simp]: "(t :: u64) \<le> - 1"
  by (rule word_n1_ge)

lemma word_less_minus_one: "(t :: u64) < - 1 \<longleftrightarrow> t \<noteq> - 1"
  by (simp add: less_le)

lemma range_start_le_iff: "range_start k \<le> mk \<longleftrightarrow> k \<le> key mk"
  by (cases mk) (auto simp: range_start_def less_eq_message_key_def less_message_key_def word_gt_0)

lemma less_range_start_iff: "mk < range_start k \<longleftrightarrow> key mk < k"
  by (cases mk) (auto simp: range_start_def less_message_key_def word_gt_0)

lemma le_range_end_iff: "mk \<le> range_end k \<longleftrightarrow> key mk \<le> k"
  by (cases mk)
    (auto simp: range_end_def less_eq_message_key_def less_message_key_def word_less_minus_one)

lemma range_end_less_iff: "range_end k < mk \<longleftrightarrow> k < key mk"
  by (auto simp: le_range_end_iff not_le[symmetric])

lemmas range_iffs = range_start_le_iff less_range_start_iff le_range_end_iff range_end_less_iff

lemma key_range [simp]: "key (range_start k) = k" "key (range_end k) = k"
  by (simp_all add: range_start_def range_end_def)

lemma key_mono: "mk \<le> mk' \<Longrightarrow> key mk \<le> key (mk' :: 'k :: linorder message_key)"
  by (auto simp: less_eq_message_key_def less_message_key_def)

lemma range_start_le_range_end [simp]: "range_start k \<le> range_end k"
  by (simp add: le_range_end_iff)

subsection \<open>Message\<close>

abbreviation (input) INSERT :: int where "INSERT \<equiv> 0"
abbreviation (input) DELETE :: int where "DELETE \<equiv> 1"
abbreviation (input) UPDATE :: int where "UPDATE \<equiv> 2"

datatype 'v message = Message (opcode: int) (val: 'v)

definition known_opcode :: "'v message \<Rightarrow> bool" where
  "known_opcode m \<longleftrightarrow> opcode m = INSERT \<or> opcode m = DELETE \<or> opcode m = UPDATE"

lemma known_opcodeE:
  assumes "known_opcode m"
  obtains v where "m = Message INSERT v" | v where "m = Message DELETE v"
    | v where "m = Message UPDATE v"
  using assms by (cases m) (auto simp: known_opcode_def)

subsection \<open>What a message means\<close>

definition apply_msg :: "'v :: plus \<Rightarrow> 'v option \<Rightarrow> 'v message \<Rightarrow> 'v option" where
  "apply_msg dflt old m =
     (if opcode m = INSERT then Some (val m)
      else if opcode m = DELETE then None
      else Some ((case old of None \<Rightarrow> dflt | Some w \<Rightarrow> w) + val m))"

abbreviation apply_msgs :: "'v :: plus \<Rightarrow> 'v option \<Rightarrow> 'v message list \<Rightarrow> 'v option" where
  "apply_msgs dflt \<equiv> foldl (apply_msg dflt)"

lemma apply_msg_simps [simp]:
  "apply_msg d old (Message INSERT v) = Some v"
  "apply_msg d old (Message DELETE v) = None"
  "apply_msg d old (Message UPDATE v) = Some ((case old of None \<Rightarrow> d | Some w \<Rightarrow> w) + v)"
  by (simp_all add: apply_msg_def)

text \<open>The messages for one user key, oldest first.\<close>

definition msgs_for :: "('k message_key \<times> 'v message) list \<Rightarrow> 'k \<Rightarrow> 'v message list" where
  "msgs_for es k = map snd (filter (\<lambda>e. key (fst e) = k) es)"

lemma msgs_for_Nil [simp]: "msgs_for [] k = []"
  by (simp add: msgs_for_def)

lemma msgs_for_append [simp]: "msgs_for (a @ b) k = msgs_for a k @ msgs_for b k"
  by (simp add: msgs_for_def)

lemma msgs_for_Cons:
  "msgs_for (e # es) k = (if key (fst e) = k then snd e # msgs_for es k else msgs_for es k)"
  by (simp add: msgs_for_def)

lemma msgs_for_eq_Nil_iff: "msgs_for es k = [] \<longleftrightarrow> k \<notin> (key \<circ> fst) ` set es"
  by (auto simp: msgs_for_def filter_empty_conv)

lemma msgs_for_NilI: "(\<And>e. e \<in> set es \<Longrightarrow> key (fst e) \<noteq> k) \<Longrightarrow> msgs_for es k = []"
  by (auto simp: msgs_for_def filter_empty_conv)

lemma msgs_for_filter_key:
  "msgs_for (filter (\<lambda>e. P (key (fst e))) es) k = (if P k then msgs_for es k else [])"
  by (induction es) (auto simp: msgs_for_Cons)

end
