(* ===== verification/Swap_Interface.thy ===== *)
theory Swap_Interface
  imports Prelude
begin

text \<open>
  How the tree uses the swap space (client/swap_space.hpp): \<open>swap_ops\<close> are the calls it makes
  through \<open>swap_space::pointer\<close>, and the locale \<open>swap_contract\<close> is what it relies on.  The
  swap space's own theory provides the calls and proves the contract.

  \<open>p->member\<close> is \<open>arrow\<close>: a temporary \<open>pin\<close> is built and its \<open>operator->\<close> accesses the
  object (\<open>ss_enter\<close>; the flag says whether the access is through a non-const pointer and so
  dirties the object), the member is used, and the pin is destroyed at the end of the full
  expression (\<open>ss_leave\<close>).  While a pin lives, \<open>ss_object\<close> is the object in memory and
  \<open>ss_store\<close> is an assignment to its members.
\<close>

record ('s, 'p, 'n) swap_ops =
  ss_allocate :: "'n \<Rightarrow> 's \<Rightarrow> err + ('p \<times> 's)"
  ss_enter :: "bool \<Rightarrow> 'p \<Rightarrow> 's \<Rightarrow> err + 's"
  ss_leave :: "'p \<Rightarrow> 's \<Rightarrow> err + 's"
  ss_object :: "'p \<Rightarrow> 's \<Rightarrow> 'n option"
  ss_store :: "'p \<Rightarrow> 'n \<Rightarrow> 's \<Rightarrow> 's"
  ss_depoint :: "'p \<Rightarrow> 's \<Rightarrow> err + 's"
  ss_is_dirty :: "'p \<Rightarrow> 's \<Rightarrow> bool"
  ss_is_in_memory :: "'p \<Rightarrow> 's \<Rightarrow> bool"

definition this_node :: "('s, 'p, 'n) swap_ops \<Rightarrow> 'p \<Rightarrow> 's \<Rightarrow> err + 'n" where
  "this_node ops p s = (case ss_object ops p s of None \<Rightarrow> Inl Null_Pointer | Some n \<Rightarrow> Inr n)"

definition arrow ::
  "('s, 'p, 'n) swap_ops \<Rightarrow> bool \<Rightarrow> 'p \<Rightarrow> ('s \<Rightarrow> err + ('a \<times> 's)) \<Rightarrow> 's \<Rightarrow> err + ('a \<times> 's)" where
  "arrow ops dirty p body s =
     bindE (ss_enter ops dirty p s) (\<lambda>s1.
     bindE (body s1) (\<lambda>(r, s2).
     bindE (ss_leave ops p s2) (\<lambda>s3. Inr (r, s3))))"

text \<open>\<open>p->field = \<dots>\<close> for a member of the object.\<close>

definition assign :: "('s, 'p, 'n) swap_ops \<Rightarrow> 'p \<Rightarrow> ('n \<Rightarrow> 'n) \<Rightarrow> 's \<Rightarrow> err + (unit \<times> 's)" where
  "assign ops p f s = bindE (this_node ops p s) (\<lambda>n. Inr ((), ss_store ops p (f n) s))"

locale swap_contract =
  fixes ops :: "('s, 'p, 'n) swap_ops"
    and view :: "'s \<Rightarrow> 'p \<Rightarrow> 'n option"
    and pins :: "'s \<Rightarrow> 'p \<Rightarrow> nat"
    and sinv :: "'s \<Rightarrow> bool"
    and refs :: "'n \<Rightarrow> 'p list"
    and storable :: "'n \<Rightarrow> bool"
    and swap_err :: "err \<Rightarrow> bool"
  assumes allocate_spec:
    "sinv s \<Longrightarrow> storable n \<Longrightarrow> refs n = [] \<Longrightarrow>
     wpE (ss_allocate ops n s) swap_err (\<lambda>(p, s').
       sinv s' \<and> view s p = None \<and> view s' = (view s)(p \<mapsto> n) \<and> pins s' = pins s \<and>
       (\<forall>q. pins s q > 0 \<and> ss_is_dirty ops q s \<longrightarrow> ss_is_dirty ops q s') \<and>
       (\<forall>q. ss_is_dirty ops q s' \<longrightarrow> q = p \<or> ss_is_dirty ops q s))"
    and enter_spec:
    "sinv s \<Longrightarrow> view s p = Some n \<Longrightarrow> (\<And>q. q \<in> set (refs n) \<Longrightarrow> view s q \<noteq> None) \<Longrightarrow>
     wpE (ss_enter ops d p s) swap_err (\<lambda>s'.
       sinv s' \<and> view s' = view s \<and> pins s' = (pins s)(p := Suc (pins s p)) \<and>
       (d \<longrightarrow> ss_is_dirty ops p s') \<and>
       (\<forall>q. pins s q > 0 \<and> ss_is_dirty ops q s \<longrightarrow> ss_is_dirty ops q s') \<and>
       (\<forall>q. ss_is_dirty ops q s' \<longrightarrow> (d \<and> q = p) \<or> ss_is_dirty ops q s))"
    and leave_spec:
    "sinv s \<Longrightarrow> pins s p > 0 \<Longrightarrow>
     wpE (ss_leave ops p s) swap_err (\<lambda>s'.
       sinv s' \<and> view s' = view s \<and> pins s' = (pins s)(p := pins s p - 1) \<and>
       (\<forall>q. pins s' q > 0 \<and> ss_is_dirty ops q s \<longrightarrow> ss_is_dirty ops q s') \<and>
       (\<forall>q. ss_is_dirty ops q s' \<longrightarrow> ss_is_dirty ops q s))"
    and refs_live: "sinv s \<Longrightarrow> view s q = Some m \<Longrightarrow> r \<in> set (refs m) \<Longrightarrow> view s r \<noteq> None"
    and object_spec: "sinv s \<Longrightarrow> pins s p > 0 \<Longrightarrow> ss_object ops p s = view s p"
    and pinned_live: "sinv s \<Longrightarrow> pins s p > 0 \<Longrightarrow> view s p \<noteq> None"
    and store_spec:
    "sinv s \<Longrightarrow> pins s p > 0 \<Longrightarrow> ss_is_dirty ops p s \<Longrightarrow> storable n \<Longrightarrow>
     (\<And>q. q \<in> set (refs n) \<Longrightarrow> view s q \<noteq> None) \<Longrightarrow>
     sinv (ss_store ops p n s) \<and> view (ss_store ops p n s) = (view s)(p \<mapsto> n) \<and>
     pins (ss_store ops p n s) = pins s \<and>
     (\<forall>q. ss_is_dirty ops q (ss_store ops p n s) = ss_is_dirty ops q s)"
    and depoint_spec:
    "sinv s \<Longrightarrow> view s p = Some n \<Longrightarrow> refs n = [] \<Longrightarrow> pins s p = 0 \<Longrightarrow>
     (\<And>q m. view s q = Some m \<Longrightarrow> p \<notin> set (refs m)) \<Longrightarrow>
     wpE (ss_depoint ops p s) swap_err (\<lambda>s'.
       sinv s' \<and> view s' = (view s)(p := None) \<and> pins s' = pins s \<and>
       (\<forall>q. pins s q > 0 \<and> ss_is_dirty ops q s \<longrightarrow> ss_is_dirty ops q s') \<and>
       (\<forall>q. ss_is_dirty ops q s' \<longrightarrow> ss_is_dirty ops q s))"
begin

text \<open>
  \<open>same_pins s s'\<close>: what every complete call keeps of the state, apart from the objects it
  works on: the pins, and the dirty bit of whatever is pinned.
\<close>

definition same_pins :: "'s \<Rightarrow> 's \<Rightarrow> bool" where
  "same_pins s s' \<longleftrightarrow> sinv s' \<and> pins s' = pins s \<and>
     (\<forall>q. pins s q > 0 \<and> ss_is_dirty ops q s \<longrightarrow> ss_is_dirty ops q s')"

lemma same_pins_refl: "sinv s \<Longrightarrow> same_pins s s"
  by (simp add: same_pins_def)

lemma same_pins_trans: "same_pins s t \<Longrightarrow> same_pins t u \<Longrightarrow> same_pins s u"
  by (auto simp: same_pins_def)

lemma wp_this_node:
  assumes "sinv s" and "pins s p > 0" and "view s p = Some n" and "Q n"
  shows "wpE (this_node ops p s) E Q"
  using assms object_spec[of s p] by (simp add: this_node_def)

lemma this_node_eq:
  "sinv s \<Longrightarrow> pins s p > 0 \<Longrightarrow> view s p = Some n \<Longrightarrow> this_node ops p s = Inr n"
  by (simp add: this_node_def object_spec)

text \<open>A call through \<open>p->\<close>: the body runs with \<open>p\<close> pinned and has to keep the pins.\<close>

lemma wp_arrow:
  assumes s: "sinv s" and p: "view s p = Some n"
    and refs: "\<And>q. q \<in> set (refs n) \<Longrightarrow> view s q \<noteq> None"
    and E: "\<And>e. swap_err e \<Longrightarrow> E e"
    and body: "\<And>s1. sinv s1 \<Longrightarrow> view s1 = view s \<Longrightarrow> pins s1 = (pins s)(p := Suc (pins s p)) \<Longrightarrow>
        (d \<Longrightarrow> ss_is_dirty ops p s1) \<Longrightarrow>
        (\<And>q. pins s q > 0 \<Longrightarrow> ss_is_dirty ops q s \<Longrightarrow> ss_is_dirty ops q s1) \<Longrightarrow>
        (\<And>q. ss_is_dirty ops q s1 \<Longrightarrow> (d \<and> q = p) \<or> ss_is_dirty ops q s) \<Longrightarrow>
        wpE (body s1) E (\<lambda>(r, s2). same_pins s1 s2 \<and>
          (\<forall>s3. same_pins s s3 \<and> view s3 = view s2 \<and>
             (\<forall>q. ss_is_dirty ops q s3 \<longrightarrow> ss_is_dirty ops q s2) \<longrightarrow> Q (r, s3)))"
  shows "wpE (arrow ops d p body s) E Q"
  unfolding arrow_def
proof (rule wpE_bind_rule[OF wpE_mono[OF enter_spec[OF s p refs] E]], assumption, assumption, assumption)
  fix s1
  assume s1: "sinv s1 \<and> view s1 = view s \<and> pins s1 = (pins s)(p := Suc (pins s p)) \<and>
       (d \<longrightarrow> ss_is_dirty ops p s1) \<and>
       (\<forall>q. pins s q > 0 \<and> ss_is_dirty ops q s \<longrightarrow> ss_is_dirty ops q s1) \<and>
       (\<forall>q. ss_is_dirty ops q s1 \<longrightarrow> (d \<and> q = p) \<or> ss_is_dirty ops q s)"
  show "wpE (bindE (body s1) (\<lambda>(r, s2). bindE (ss_leave ops p s2) (\<lambda>s3. Inr (r, s3)))) E Q"
  proof (rule wpE_bind_rule[OF body], goal_cases)
    case (7 x)
    obtain r s2 where x: "x = (r, s2)" by (cases x)
    with 7 have sp: "same_pins s1 s2"
      and Q: "\<And>s3. same_pins s s3 \<Longrightarrow> view s3 = view s2 \<Longrightarrow>
        (\<And>q. ss_is_dirty ops q s3 \<Longrightarrow> ss_is_dirty ops q s2) \<Longrightarrow> Q (r, s3)"
      by auto
    have "pins s2 p > 0" and "sinv s2" using sp s1 by (auto simp: same_pins_def)
    note leave = leave_spec[OF this(2,1)]
    have "wpE (ss_leave ops p s2) E (\<lambda>s3. Q (r, s3))"
    proof (rule wpE_mono[OF leave])
      fix s3
      assume s3: "sinv s3 \<and> view s3 = view s2 \<and> pins s3 = (pins s2)(p := pins s2 p - 1) \<and>
        (\<forall>q. pins s3 q > 0 \<and> ss_is_dirty ops q s2 \<longrightarrow> ss_is_dirty ops q s3) \<and>
        (\<forall>q. ss_is_dirty ops q s3 \<longrightarrow> ss_is_dirty ops q s2)"
      then have "pins s3 = pins s" using sp s1 by (simp add: same_pins_def fun_eq_iff)
      with s3 sp s1 show "Q (r, s3)"
        by (intro Q) (auto simp: same_pins_def)
    qed (use E in auto)
    then show ?case by (simp add: x wp_rules)
  qed (use s1 in auto)
qed

lemma wp_assign:
  assumes "sinv s" and "pins s p > 0" and "ss_is_dirty ops p s" and "view s p = Some n"
    and "storable (f n)" and "\<And>q. q \<in> set (refs (f n)) \<Longrightarrow> view s q \<noteq> None"
    and "\<And>s'. sinv s' \<Longrightarrow> view s' = (view s)(p \<mapsto> f n) \<Longrightarrow> same_pins s s' \<Longrightarrow>
          (\<And>q. ss_is_dirty ops q s' = ss_is_dirty ops q s) \<Longrightarrow> Q ((), s')"
  shows "wpE (assign ops p f s) E Q"
  using assms store_spec[OF assms(1,2,3,5,6)]
  by (auto simp: assign_def wp_rules this_node_eq same_pins_def)

text \<open>
  \<open>keeps X s s'\<close>: a complete call that dirties nothing outside \<open>X\<close>.
\<close>

definition keeps :: "'p set \<Rightarrow> 's \<Rightarrow> 's \<Rightarrow> bool" where
  "keeps X s s' \<longleftrightarrow> same_pins s s' \<and> (\<forall>q. ss_is_dirty ops q s' \<longrightarrow> q \<in> X \<or> ss_is_dirty ops q s)"

lemma keeps_refl: "sinv s \<Longrightarrow> keeps X s s"
  by (simp add: keeps_def same_pins_refl)

lemma keeps_trans: "keeps X s t \<Longrightarrow> keeps Y t u \<Longrightarrow> X \<union> Y \<subseteq> Z \<Longrightarrow> keeps Z s u"
  unfolding keeps_def by (blast intro: same_pins_trans)

lemma keepsD:
  assumes "keeps X s s'"
  shows "sinv s'" and "pins s' = pins s"
    and "pins s q > 0 \<Longrightarrow> ss_is_dirty ops q s \<Longrightarrow> ss_is_dirty ops q s'"
    and "ss_is_dirty ops q s' \<Longrightarrow> q \<in> X \<or> ss_is_dirty ops q s"
  using assms by (auto simp: keeps_def same_pins_def)

lemma unpinned: "sinv s \<Longrightarrow> view s p = None \<Longrightarrow> pins s p = 0"
  using pinned_live by blast

lemma wp_allocate:
  assumes "sinv s" and "storable n" and "refs n = []"
    and "\<And>p s'. view s p = None \<Longrightarrow> view s' = (view s)(p \<mapsto> n) \<Longrightarrow> keeps {p} s s' \<Longrightarrow> Q (p, s')"
  shows "wpE (ss_allocate ops n s) swap_err Q"
  using allocate_spec[OF assms(1-3)]
  by (rule wpE_mono) (auto simp: keeps_def same_pins_def intro!: assms(4))

lemma wp_depoint:
  assumes "sinv s" and "view s p = Some n" and "refs n = []" and "pins s p = 0"
    and "\<And>q m. view s q = Some m \<Longrightarrow> p \<notin> set (refs m)"
    and "\<And>s'. view s' = (view s)(p := None) \<Longrightarrow> keeps {} s s' \<Longrightarrow> Q s'"
  shows "wpE (ss_depoint ops p s) swap_err Q"
  using depoint_spec[OF assms(1-5)]
  by (rule wpE_mono) (auto simp: keeps_def same_pins_def intro!: assms(6))

text \<open>\<open>q->field = \<dots>\<close> from outside \<open>q\<close>.\<close>

lemma wp_arrow_assign:
  assumes s: "sinv s" and q: "view s q = Some n"
    and refs: "\<And>r. r \<in> set (refs n) \<Longrightarrow> view s r \<noteq> None"
    and st: "storable (f n)" and refs': "\<And>r. r \<in> set (refs (f n)) \<Longrightarrow> view s r \<noteq> None"
    and Q: "\<And>s'. view s' = (view s)(q \<mapsto> f n) \<Longrightarrow> keeps {q} s s' \<Longrightarrow> Q ((), s')"
  shows "wpE (arrow ops True q (assign ops q f) s) swap_err Q"
proof (rule wp_arrow[OF s q refs])
  fix s1
  assume s1: "sinv s1" "view s1 = view s" "pins s1 = (pins s)(q := Suc (pins s q))"
    and d: "True \<Longrightarrow> ss_is_dirty ops q s1"
    and d1: "\<And>r. ss_is_dirty ops r s1 \<Longrightarrow> True \<and> r = q \<or> ss_is_dirty ops r s"
  have step: "same_pins s1 s2 \<and> (\<forall>s3. same_pins s s3 \<and> view s3 = view s2 \<and>
      (\<forall>r. ss_is_dirty ops r s3 \<longrightarrow> ss_is_dirty ops r s2) \<longrightarrow> Q ((), s3))"
    if "view s2 = (view s1)(q \<mapsto> f n)" and "same_pins s1 s2"
      and "\<And>r. ss_is_dirty ops r s2 = ss_is_dirty ops r s1" for s2
  proof (intro conjI allI impI)
    fix s3
    assume s3: "same_pins s s3 \<and> view s3 = view s2 \<and>
      (\<forall>r. ss_is_dirty ops r s3 \<longrightarrow> ss_is_dirty ops r s2)"
    show "Q ((), s3)"
    proof (rule Q)
      show "view s3 = (view s)(q \<mapsto> f n)" using s3 s1(2) that(1) by simp
      show "keeps {q} s s3" using s3 that(3) d1 by (auto simp: keeps_def)
    qed
  qed (rule that(2))
  show "wpE (assign ops q f s1) swap_err (\<lambda>(r, s2). same_pins s1 s2 \<and>
      (\<forall>s3. same_pins s s3 \<and> view s3 = view s2 \<and>
        (\<forall>q. ss_is_dirty ops q s3 \<longrightarrow> ss_is_dirty ops q s2) \<longrightarrow> Q (r, s3)))"
    by (rule wp_assign[OF s1(1)]) (use s1 d q st refs' step in auto)
qed auto

text \<open>Reading through \<open>q->\<close>.\<close>

lemma wp_arrow_read:
  assumes s: "sinv s" and q: "view s q = Some n"
    and refs: "\<And>r. r \<in> set (refs n) \<Longrightarrow> view s r \<noteq> None"
    and body: "\<And>s1. sinv s1 \<Longrightarrow> view s1 = view s \<Longrightarrow> pins s1 q > 0 \<Longrightarrow>
      wpE (body s1) swap_err (\<lambda>(r, s2). view s2 = view s \<and> keeps X s1 s2 \<and> R r)"
    and Q: "\<And>r s'. view s' = view s \<Longrightarrow> keeps ((if d then {q} else {}) \<union> X) s s' \<Longrightarrow> R r \<Longrightarrow> Q (r, s')"
  shows "wpE (arrow ops d q body s) swap_err Q"
proof (rule wp_arrow[OF s q refs])
  fix s1
  assume s1: "sinv s1" "view s1 = view s" "pins s1 = (pins s)(q := Suc (pins s q))"
    and d1: "\<And>r. ss_is_dirty ops r s1 \<Longrightarrow> d \<and> r = q \<or> ss_is_dirty ops r s"
  have "wpE (body s1) swap_err (\<lambda>(r, s2). view s2 = view s \<and> keeps X s1 s2 \<and> R r)"
    using s1 by (intro body) auto
  then show "wpE (body s1) swap_err (\<lambda>(r, s2). same_pins s1 s2 \<and>
      (\<forall>s3. same_pins s s3 \<and> view s3 = view s2 \<and>
        (\<forall>q. ss_is_dirty ops q s3 \<longrightarrow> ss_is_dirty ops q s2) \<longrightarrow> Q (r, s3)))"
    by (rule wpE_mono) (auto simp: keeps_def intro!: Q, (use d1 in blast)+)
qed auto

end

end
