(* ===== verification/Betree_Node.thy ===== *)
theory Betree_Node
  imports Upserts Swap_Interface
begin

text \<open>
  The nodes of the tree (client/betree.hpp, class \<open>betree::node\<close>): the node and its child
  table, and the member functions, each in the order of the source.

  A node is reached through a swap-space pointer \<open>'p\<close>, and a member function runs on the
  object that pointer pins; the swap space is the state \<open>'s\<close>, passed explicitly.  A member
  function that calls itself on a child takes the depth of the call stack as fuel.  Iterators
  into \<open>pivots\<close> and \<open>elements\<close> are positions; the one iterator that outlives changes of its
  map, \<open>first_pivot_idx\<close> in \<open>flush\<close>, is the key it points to, or \<open>None\<close> once that entry has
  been erased and the iterator dangles.
\<close>

record 'p child_info =
  child :: "'p"
  child_size :: nat

record ('p, 'k, 'v) node =
  pivots :: "('k \<times> 'p child_info) list"
  elements :: "('k message_key \<times> 'v message) list"

type_synonym ('k, 'v) message_map = "('k message_key \<times> 'v message) list"
type_synonym ('k, 'p) pivot_map = "('k \<times> 'p child_info) list"

text \<open>The data members of \<open>class betree\<close> other than the swap space.\<close>

record ('p, 'v) betree =
  min_flush_size :: nat
  max_node_size :: nat
  min_node_size :: nat
  root :: "'p"
  next_timestamp :: u64
  default_value :: "'v"

definition new_node :: "('p, 'k, 'v) node" where
  "new_node = \<lparr>pivots = [], elements = []\<rparr>"

definition is_leaf :: "('p, 'k, 'v) node \<Rightarrow> bool" where
  "is_leaf n \<longleftrightarrow> pivots n = []"

definition node_size :: "('p, 'k, 'v) node \<Rightarrow> nat" where
  "node_size n = length (pivots n) + length (elements n)"

definition node_refs :: "('p, 'k, 'v) node \<Rightarrow> 'p list" where
  "node_refs n = map (child \<circ> snd) (pivots n)"

subsection \<open>Searching a node\<close>

text \<open>\<open>Inr None\<close> is the exception \<open>std::out_of_range\<close>.\<close>

definition get_pivot :: "('k :: linorder, 'p) pivot_map \<Rightarrow> 'k \<Rightarrow> err + nat option" where
  "get_pivot mp k =
     bindE (assertE (length mp > 0) (Assertion ''mp.size() > 0'')) (\<lambda>_.
     let it = lower_bound mp k in
     if it = 0 \<and> k < fst (mp ! it) then Inr None
     else if it = length mp \<or> k < fst (mp ! it) then Inr (Some (it - 1))
     else Inr (Some it))"

definition get_element_begin :: "('k :: linorder, 'v) message_map \<Rightarrow> 'k \<Rightarrow> nat" where
  "get_element_begin elts k = lower_bound elts (range_start k)"

definition get_element_begin_it :: "('p, 'k :: linorder, 'v) node \<Rightarrow> nat \<Rightarrow> nat" where
  "get_element_begin_it n it =
     (if it = length (pivots n) then length (elements n)
      else get_element_begin (elements n) (fst (pivots n ! it)))"

subsection \<open>apply\<close>

definition erase_messages :: "('k :: linorder, 'v) message_map \<Rightarrow> 'k \<Rightarrow> ('k, 'v) message_map" where
  "erase_messages es k =
     erase_range es (lower_bound es (range_start k)) (upper_bound es (range_end k))"

definition apply_insert ::
  "('p, 'k :: linorder, 'v) node \<Rightarrow> 'k message_key \<Rightarrow> 'v message \<Rightarrow> ('p, 'k, 'v) node" where
  "apply_insert n mkey elt = n\<lparr>elements := put (erase_messages (elements n) (key mkey)) mkey elt\<rparr>"

definition node_apply ::
  "'v :: plus \<Rightarrow> ('p, 'k :: linorder, 'v) node \<Rightarrow> 'k message_key \<Rightarrow> 'v message
   \<Rightarrow> err + ('p, 'k, 'v) node" where
  "node_apply dflt n mkey elt =
     (let es = elements n in
      if opcode elt = INSERT then Inr (apply_insert n mkey elt)
      else if opcode elt = DELETE then
        (let es' = erase_messages es (key mkey) in
         Inr (n\<lparr>elements := (if is_leaf n then es' else put es' mkey elt)\<rparr>))
      else if opcode elt = UPDATE then
        (let iter = upper_bound es (range_end (key mkey));
             iter = (if iter \<noteq> 0 then iter - 1 else iter) in
         if iter = length es \<or> key (fst (es ! iter)) \<noteq> key mkey then
           if is_leaf n then Inr (apply_insert n mkey (Message INSERT (dflt + val elt)))
           else Inr (n\<lparr>elements := put es mkey elt\<rparr>)
         else if opcode (snd (es ! iter)) = INSERT then
           Inr (apply_insert n mkey (Message INSERT (val (snd (es ! iter)) + val elt)))
         else Inr (n\<lparr>elements := put es mkey elt\<rparr>))
      else Inl (Assertion ''0''))"

fun apply_all ::
  "'v :: plus \<Rightarrow> ('p, 'k :: linorder, 'v) node \<Rightarrow> ('k, 'v) message_map
   \<Rightarrow> err + ('p, 'k, 'v) node" where
  "apply_all dflt n [] = Inr n"
| "apply_all dflt n ((mkey, elt) # elts) =
     bindE (node_apply dflt n mkey elt) (\<lambda>n'. apply_all dflt n' elts)"

subsection \<open>split\<close>

text \<open>\<open>p->pivots.size() + p->elements.size()\<close>: two pins, both alive until the sum is taken.\<close>

definition sizes ::
  "('s, 'p, ('p, 'k, 'v) node) swap_ops \<Rightarrow> 'p \<Rightarrow> 's \<Rightarrow> err + (nat \<times> 's)" where
  "sizes ops p =
     arrow ops True p (\<lambda>s1. bindE (this_node ops p s1) (\<lambda>n1.
       arrow ops True p (\<lambda>s2. bindE (this_node ops p s2) (\<lambda>n2.
         Inr (length (pivots n1) + length (elements n2), s2))) s1))"

text \<open>The inner loop that copies the elements up to \<open>elt_end\<close>, one pin per element.\<close>

fun split_move ::
  "('s, 'p, ('p, 'k :: linorder, 'v) node) swap_ops \<Rightarrow> 'p \<Rightarrow> ('k, 'v) message_map \<Rightarrow> 's
   \<Rightarrow> err + 's" where
  "split_move ops q [] s = Inr s"
| "split_move ops q ((mkey, elt) # es) s =
     bindE (arrow ops True q
       (assign ops q (\<lambda>n. n\<lparr>elements := put (elements n) mkey elt\<rparr>)) s) (\<lambda>(_, s').
     split_move ops q es s')"

text \<open>The \<open>while\<close> loop that fills one new node up to \<open>limit\<close> things.\<close>

function split_fill ::
  "('s, 'p, ('p, 'k :: linorder, 'v) node) swap_ops \<Rightarrow> ('p, 'k, 'v) node \<Rightarrow> 'p \<Rightarrow> nat
   \<Rightarrow> nat \<times> nat \<times> nat \<Rightarrow> 's \<Rightarrow> err + ((nat \<times> nat \<times> nat) \<times> 's)" where
  "split_fill ops n q limit (pivot_idx, elt_idx, things_moved) s =
     (if things_moved < limit \<and> (pivot_idx < length (pivots n) \<or> elt_idx < length (elements n))
      then
        if pivot_idx < length (pivots n) then
          bindE (arrow ops True q (assign ops q (\<lambda>m. m\<lparr>pivots :=
            put (pivots m) (fst (pivots n ! pivot_idx)) (snd (pivots n ! pivot_idx))\<rparr>)) s)
            (\<lambda>(_, s1).
          let elt_end = get_element_begin_it n (Suc pivot_idx) in
          if elt_end < elt_idx then Inl Past_The_End
          else bindE (split_move ops q (subrange (elements n) elt_idx elt_end) s1) (\<lambda>s2.
            split_fill ops n q limit
              (Suc pivot_idx, elt_end, Suc things_moved + (elt_end - elt_idx)) s2))
        else
          bindE (assertE (length (pivots n) = 0) (Assertion ''pivots.size() == 0'')) (\<lambda>_.
          bindE (split_move ops q [elements n ! elt_idx] s) (\<lambda>s1.
            split_fill ops n q limit (pivot_idx, Suc elt_idx, Suc things_moved) s1))
      else Inr ((pivot_idx, elt_idx, things_moved), s))"
  by pat_completeness auto
termination
  by (relation "measure (\<lambda>(ops, n, q, limit, (pi, ei, tm), s).
       (length (pivots n) - pi) + (length (elements n) - ei))") auto

declare split_fill.simps [simp del]

text \<open>The \<open>for\<close> loop over the new nodes; the first argument counts the rounds left.\<close>

fun split_nodes ::
  "nat \<Rightarrow> ('s, 'p, ('p, 'k :: linorder, 'v) node) swap_ops \<Rightarrow> ('p, 'k, 'v) node \<Rightarrow> nat \<Rightarrow> nat
   \<Rightarrow> nat \<times> nat \<times> nat \<Rightarrow> ('k, 'p) pivot_map \<Rightarrow> 's
   \<Rightarrow> err + ((nat \<times> nat \<times> nat) \<times> ('k, 'p) pivot_map \<times> 's)" where
  "split_nodes 0 ops n things_per_new_leaf i st result s = Inr (st, result, s)"
| "split_nodes (Suc r) ops n things_per_new_leaf i (pivot_idx, elt_idx, things_moved) result s =
     (if pivot_idx = length (pivots n) \<and> elt_idx = length (elements n)
      then Inr ((pivot_idx, elt_idx, things_moved), result, s)
      else
        bindE (ss_allocate ops new_node s) (\<lambda>(q, s1).
        bindE (sizes ops q s1) (\<lambda>(sz, s2).
        let k = (if pivot_idx \<noteq> length (pivots n) then fst (pivots n ! pivot_idx)
                 else key (fst (elements n ! elt_idx))) in
        bindE (case map_of result k of None \<Rightarrow> Inr s2 | Some old \<Rightarrow> ss_depoint ops (child old) s2)
          (\<lambda>s3.
        bindE (to_int (Suc i * things_per_new_leaf)) (\<lambda>limit.
        bindE (split_fill ops n q limit (pivot_idx, elt_idx, things_moved) s3) (\<lambda>(st, s4).
        split_nodes r ops n things_per_new_leaf (Suc i) st
          (put result k \<lparr>child = q, child_size = sz\<rparr>) s4))))))"

fun split_sizes ::
  "('s, 'p, ('p, 'k, 'v) node) swap_ops \<Rightarrow> ('k, 'p) pivot_map \<Rightarrow> 's
   \<Rightarrow> err + (('k, 'p) pivot_map \<times> 's)" where
  "split_sizes ops [] s = Inr ([], s)"
| "split_sizes ops ((k, ci) # rest) s =
     bindE (sizes ops (child ci) s) (\<lambda>(sz, s1).
     bindE (split_sizes ops rest s1) (\<lambda>(rest', s2).
     Inr ((k, ci\<lparr>child_size := sz\<rparr>) # rest', s2)))"

definition node_split ::
  "('s, 'p, ('p, 'k :: linorder, 'v) node) swap_ops \<Rightarrow> ('p, 'v) betree \<Rightarrow> 'p \<Rightarrow> 's
   \<Rightarrow> err + (('k, 'p) pivot_map \<times> 's)" where
  "node_split ops bet p s =
     bindE (this_node ops p s) (\<lambda>n.
     bindE (assertE (node_size n \<ge> max_node_size bet)
       (Assertion ''pivots.size() + elements.size() >= bet.max_node_size'')) (\<lambda>_.
     let per_leaf = (10 * max_node_size bet mod 2 ^ 64) div 24 in
     bindE (assertE (per_leaf \<noteq> 0) Division_By_Zero) (\<lambda>_.
     bindE (to_int (node_size n div per_leaf)) (\<lambda>num_new_leaves.
     bindE (assertE (num_new_leaves \<noteq> 0) Division_By_Zero) (\<lambda>_.
     bindE (to_int ((node_size n + num_new_leaves - 1) div num_new_leaves)) (\<lambda>things_per_new_leaf.
     bindE (split_nodes num_new_leaves ops n things_per_new_leaf 0 (0, 0, 0) [] s)
       (\<lambda>((pivot_idx, elt_idx, things_moved), result, s1).
     bindE (split_sizes ops result s1) (\<lambda>(result', s2).
     bindE (assertE (pivot_idx = length (pivots n)) (Assertion ''pivot_idx == pivots.end()'')) (\<lambda>_.
     bindE (assertE (elt_idx = length (elements n)) (Assertion ''elt_idx == elements.end()'')) (\<lambda>_.
     bindE (assign ops p (\<lambda>m. m\<lparr>pivots := [], elements := []\<rparr>) s2) (\<lambda>(_, s3).
     Inr (result', s3))))))))))))"

subsection \<open>flush\<close>

text \<open>The leaf case: apply the messages, split when the leaf has grown to the limit.\<close>

definition flush_leaf ::
  "('s, 'p, ('p, 'k :: linorder, 'v :: plus) node) swap_ops \<Rightarrow> ('p, 'v) betree \<Rightarrow> 'p
   \<Rightarrow> ('k, 'v) message_map \<Rightarrow> 's \<Rightarrow> err + (('k, 'p) pivot_map \<times> 's)" where
  "flush_leaf ops bet p elts s =
     bindE (this_node ops p s) (\<lambda>n.
     bindE (apply_all (default_value bet) n elts) (\<lambda>n'.
     let s' = ss_store ops p n' s in
     if node_size n' \<ge> max_node_size bet then node_split ops bet p s' else Inr ([], s')))"

text \<open>Lowering the key of the first child.\<close>

definition lower_first_pivot ::
  "('p, 'k :: linorder, 'v) node \<Rightarrow> 'k message_key \<Rightarrow> ('p, 'k, 'v) node" where
  "lower_first_pivot n newmin =
     (let oldmin = fst (pivots n ! 0); ci = snd (pivots n ! 0) in
      if mkey_less_key newmin oldmin
      then n\<lparr>pivots := erase_key (put (pivots n) (key newmin) ci) oldmin\<rparr>
      else n)"

text \<open>Replacing the child at position \<open>i\<close> by the nodes it was split into.\<close>

definition replace_child ::
  "('s, 'p, ('p, 'k :: linorder, 'v) node) swap_ops \<Rightarrow> 'p \<Rightarrow> nat \<Rightarrow> ('k, 'p) pivot_map \<Rightarrow> 's
   \<Rightarrow> err + 's" where
  "replace_child ops p i new_children s =
     bindE (this_node ops p s) (\<lambda>n.
     let c = child (snd (pivots n ! i)) in
     bindE (assign ops p (\<lambda>m. m\<lparr>pivots := erase_range (pivots m) i (Suc i)\<rparr>) s) (\<lambda>(_, s1).
     bindE (ss_depoint ops c s1) (\<lambda>s2.
     bindE (assign ops p (\<lambda>m. m\<lparr>pivots := insert_range (pivots m) new_children\<rparr>) s2) (\<lambda>(_, s3).
     Inr s3))))"

definition set_child_size :: "nat \<Rightarrow> 'p child_info \<Rightarrow> 'p child_info" where
  "set_child_size sz ci = ci\<lparr>child_size := sz\<rparr>"

text \<open>Everything goes to one dirty child.\<close>

definition flush_direct ::
  "('p \<Rightarrow> ('k, 'v) message_map \<Rightarrow> 's \<Rightarrow> err + (('k, 'p) pivot_map \<times> 's))
   \<Rightarrow> ('s, 'p, ('p, 'k :: linorder, 'v) node) swap_ops \<Rightarrow> 'p \<Rightarrow> nat \<Rightarrow> ('k, 'v) message_map \<Rightarrow> 's
   \<Rightarrow> err + 's" where
  "flush_direct flush_rec ops p first_pivot_idx elts s =
     bindE (this_node ops p s) (\<lambda>n.
     bindE (assertE (get_element_begin_it n first_pivot_idx
                     = get_element_begin_it n (Suc first_pivot_idx))
       (Assertion ''elt_start == elt_end'')) (\<lambda>_.
     let c = child (snd (pivots n ! first_pivot_idx)) in
     bindE (arrow ops True c (flush_rec c elts) s) (\<lambda>(new_children, s1).
     if new_children \<noteq> [] then replace_child ops p first_pivot_idx new_children s1
     else
       bindE (sizes ops c s1) (\<lambda>(sz, s2).
       bindE (assign ops p (\<lambda>m. m\<lparr>pivots :=
         (pivots m)[first_pivot_idx := map_prod id (set_child_size sz) (pivots m ! first_pivot_idx)]\<rparr>) s2)
         (\<lambda>(_, s3). Inr s3)))))"

text \<open>The child with the most messages in the buffer: \<open>(child_pivot, next_pivot, max_size)\<close>.\<close>

definition find_largest :: "('p, 'k :: linorder, 'v) node \<Rightarrow> nat \<times> nat \<times> nat" where
  "find_largest n =
     foldl (\<lambda>(child_pivot, next_pivot, max_size) it.
        let dist = (get_element_begin_it n (Suc it) - get_element_begin_it n it) mod 2 ^ 32 in
        if dist > max_size then (it, Suc it, dist) else (child_pivot, next_pivot, max_size))
      (0, 0, 0) [0..<length (pivots n)]"

text \<open>
  The \<open>while\<close> loop that flushes to children.  Each round takes at least one message out of the
  buffer, so the number of messages is enough fuel.
\<close>

fun flush_loop ::
  "nat \<Rightarrow> ('p \<Rightarrow> ('k, 'v) message_map \<Rightarrow> 's \<Rightarrow> err + (('k, 'p) pivot_map \<times> 's))
   \<Rightarrow> ('s, 'p, ('p, 'k :: linorder, 'v) node) swap_ops \<Rightarrow> ('p, 'v) betree \<Rightarrow> 'p \<Rightarrow> 'k option \<Rightarrow> 's
   \<Rightarrow> err + 's" where
  "flush_loop 0 flush_rec ops bet p first_pivot_idx s = Inl Out_Of_Fuel"
| "flush_loop (Suc fuel) flush_rec ops bet p first_pivot_idx s =
     bindE (this_node ops p s) (\<lambda>n.
     if node_size n \<ge> max_node_size bet then
       (let (child_pivot, next_pivot, max_size) = find_largest n;
            c = child (snd (pivots n ! child_pivot)) in
        if \<not> (max_size > min_flush_size bet \<or>
              (max_size > min_flush_size bet div 2 \<and> ss_is_in_memory ops c s))
        then Inr s
        else
          (let elt_child_it = get_element_begin_it n child_pivot;
               elt_next_it = get_element_begin_it n next_pivot;
               child_elts = subrange (elements n) elt_child_it elt_next_it in
           bindE (arrow ops True c (flush_rec c child_elts) s) (\<lambda>(new_children, s1).
           bindE (assign ops p (\<lambda>m. m\<lparr>elements :=
             erase_range (elements m) elt_child_it elt_next_it\<rparr>) s1) (\<lambda>(_, s2).
           if new_children \<noteq> [] then
             bindE (replace_child ops p child_pivot new_children s2) (\<lambda>s3.
             flush_loop fuel flush_rec ops bet p
               (if first_pivot_idx = Some (fst (pivots n ! child_pivot)) then None
                else first_pivot_idx) s3)
           else
             bindE (sizes ops c s2) (\<lambda>(sz, s3).
             case first_pivot_idx of
               None \<Rightarrow> Inl Dangling_Iterator
             | Some k \<Rightarrow>
                 bindE (assign ops p (\<lambda>m. m\<lparr>pivots :=
                   map (\<lambda>(k', ci). (k', if k' = k then set_child_size sz ci else ci)) (pivots m)\<rparr>) s3)
                   (\<lambda>(_, s4).
                 flush_loop fuel flush_rec ops bet p first_pivot_idx s4))))))
     else Inr s)"

text \<open>The buffered case: apply, flush down while there is too much, split if there still is.\<close>

definition flush_buffered ::
  "('p \<Rightarrow> ('k, 'v) message_map \<Rightarrow> 's \<Rightarrow> err + (('k, 'p) pivot_map \<times> 's))
   \<Rightarrow> ('s, 'p, ('p, 'k :: linorder, 'v :: plus) node) swap_ops \<Rightarrow> ('p, 'v) betree \<Rightarrow> 'p \<Rightarrow> 'k
   \<Rightarrow> ('k, 'v) message_map \<Rightarrow> 's \<Rightarrow> err + (('k, 'p) pivot_map \<times> 's)" where
  "flush_buffered flush_rec ops bet p first_key elts s =
     bindE (this_node ops p s) (\<lambda>n.
     bindE (apply_all (default_value bet) n elts) (\<lambda>n'.
     bindE (flush_loop (Suc (length (elements n'))) flush_rec ops bet p (Some first_key)
              (ss_store ops p n' s)) (\<lambda>s1.
     bindE (this_node ops p s1) (\<lambda>n1.
     if node_size n1 > max_node_size bet then node_split ops bet p s1 else Inr ([], s1)))))"

text \<open>A position from \<open>get_pivot\<close>, where the exception is not caught.\<close>

definition the_pivot :: "err + nat option \<Rightarrow> err + nat" where
  "the_pivot r = bindE r (\<lambda>it. case it of None \<Rightarrow> Inl Uncaught_Out_Of_Range | Some i \<Rightarrow> Inr i)"

definition flush_internal ::
  "('p \<Rightarrow> ('k, 'v) message_map \<Rightarrow> 's \<Rightarrow> err + (('k, 'p) pivot_map \<times> 's))
   \<Rightarrow> ('s, 'p, ('p, 'k :: linorder, 'v :: plus) node) swap_ops \<Rightarrow> ('p, 'v) betree \<Rightarrow> 'p
   \<Rightarrow> ('k, 'v) message_map \<Rightarrow> 's \<Rightarrow> err + (('k, 'p) pivot_map \<times> 's)" where
  "flush_internal flush_rec ops bet p elts s =
     bindE (assign ops p (\<lambda>n. lower_first_pivot n (fst (hd elts))) s) (\<lambda>(_, s1).
     bindE (this_node ops p s1) (\<lambda>n.
     bindE (the_pivot (get_pivot (pivots n) (key (fst (hd elts))))) (\<lambda>first_pivot_idx.
     bindE (the_pivot (get_pivot (pivots n) (key (fst (last elts))))) (\<lambda>last_pivot_idx.
     if first_pivot_idx = last_pivot_idx \<and>
        ss_is_dirty ops (child (snd (pivots n ! first_pivot_idx))) s1
     then bindE (flush_direct flush_rec ops p first_pivot_idx elts s1) (\<lambda>s2. Inr ([], s2))
     else flush_buffered flush_rec ops bet p (fst (pivots n ! first_pivot_idx)) elts s1))))"

fun flush ::
  "nat \<Rightarrow> ('s, 'p, ('p, 'k :: linorder, 'v :: plus) node) swap_ops \<Rightarrow> ('p, 'v) betree \<Rightarrow> 'p
   \<Rightarrow> ('k, 'v) message_map \<Rightarrow> 's \<Rightarrow> err + (('k, 'p) pivot_map \<times> 's)" where
  "flush 0 ops bet p elts s = Inl Out_Of_Fuel"
| "flush (Suc depth) ops bet p elts s =
     (if elts = [] then Inr ([], s)
      else bindE (this_node ops p s) (\<lambda>n.
        if is_leaf n then flush_leaf ops bet p elts s
        else flush_internal (flush depth ops bet) ops bet p elts s))"

subsection \<open>query\<close>

text \<open>\<open>Inr (None, s)\<close> is the exception \<open>std::out_of_range\<close>.\<close>

fun query_updates :: "'k \<Rightarrow> 'v :: plus \<Rightarrow> ('k, 'v) message_map \<Rightarrow> err + 'v" where
  "query_updates k v [] = Inr v"
| "query_updates k v ((mkey, elt) # es) =
     (if key mkey = k then
        bindE (assertE (opcode elt = UPDATE) (Assertion ''message_iter->second.opcode == UPDATE''))
          (\<lambda>_. query_updates k (v + val elt) es)
      else Inr v)"

definition query_leaf :: "('k :: linorder, 'v) message_map \<Rightarrow> 'k \<Rightarrow> err + 'v option" where
  "query_leaf es k =
     (let it = lower_bound es (range_start k) in
      if it \<noteq> length es \<and> key (fst (es ! it)) = k then
        bindE (assertE (opcode (snd (es ! it)) = INSERT) (Assertion ''it->second.opcode == INSERT''))
          (\<lambda>_. Inr (Some (val (snd (es ! it)))))
      else Inr None)"

text \<open>\<open>get_pivot(k)->second.child->query(bet, k)\<close>\<close>

definition query_child ::
  "('p \<Rightarrow> 's \<Rightarrow> err + ('v option \<times> 's)) \<Rightarrow> ('s, 'p, ('p, 'k :: linorder, 'v) node) swap_ops
   \<Rightarrow> ('p, 'k, 'v) node \<Rightarrow> 'k \<Rightarrow> 's \<Rightarrow> err + ('v option \<times> 's)" where
  "query_child query_rec ops n k s =
     bindE (get_pivot (pivots n) k) (\<lambda>it. case it of
       None \<Rightarrow> Inr (None, s)
     | Some i \<Rightarrow> (let c = child (snd (pivots n ! i)) in arrow ops False c (query_rec c) s))"

definition query_internal ::
  "('p \<Rightarrow> 's \<Rightarrow> err + ('v option \<times> 's)) \<Rightarrow> ('s, 'p, ('p, 'k :: linorder, 'v :: plus) node) swap_ops
   \<Rightarrow> 'v \<Rightarrow> ('p, 'k, 'v) node \<Rightarrow> 'k \<Rightarrow> 's \<Rightarrow> err + ('v option \<times> 's)" where
  "query_internal query_rec ops dflt n k s =
     (let es = elements n; mi = get_element_begin es k;
          finish = (\<lambda>v i s'. bindE (query_updates k v (drop i es)) (\<lambda>w. Inr (Some w, s'))) in
      if mi = length es \<or> key_less_mkey k (fst (es ! mi)) then
        bindE (query_child query_rec ops n k s) (\<lambda>(r, s'). case r of
          None \<Rightarrow> Inr (None, s') | Some v \<Rightarrow> finish v mi s')
      else if opcode (snd (es ! mi)) = UPDATE then
        bindE (query_child query_rec ops n k s) (\<lambda>(r, s'). case r of
          None \<Rightarrow> finish dflt mi s' | Some t \<Rightarrow> finish t mi s')
      else if opcode (snd (es ! mi)) = DELETE then
        (if Suc mi = length es \<or> key_less_mkey k (fst (es ! Suc mi)) then Inr (None, s)
         else finish dflt (Suc mi) s)
      else if opcode (snd (es ! mi)) = INSERT then finish (val (snd (es ! mi))) (Suc mi) s
      else finish dflt mi s)"

fun query ::
  "nat \<Rightarrow> ('s, 'p, ('p, 'k :: linorder, 'v :: plus) node) swap_ops \<Rightarrow> 'v \<Rightarrow> 'k \<Rightarrow> 'p \<Rightarrow> 's
   \<Rightarrow> err + ('v option \<times> 's)" where
  "query 0 ops dflt k p s = Inl Out_Of_Fuel"
| "query (Suc depth) ops dflt k p s =
     bindE (this_node ops p s) (\<lambda>n.
     if is_leaf n then bindE (query_leaf (elements n) k) (\<lambda>r. Inr (r, s))
     else query_internal (query depth ops dflt k) ops dflt n k s)"

subsection \<open>get_next_message\<close>

fun first_message ::
  "('p \<Rightarrow> 's \<Rightarrow> err + ('a option \<times> 's)) \<Rightarrow> ('s, 'p, 'n) swap_ops
   \<Rightarrow> ('k, 'p) pivot_map \<Rightarrow> 's \<Rightarrow> err + ('a option \<times> 's)" where
  "first_message next_rec ops [] s = Inr (None, s)"
| "first_message next_rec ops ((k, ci) # rest) s =
     bindE (arrow ops False (child ci) (next_rec (child ci)) s) (\<lambda>(r, s1). case r of
       Some m \<Rightarrow> Inr (Some m, s1)
     | None \<Rightarrow> first_message next_rec ops rest s1)"

definition get_next_message_from_children ::
  "('k message_key option \<Rightarrow> 'p \<Rightarrow> 's \<Rightarrow> err + (('k message_key \<times> 'v message) option \<times> 's))
   \<Rightarrow> ('s, 'p, ('p, 'k :: linorder, 'v) node) swap_ops \<Rightarrow> ('p, 'k, 'v) node
   \<Rightarrow> 'k message_key option \<Rightarrow> 's \<Rightarrow> err + (('k message_key \<times> 'v message) option \<times> 's)" where
  "get_next_message_from_children next_rec ops n mkey s =
     (let mkey' = (case mkey of
            Some mk \<Rightarrow> if mkey_less_key mk (fst (pivots n ! 0)) then None else Some mk
          | None \<Rightarrow> None) in
      bindE (case mkey' of
               Some mk \<Rightarrow> get_pivot (pivots n) (key mk)
             | None \<Rightarrow> Inr (Some 0)) (\<lambda>it. case it of
        None \<Rightarrow> Inr (None, s)
      | Some i \<Rightarrow> first_message (next_rec mkey') ops (drop i (pivots n)) s))"

fun get_next_message ::
  "nat \<Rightarrow> ('s, 'p, ('p, 'k :: linorder, 'v) node) swap_ops \<Rightarrow> 'k message_key option \<Rightarrow> 'p \<Rightarrow> 's
   \<Rightarrow> err + (('k message_key \<times> 'v message) option \<times> 's)" where
  "get_next_message 0 ops mkey p s = Inl Out_Of_Fuel"
| "get_next_message (Suc depth) ops mkey p s =
     bindE (this_node ops p s) (\<lambda>n.
     let es = elements n;
         it = (case mkey of Some mk \<Rightarrow> upper_bound es mk | None \<Rightarrow> 0) in
     if is_leaf n then
       (if it = length es then Inr (None, s) else Inr (Some (es ! it), s))
     else if it = length es then
       get_next_message_from_children (get_next_message depth ops) ops n mkey s
     else
       bindE (get_next_message_from_children (get_next_message depth ops) ops n mkey s)
         (\<lambda>(r, s'). case r of
           Some kids \<Rightarrow> Inr (Some (if fst kids < fst (es ! it) then kids else es ! it), s')
         | None \<Rightarrow> Inr (Some (es ! it), s')))"

end
