(* ===== verification/Betree_Tree.thy ===== *)
theory Betree_Tree
  imports Betree_Node
begin

text \<open>
  The tree behind the nodes.  \<open>ptree\<close> is the tree the pointers of a swap space spell out,
  each node with the pointer it lives at; \<open>rep\<close> says that a view of the swap space holds it.
  \<open>den\<close> is the finite map a tree stands for: the messages on the path to a key, oldest
  (deepest) first, applied in order.  \<open>tree_ok\<close> is the invariant of the tree: ordered tables,
  every subtree within the key range its pivot gives it, messages of a node newer than the
  ones below it, and a leaf that holds at most one value per key.
\<close>

datatype ('p, 'k, 'v) ptree =
  PTree (ptr: 'p) (kids: "('k \<times> ('p, 'k, 'v) ptree \<times> nat) list") (buf: "('k, 'v) message_map")

lemma ptree_induct [case_names PTree]:
  assumes "\<And>p F es. (\<And>k t n. (k, t, n) \<in> set F \<Longrightarrow> P t) \<Longrightarrow> P (PTree p F es)"
  shows "P t"
proof (induction t)
  case (PTree p F es)
  show ?case
  proof (rule assms)
    fix k t n assume "(k, t, n) \<in> set F"
    then show "P t" by (rule PTree) (auto simp: snds.simps fsts.simps)
  qed
qed

type_synonym ('p, 'k, 'v) forest = "('k \<times> ('p, 'k, 'v) ptree \<times> nat) list"

definition pivot_table :: "('p, 'k, 'v) forest \<Rightarrow> ('k, 'p) pivot_map" where
  "pivot_table F = map (\<lambda>(k, t, n). (k, \<lparr>child = ptr t, child_size = n\<rparr>)) F"

definition node_of :: "('p, 'k, 'v) ptree \<Rightarrow> ('p, 'k, 'v) node" where
  "node_of t = \<lparr>pivots = pivot_table (kids t), elements = buf t\<rparr>"

fun ptrs :: "('p, 'k, 'v) ptree \<Rightarrow> 'p list" where
  "ptrs (PTree p F es) = p # concat (map (\<lambda>(k, t, n). ptrs t) F)"

abbreviation fptrs :: "('p, 'k, 'v) forest \<Rightarrow> 'p list" where
  "fptrs F \<equiv> concat (map (\<lambda>(k, t, n). ptrs t) F)"

fun rep :: "('p \<Rightarrow> ('p, 'k, 'v) node option) \<Rightarrow> ('p, 'k, 'v) ptree \<Rightarrow> bool" where
  "rep v (PTree p F es) \<longleftrightarrow>
     v p = Some \<lparr>pivots = pivot_table F, elements = es\<rparr> \<and> list_all (\<lambda>(k, t, n). rep v t) F"

abbreviation frep :: "('p \<Rightarrow> ('p, 'k, 'v) node option) \<Rightarrow> ('p, 'k, 'v) forest \<Rightarrow> bool" where
  "frep v F \<equiv> list_all (\<lambda>(k, t, n). rep v t) F"

text \<open>Message keys and pivot keys of a tree.\<close>

fun mkeys :: "('p, 'k, 'v) ptree \<Rightarrow> 'k message_key set" where
  "mkeys (PTree p F es) = fst ` set es \<union> \<Union> (set (map (\<lambda>(k, t, n). mkeys t) F))"

fun pkeys :: "('p, 'k, 'v) ptree \<Rightarrow> 'k set" where
  "pkeys (PTree p F es) = fst ` set F \<union> \<Union> (set (map (\<lambda>(k, t, n). pkeys t) F))"

definition tkeys :: "('p, 'k, 'v) ptree \<Rightarrow> 'k set" where
  "tkeys t = key ` mkeys t \<union> pkeys t"

abbreviation fmkeys :: "('p, 'k, 'v) forest \<Rightarrow> 'k message_key set" where
  "fmkeys F \<equiv> \<Union> (set (map (\<lambda>(k, t, n). mkeys t) F))"

abbreviation ftkeys :: "('p, 'k, 'v) forest \<Rightarrow> 'k set" where
  "ftkeys F \<equiv> \<Union> (set (map (\<lambda>(k, t, n). tkeys t) F))"

subsection \<open>The map a tree stands for\<close>

text \<open>The entry of the last key that is not above \<open>x\<close>.\<close>

definition route :: "('k :: linorder \<times> 'a option) list \<Rightarrow> 'k \<Rightarrow> 'a option" where
  "route F x = (case rev (filter (\<lambda>p. fst p \<le> x) F) of [] \<Rightarrow> None | p # _ \<Rightarrow> snd p)"

fun den :: "'v :: plus \<Rightarrow> ('p, 'k :: linorder, 'v) ptree \<Rightarrow> 'k \<Rightarrow> 'v option" where
  "den d (PTree p F es) x =
     apply_msgs d (route (map (\<lambda>(k, t, n). (k, den d t x)) F) x) (msgs_for es x)"

definition fden :: "'v :: plus \<Rightarrow> ('p, 'k :: linorder, 'v) forest \<Rightarrow> 'k \<Rightarrow> 'v option" where
  "fden d F x = route (map (\<lambda>(k, t, n). (k, den d t x)) F) x"

lemma den_PTree: "den d (PTree p F es) x = apply_msgs d (fden d F x) (msgs_for es x)"
  by (simp add: fden_def)

declare den.simps [simp del]

lemma route_Nil [simp]: "route [] x = None"
  by (simp add: route_def)

lemma route_append:
  "route (F @ G) x = (if \<exists>p\<in>set G. fst p \<le> x then route G x else route F x)"
proof (cases "\<exists>p\<in>set G. fst p \<le> x")
  case True
  then have "filter (\<lambda>p. fst p \<le> x) G \<noteq> []" by (auto simp: filter_empty_conv)
  with True show ?thesis
    by (auto simp: route_def rev_swap split: list.splits)
next
  case False
  then have "filter (\<lambda>p. fst p \<le> x) G = []" by (auto simp: filter_empty_conv)
  with False show ?thesis by (simp add: route_def)
qed

lemma fden_Nil [simp]: "fden d [] x = None"
  by (simp add: fden_def)

lemma fden_append:
  "fden d (F @ G) x = (if \<exists>c\<in>set G. fst c \<le> x then fden d G x else fden d F x)"
  by (auto simp: fden_def route_append)

lemma fden_single: "fden d [(k, t, n)] x = (if k \<le> x then den d t x else None)"
  by (simp add: fden_def route_def)

lemma fden_Cons:
  "fden d ((k, t, n) # F) x =
     (if \<exists>c\<in>set F. fst c \<le> x then fden d F x else if k \<le> x then den d t x else None)"
  using fden_append[of d "[(k, t, n)]" F x] by (simp add: fden_single)

lemma fden_not_routed: "(\<And>c. c \<in> set F \<Longrightarrow> x < fst c) \<Longrightarrow> fden d F x = None"
proof -
  assume "\<And>c. c \<in> set F \<Longrightarrow> x < fst c"
  then have "filter (\<lambda>p. fst p \<le> x) (map (\<lambda>(k, t, n). (k, den d t x)) F) = []"
    by (fastforce simp: filter_empty_conv)
  then show ?thesis by (simp add: fden_def route_def)
qed

lemma fden_all_None: "(\<And>k t n. (k, t, n) \<in> set F \<Longrightarrow> den d t x = None) \<Longrightarrow> fden d F x = None"
proof (induction F)
  case (Cons c F)
  obtain k t n where c: "c = (k, t, n)" by (cases c)
  then have "den d t x = None" by (intro Cons.prems[of k t n]) simp
  moreover have "fden d F x = None" using Cons.IH Cons.prems by (meson list.set_intros(2))
  ultimately show ?case by (simp add: c fden_Cons)
qed simp

text \<open>A key that is in no message of the tree has no value.\<close>

lemma den_outside: "x \<notin> key ` mkeys t \<Longrightarrow> den d t x = None"
proof (induction t rule: ptree_induct)
  case (PTree p F es)
  have "fden d F x = None"
    using PTree by (intro fden_all_None) fastforce
  moreover have "msgs_for es x = []"
    using PTree.prems by (force simp: msgs_for_eq_Nil_iff)
  ultimately show ?case by (simp add: den_PTree)
qed

lemma fden_outside: "x \<notin> key ` fmkeys F \<Longrightarrow> fden d F x = None"
proof (induction F)
  case (Cons c F)
  obtain k t n where c: "c = (k, t, n)" by (cases c)
  from Cons.prems c have "x \<notin> key ` mkeys t" and "x \<notin> key ` fmkeys F" by auto
  with Cons.IH c show ?case by (simp add: fden_Cons den_outside)
qed simp

subsection \<open>The invariant\<close>

definition older :: "'k message_key set \<Rightarrow> ('k message_key \<times> 'a) list \<Rightarrow> bool" where
  "older M es \<longleftrightarrow>
     (\<forall>mk\<in>M. \<forall>e\<in>set es. key (fst e) = key mk \<longrightarrow> timestamp mk < timestamp (fst e))"

definition msg_shape :: "'v message list \<Rightarrow> bool" where
  "msg_shape ms \<longleftrightarrow> (\<forall>m\<in>set ms. known_opcode m) \<and> (\<forall>m\<in>set (tl ms). opcode m = UPDATE) \<and>
     (ms \<noteq> [] \<and> opcode (hd ms) = INSERT \<longrightarrow> tl ms = [])"

definition leaf_shape :: "'v message list \<Rightarrow> bool" where
  "leaf_shape ms \<longleftrightarrow> ms = [] \<or> (\<exists>v. ms = [Message INSERT v])"

definition buf_ok :: "bool \<Rightarrow> ('k :: linorder, 'v) message_map \<Rightarrow> bool" where
  "buf_ok leaf es \<longleftrightarrow> map_ok es \<and>
     (\<forall>k. if leaf then leaf_shape (msgs_for es k) else msg_shape (msgs_for es k))"

definition before :: "'k :: linorder \<times> ('p, 'k, 'v) ptree \<times> nat \<Rightarrow> 'k \<times> ('p, 'k, 'v) ptree \<times> nat \<Rightarrow> bool"
  where "before c c' \<longleftrightarrow> fst c < fst c' \<and> (\<forall>x\<in>tkeys (fst (snd c)). x < fst c')"

definition in_range :: "'k :: linorder \<times> ('p, 'k, 'v) ptree \<times> nat \<Rightarrow> bool" where
  "in_range c \<longleftrightarrow> (\<forall>x\<in>tkeys (fst (snd c)). fst c \<le> x) \<and> snd (snd c) < 2 ^ 64"

text \<open>
  \<open>tree_ok d t\<close>: the invariant, for a tree all of whose leaves are at depth \<open>d\<close>.
\<close>

fun tree_ok :: "nat \<Rightarrow> ('p, 'k :: linorder, 'v) ptree \<Rightarrow> bool" where
  "tree_ok 0 (PTree p F es) \<longleftrightarrow> F = [] \<and> buf_ok True es"
| "tree_ok (Suc d) (PTree p F es) \<longleftrightarrow> F \<noteq> [] \<and> buf_ok False es \<and>
     sorted_wrt before F \<and> (\<forall>c\<in>set F. in_range c \<and> tree_ok d (fst (snd c))) \<and>
     (\<forall>e\<in>set es. fst (hd F) \<le> key (fst e)) \<and> older (fmkeys F) es"

definition forest_ok :: "nat \<Rightarrow> ('p, 'k :: linorder, 'v) forest \<Rightarrow> bool" where
  "forest_ok d F \<longleftrightarrow> sorted_wrt before F \<and> (\<forall>c\<in>set F. in_range c \<and> tree_ok d (fst (snd c)))"

lemma tree_ok_Suc:
  "tree_ok (Suc d) (PTree p F es) \<longleftrightarrow> F \<noteq> [] \<and> buf_ok False es \<and> forest_ok d F \<and>
     (\<forall>e\<in>set es. fst (hd F) \<le> key (fst e)) \<and> older (fmkeys F) es"
  by (auto simp: forest_ok_def)

declare tree_ok.simps(2) [simp del]

lemma forest_ok_append:
  "forest_ok d (F @ G) \<longleftrightarrow> forest_ok d F \<and> forest_ok d G \<and> (\<forall>c\<in>set F. \<forall>c'\<in>set G. before c c')"
  by (auto simp: forest_ok_def sorted_wrt_append)

lemma forest_ok_Nil [simp]: "forest_ok d []"
  by (simp add: forest_ok_def)

lemma forest_ok_Cons:
  "forest_ok d (c # F) \<longleftrightarrow>
     in_range c \<and> tree_ok d (fst (snd c)) \<and> (\<forall>c'\<in>set F. before c c') \<and> forest_ok d F"
  by (auto simp: forest_ok_def)

lemma map_ok_forest: "sorted_wrt before F \<Longrightarrow> map_ok F"
  by (induction F) (auto simp: map_ok_Cons before_def)

lemma pivot_table_simps [simp]:
  "pivot_table [] = []"
  "pivot_table ((k, t, n) # F) = (k, \<lparr>child = ptr t, child_size = n\<rparr>) # pivot_table F"
  "pivot_table (F @ G) = pivot_table F @ pivot_table G"
  by (simp_all add: pivot_table_def)

lemma fst_pivot_table [simp]: "map fst (pivot_table F) = map fst F"
  by (induction F) auto

lemma length_pivot_table [simp]: "length (pivot_table F) = length F"
  by (simp add: pivot_table_def)

lemma pivot_table_eq_Nil_iff [simp]: "pivot_table F = [] \<longleftrightarrow> F = []"
  by (simp add: pivot_table_def)

lemma map_ok_pivot_table [simp]: "map_ok (pivot_table F) \<longleftrightarrow> map_ok F"
  by (simp add: map_ok_def)

lemma fst_set_pivot_table: "fst ` set (pivot_table F) = fst ` set F"
  by (metis fst_pivot_table list.set_map)

lemma forest_map_ok: "forest_ok d F \<Longrightarrow> map_ok F"
  by (simp add: forest_ok_def map_ok_forest)

lemma older_mono: "older M es \<Longrightarrow> M' \<subseteq> M \<Longrightarrow> set es' \<subseteq> set es \<Longrightarrow> older M' es'"
  by (auto simp: older_def)

lemma older_Un: "older (M \<union> N) es \<longleftrightarrow> older M es \<and> older N es"
  by (auto simp: older_def)

lemma older_append: "older M (a @ b) \<longleftrightarrow> older M a \<and> older M b"
  by (auto simp: older_def)

lemma older_disjoint: "(\<And>mk e. mk \<in> M \<Longrightarrow> e \<in> set es \<Longrightarrow> key (fst e) \<noteq> key mk) \<Longrightarrow> older M es"
  by (auto simp: older_def)

subsection \<open>Holding a tree\<close>

lemma rep_iff: "rep v t \<longleftrightarrow> v (ptr t) = Some (node_of t) \<and> frep v (kids t)"
  by (cases t) (simp add: node_of_def)

lemma ptr_in_ptrs [simp]: "ptr t \<in> set (ptrs t)"
  by (cases t) simp

lemma rep_cong: "rep v t \<Longrightarrow> (\<And>q. q \<in> set (ptrs t) \<Longrightarrow> v' q = v q) \<Longrightarrow> rep v' t"
proof (induction t rule: ptree_induct)
  case (PTree p F es)
  have "rep v' t" if "(k, t, n) \<in> set F" for k t n
  proof (rule PTree.IH[OF that])
    show "rep v t" using PTree.prems(1) that by (auto simp: list_all_iff)
    show "v' q = v q" if "q \<in> set (ptrs t)" for q
      using PTree.prems(2)[of q] that \<open>(k, t, n) \<in> set F\<close> by auto
  qed
  moreover have "v' p = v p" by (rule PTree.prems(2)) simp
  ultimately show ?case using PTree.prems(1) by (auto simp: list_all_iff)
qed

lemma frep_cong: "frep v F \<Longrightarrow> (\<And>q. q \<in> set (fptrs F) \<Longrightarrow> v' q = v q) \<Longrightarrow> frep v' F"
  by (induction F) (auto intro: rep_cong)

lemma rep_live: "rep v t \<Longrightarrow> q \<in> set (ptrs t) \<Longrightarrow> v q \<noteq> None"
proof (induction t rule: ptree_induct)
  case (PTree p F es)
  show ?case
  proof (cases "q = p")
    case True
    with PTree.prems show ?thesis by simp
  next
    case False
    with PTree.prems obtain k t n where "(k, t, n) \<in> set F" and "q \<in> set (ptrs t)" and "rep v t"
      by (auto simp: list_all_iff)
    then show ?thesis using PTree.IH by blast
  qed
qed

lemma frep_live: "frep v F \<Longrightarrow> q \<in> set (fptrs F) \<Longrightarrow> v q \<noteq> None"
  by (induction F) (auto dest: rep_live)

lemma node_refs_node_of: "set (node_refs (node_of t)) \<subseteq> set (ptrs t)"
  by (cases t) (force simp: node_refs_def node_of_def pivot_table_def)

lemma node_refs_table: "node_refs \<lparr>pivots = pivot_table F, elements = es\<rparr> = map (\<lambda>c. ptr (fst (snd c))) F"
  by (simp add: node_refs_def pivot_table_def split_def)

lemma rep_refs: "rep v t \<Longrightarrow> q \<in> set (ptrs t) \<Longrightarrow> v q = Some m \<Longrightarrow> set (node_refs m) \<subseteq> set (ptrs t)"
proof (induction t)
  case (PTree p F es)
  show ?case
  proof (cases "q = p")
    case True
    then have "m = node_of (PTree p F es)" using PTree.prems by (simp add: node_of_def)
    then show ?thesis using node_refs_node_of[of "PTree p F es"] by simp
  next
    case False
    with PTree.prems obtain k t n where t: "(k, t, n) \<in> set F" "q \<in> set (ptrs t)" "rep v t"
      by (auto simp: list_all_iff)
    then have "set (node_refs m) \<subseteq> set (ptrs t)"
      using PTree.IH[of "(k, t, n)" "(t, n)" t] t PTree.prems(3) by simp
    then show ?thesis using t(1) by force
  qed
qed

lemma frep_refs: "frep v F \<Longrightarrow> q \<in> set (fptrs F) \<Longrightarrow> v q = Some m \<Longrightarrow> set (node_refs m) \<subseteq> set (fptrs F)"
proof (induction F)
  case (Cons c F)
  obtain k t n where c: "c = (k, t, n)" by (cases c)
  consider "q \<in> set (ptrs t)" | "q \<in> set (fptrs F)" using Cons.prems(2) by (auto simp: c)
  then show ?case
    by cases (use Cons rep_refs[of v t q m] in \<open>auto simp: c\<close>)
qed simp

end
