(* ===== verification/Betree_Apply.thy ===== *)
theory Betree_Apply
  imports Betree_Tree
begin

text \<open>
  Facts about one node: applying messages to its buffer does to the values what the messages
  mean, searching its tables finds the child and the messages of a key, and lowering the
  first pivot changes no value.
\<close>

subsection \<open>Applying messages\<close>

lemma erase_messages_filter:
  "map_ok es \<Longrightarrow> erase_messages es k = filter (\<lambda>e. key (fst e) \<noteq> k) es"
  unfolding erase_messages_def
  by (subst erase_bounds) (auto simp: range_iffs intro!: filter_cong)

lemma msgs_for_erase_messages:
  "map_ok es \<Longrightarrow> msgs_for (erase_messages es k) x = (if x = k then [] else msgs_for es x)"
  using msgs_for_filter_key[of "\<lambda>y. y \<noteq> k" es x] by (simp add: erase_messages_filter)

text \<open>Storing a message that is newer than every message of its key puts it last.\<close>

lemma msgs_for_put_newest:
  assumes ok: "map_ok es" and new: "older (fst ` set es) [(mk, m)]"
  shows "msgs_for (put es mk m) x = msgs_for es x @ (if x = key mk then [m] else [])"
proof -
  let ?lo = "filter (\<lambda>e. fst e < mk) es" and ?hi = "filter (\<lambda>e. mk < fst e) es"
  have hi: "msgs_for ?hi (key mk) = []"
    using new by (auto simp: msgs_for_def filter_empty_conv older_def less_message_key_def)
  have "mk \<notin> fst ` set es" using new by (auto simp: older_def)
  then have "?lo @ ?hi = es" by (rule map_ok_split_absent[OF ok])
  then have "msgs_for es x = msgs_for ?lo x @ msgs_for ?hi x"
    by (metis msgs_for_append)
  moreover have "msgs_for (put es mk m) x
      = msgs_for ?lo x @ (if x = key mk then m # msgs_for ?hi x else msgs_for ?hi x)"
    using ok by (simp add: put_filter msgs_for_Cons)
  ultimately show ?thesis using hi by simp
qed

text \<open>The last message of a key is the one just before the end of its range.\<close>

lemma last_message:
  fixes es :: "('k :: linorder, 'v) message_map" and k :: 'k
  assumes ok: "map_ok es"
  defines "i \<equiv> upper_bound es (range_end k)"
  shows "msgs_for es k \<noteq> [] \<Longrightarrow> i \<noteq> 0 \<and> i - 1 < length es \<and> key (fst (es ! (i - 1))) = k \<and>
           snd (es ! (i - 1)) = last (msgs_for es k)"
    and "msgs_for es k = [] \<Longrightarrow> i \<noteq> 0 \<Longrightarrow> key (fst (es ! (i - 1))) \<noteq> k"
    and "msgs_for es k = [] \<Longrightarrow> i = 0 \<Longrightarrow> es \<noteq> [] \<Longrightarrow> key (fst (es ! 0)) \<noteq> k"
proof -
  let ?le = "filter (\<lambda>e. fst e \<le> range_end k) es"
  have take: "take i es = ?le" using ok by (simp add: i_def take_upper_bound)
  have i_le: "i \<le> length es" by (simp add: i_def)
  have len: "length ?le = i" using take i_le by (metis length_take min.absorb2)
  have msgs: "msgs_for es k = msgs_for ?le k"
    using msgs_for_filter_key[of "\<lambda>y. y \<le> k" es k] by (simp add: le_range_end_iff)
  have last: "es ! (i - 1) = last ?le" if "i \<noteq> 0"
    using that take len i_le by (metis diff_less last_conv_nth length_0_conv less_one nth_take zero_less_iff_neq_zero)
  have le_ok: "map_ok ?le" using ok by (rule map_ok_filter)
  { assume "msgs_for es k \<noteq> []"
    then have ne: "?le \<noteq> []" using msgs by auto
    then have i0: "i \<noteq> 0" using len by auto
    from ne obtain b e where be: "?le = b @ [e]" by (metis append_butlast_last_id)
    have "e \<in> set ?le" by (simp add: be)
    then have "key (fst e) \<le> k" by (simp add: le_range_end_iff)
    moreover from \<open>msgs_for es k \<noteq> []\<close> obtain f where f: "f \<in> set ?le" "key (fst f) = k"
      using msgs by (force simp: msgs_for_eq_Nil_iff)
    have "key (fst f) \<le> key (fst e)"
    proof (cases "f \<in> set b")
      case True
      then show ?thesis using le_ok be by (force simp: map_ok_append intro: key_mono less_imp_le)
    next
      case False
      then show ?thesis using be f(1) by simp
    qed
    ultimately have "key (fst e) = k" using f(2) by simp
    then show "i \<noteq> 0 \<and> i - 1 < length es \<and> key (fst (es ! (i - 1))) = k \<and>
           snd (es ! (i - 1)) = last (msgs_for es k)"
      using i0 i_le last[OF i0] be msgs by (simp add: msgs_for_Cons) }
  { assume "msgs_for es k = []" "i \<noteq> 0"
    then show "key (fst (es ! (i - 1))) \<noteq> k"
      using i_le by (force simp: msgs_for_eq_Nil_iff) }
  { assume "msgs_for es k = []" "i = 0" "es \<noteq> []"
    then show "key (fst (es ! 0)) \<noteq> k"
      by (force simp: msgs_for_eq_Nil_iff) }
qed

text \<open>What \<open>apply\<close> does to the messages of the key it is applied to.\<close>

definition apply_list :: "bool \<Rightarrow> 'v :: plus \<Rightarrow> 'v message list \<Rightarrow> 'v message \<Rightarrow> 'v message list" where
  "apply_list leaf d ms m =
     (if opcode m = INSERT then [m]
      else if opcode m = DELETE then (if leaf then [] else [m])
      else if ms = [] then (if leaf then [Message INSERT (d + val m)] else [m])
      else if opcode (last ms) = INSERT then [Message INSERT (val (last ms) + val m)]
      else ms @ [m])"

lemma apply_list_value:
  assumes "known_opcode m" and "leaf \<Longrightarrow> b = None"
  shows "apply_msgs d b (apply_list leaf d ms m) = apply_msg d (apply_msgs d b ms) m"
proof (cases "ms = []")
  case True
  with assms show ?thesis by (cases m) (auto simp: apply_list_def known_opcode_def apply_msg_def)
next
  case False
  then obtain ms' l where "ms = ms' @ [l]" by (metis append_butlast_last_id)
  with assms show ?thesis by (cases m) (auto simp: apply_list_def known_opcode_def apply_msg_def)
qed

lemma apply_list_shape:
  assumes "if leaf then leaf_shape ms else msg_shape ms" and "known_opcode m"
  shows "if leaf then leaf_shape (apply_list leaf d ms m) else msg_shape (apply_list leaf d ms m)"
  using assms
  by (cases m; cases ms; cases "tl ms" rule: rev_cases)
    (auto simp: apply_list_def leaf_shape_def msg_shape_def known_opcode_def split: if_splits)

lemma put_erased:
  assumes "map_ok es"
  shows "map_ok (put (erase_messages es (key mk)) mk m)"
    and "fst ` set (put (erase_messages es (key mk)) mk m) \<subseteq> insert mk (fst ` set es)"
    and "msgs_for (put (erase_messages es (key mk)) mk m) x = (if x = key mk then [m] else msgs_for es x)"
proof -
  let ?er = "erase_messages es (key mk)"
  have er: "map_ok ?er" "fst ` set ?er \<subseteq> fst ` set es" "older (fst ` set ?er) [(mk, m)]"
    using assms by (auto simp: erase_messages_filter map_ok_filter older_def)
  show "map_ok (put ?er mk m)" and "fst ` set (put ?er mk m) \<subseteq> insert mk (fst ` set es)"
    using er by (auto simp: map_ok_put set_put)
  show "msgs_for (put ?er mk m) x = (if x = key mk then [m] else msgs_for es x)"
    using assms by (simp add: msgs_for_put_newest[OF er(1,3)] msgs_for_erase_messages)
qed

lemma put_newest:
  assumes "map_ok es" and "older (fst ` set es) [(mk, m)]"
  shows "map_ok (put es mk m)" and "fst ` set (put es mk m) \<subseteq> insert mk (fst ` set es)"
    and "msgs_for (put es mk m) x = (if x = key mk then msgs_for es x @ [m] else msgs_for es x)"
  using assms by (auto simp: map_ok_put set_put msgs_for_put_newest)

lemma node_apply_msgs:
  fixes n :: "('p, 'k :: linorder, 'v :: plus) node"
  assumes ok: "map_ok (elements n)" and known: "known_opcode m"
    and new: "older (fst ` set (elements n)) [(mk, m)]"
  obtains es' where "node_apply d n mk m = Inr (n\<lparr>elements := es'\<rparr>)" and "map_ok es'"
    and "fst ` set es' \<subseteq> insert mk (fst ` set (elements n))"
    and "\<And>x. msgs_for es' x =
      (if x = key mk then apply_list (is_leaf n) d (msgs_for (elements n) x) m
       else msgs_for (elements n) x)"
proof -
  let ?es = "elements n" and ?k = "key mk"
  note res = put_erased[OF ok, of mk] put_newest[OF ok new]
  have del: "map_ok (erase_messages ?es ?k)"
    "fst ` set (erase_messages ?es ?k) \<subseteq> insert mk (fst ` set ?es)"
    using ok by (auto simp: erase_messages_filter map_ok_filter)
  from known show ?thesis
  proof (cases rule: known_opcodeE)
    case (1 v)
    then show ?thesis
      by (intro that[of "put (erase_messages ?es ?k) mk m"])
        (simp_all add: node_apply_def apply_insert_def apply_list_def res)
  next
    case (2 v)
    then show ?thesis
      by (intro that[of "if is_leaf n then erase_messages ?es ?k
                         else put (erase_messages ?es ?k) mk m"])
        (use del in \<open>simp_all add: node_apply_def apply_list_def res msgs_for_erase_messages[OF ok]\<close>)
  next
    case (3 v)
    let ?ms = "msgs_for ?es ?k" and ?i = "upper_bound ?es (range_end ?k)"
    let ?j = "if ?i \<noteq> 0 then ?i - 1 else ?i"
    have found: "(?j = length ?es \<or> key (fst (?es ! ?j)) \<noteq> ?k) \<longleftrightarrow> ?ms = []"
    proof (cases "?ms = []")
      case True
      then show ?thesis using last_message(2,3)[OF ok True] by auto
    next
      case False
      then show ?thesis using last_message(1)[OF ok False] by auto
    qed
    have last: "snd (?es ! ?j) = last ?ms" if "?ms \<noteq> []"
      using last_message(1)[OF ok that] by simp
    let ?new = "if ?ms = [] then
          (if is_leaf n then put (erase_messages ?es ?k) mk (Message INSERT (d + v)) else put ?es mk m)
        else if opcode (last ?ms) = INSERT
          then put (erase_messages ?es ?k) mk (Message INSERT (val (last ?ms) + v))
        else put ?es mk m"
    have "node_apply d n mk m = Inr (n\<lparr>elements := ?new\<rparr>)"
      using found last 3 by (auto simp: node_apply_def Let_def apply_insert_def)
    then show ?thesis
      by (rule that[of ?new]) (simp_all add: apply_list_def res[unfolded 3] 3)
  qed
qed

text \<open>
  Applying a run of new messages: the buffer stays well formed, and for every key the new
  buffer means the old buffer followed by the messages.
\<close>

lemma older_step:
  assumes "older M ((mk, m) # es)" and "map_ok ((mk, m) # es)" and "M' \<subseteq> insert mk M"
  shows "older M' es"
proof -
  have "timestamp mk < timestamp (fst e)" if "e \<in> set es" and "key (fst e) = key mk" for e
  proof -
    have "mk < fst e" using assms(2) that(1) by (auto simp: map_ok_Cons)
    then show ?thesis using that(2) by (simp add: less_message_key_def)
  qed
  then have "older (insert mk M) es" using assms(1) by (auto simp: older_def)
  then show ?thesis using assms(3) by (rule older_mono) simp
qed

lemma apply_all_msgs:
  fixes n :: "('p, 'k :: linorder, 'v :: plus) node"
  assumes "buf_ok (is_leaf n) (elements n)" and "map_ok elts"
    and "\<forall>e\<in>set elts. known_opcode (snd e)" and "older (fst ` set (elements n)) elts"
  shows "\<exists>es'. apply_all d n elts = Inr (n\<lparr>elements := es'\<rparr>) \<and> buf_ok (is_leaf n) es' \<and>
    fst ` set es' \<subseteq> fst ` set (elements n) \<union> fst ` set elts \<and>
    (\<forall>b x. (is_leaf n \<longrightarrow> b = None) \<longrightarrow>
       apply_msgs d b (msgs_for es' x) = apply_msgs d (apply_msgs d b (msgs_for (elements n) x)) (msgs_for elts x))"
  using assms
proof (induction elts arbitrary: n)
  case Nil
  then show ?case by (intro exI[of _ "elements n"]) simp
next
  case (Cons e elts)
  obtain mk m where e: "e = (mk, m)" by (cases e)
  have ok: "map_ok (elements n)" using Cons.prems(1) by (simp add: buf_ok_def)
  have known: "known_opcode m" using Cons.prems(3) e by simp
  have new: "older (fst ` set (elements n)) [(mk, m)]"
    using Cons.prems(4) e by (auto simp: older_def)
  obtain es1 where es1: "node_apply d n mk m = Inr (n\<lparr>elements := es1\<rparr>)" "map_ok es1"
    "fst ` set es1 \<subseteq> insert mk (fst ` set (elements n))"
    and msgs1: "\<And>x. msgs_for es1 x = (if x = key mk
       then apply_list (is_leaf n) d (msgs_for (elements n) x) m else msgs_for (elements n) x)"
    by (rule node_apply_msgs[OF ok known new, of d]) blast
  let ?n1 = "n\<lparr>elements := es1\<rparr>"
  have leaf [simp]: "is_leaf (n\<lparr>elements := es\<rparr>) = is_leaf n" for es by (simp add: is_leaf_def)
  have buf1: "buf_ok (is_leaf ?n1) (elements ?n1)"
    using Cons.prems(1) es1(2) apply_list_shape[OF _ known, where leaf = "is_leaf n" and d = d]
    by (cases "is_leaf n") (simp_all add: buf_ok_def msgs1)
  have old1: "older (fst ` set (elements ?n1)) elts"
    using Cons.prems(2,4) es1(3) e by (auto intro: older_step)
  have "map_ok elts" and "\<forall>e\<in>set elts. known_opcode (snd e)"
    using Cons.prems(2,3) by (auto simp: map_ok_Cons)
  from Cons.IH[OF buf1 this old1] obtain es' where es':
    "apply_all d ?n1 elts = Inr (n\<lparr>elements := es'\<rparr>)" "buf_ok (is_leaf n) es'"
    "fst ` set es' \<subseteq> fst ` set es1 \<union> fst ` set elts"
    and msgs': "\<And>b x. (is_leaf n \<longrightarrow> b = None) \<Longrightarrow>
       apply_msgs d b (msgs_for es' x) = apply_msgs d (apply_msgs d b (msgs_for es1 x)) (msgs_for elts x)"
    by auto
  have "apply_msgs d b (msgs_for es' x) =
      apply_msgs d (apply_msgs d b (msgs_for (elements n) x)) (msgs_for (e # elts) x)"
    if "is_leaf n \<longrightarrow> b = None" for b x
    using that apply_list_value[OF known, of "is_leaf n" b d]
    by (simp add: msgs' msgs1 msgs_for_Cons e)
  with es' es1 e show ?case by (intro exI[of _ es']) auto
qed

subsection \<open>Searching the tables of a node\<close>

lemma map_ok_hd_le: "map_ok m \<Longrightarrow> p \<in> set m \<Longrightarrow> fst (hd m) \<le> fst p"
  by (cases m) (auto simp: map_ok_Cons)

lemma get_pivot_below:
  "map_ok mp \<Longrightarrow> mp \<noteq> [] \<Longrightarrow> k < fst (hd mp) \<Longrightarrow> get_pivot mp k = Inr None"
  by (cases mp) (auto simp: get_pivot_def lower_bound_def)

lemma get_pivot_position:
  assumes ok: "map_ok (A @ c # B)" and c: "fst c \<le> k" and B: "\<And>p. p \<in> set B \<Longrightarrow> k < fst p"
  shows "get_pivot (A @ c # B) k = Inr (Some (length A))"
proof -
  have A: "filter (\<lambda>p. fst p < k) A = A"
    using ok c by (intro filter_all_True) (auto simp: map_ok_append)
  have "filter (\<lambda>p. fst p < k) B = []" by (intro filter_all_False) (metis B less_asym)
  then have lb: "lower_bound (A @ c # B) k = length A + (if fst c < k then 1 else 0)"
    using A ok by (simp add: lower_bound_filter)
  show ?thesis
  proof (cases "fst c < k")
    case True
    then show ?thesis using B lb
      by (cases B) (auto simp: get_pivot_def Let_def nth_append)
  next
    case False
    with c have "fst c = k" by simp
    then show ?thesis using lb by (simp add: get_pivot_def)
  qed
qed

lemma pivot_split:
  assumes "map_ok F" and "F \<noteq> []" and "fst (hd F) \<le> k"
  obtains A c B where "F = A @ c # B" and "fst c \<le> k" and "\<And>p. p \<in> set B \<Longrightarrow> k < fst p"
proof -
  let ?A = "filter (\<lambda>p. fst p \<le> k) F"
  have "hd F \<in> set ?A" using assms by simp
  then have "?A \<noteq> []" by fastforce
  then obtain A c where Ac: "?A = A @ [c]" by (metis append_butlast_last_id)
  have "F = A @ c # filter (\<lambda>p. k < fst p) F"
    using map_ok_split_less[OF assms(1), of k] Ac by simp
  moreover have "c \<in> set ?A" by (simp add: Ac)
  then have "fst c \<le> k" by simp
  ultimately show ?thesis by (intro that) auto
qed

lemma map_ok_split3:
  assumes "map_ok m" and "a \<le> b"
  shows "m = filter (\<lambda>p. fst p < a) m @ filter (\<lambda>p. a \<le> fst p \<and> fst p < b) m @ filter (\<lambda>p. b \<le> fst p) m"
proof -
  have "filter (\<lambda>p. a \<le> fst p \<and> b \<le> fst p) m = filter (\<lambda>p. b \<le> fst p) m"
    using assms(2) by (intro filter_cong) auto
  then have "filter (\<lambda>p. a \<le> fst p) m = filter (\<lambda>p. a \<le> fst p \<and> fst p < b) m @ filter (\<lambda>p. b \<le> fst p) m"
    using map_ok_split_le[OF map_ok_filter[OF assms(1), of "\<lambda>p. a \<le> fst p"], of b] by simp
  then show ?thesis using map_ok_split_le[OF assms(1), of a] by simp
qed

text \<open>
  The messages of a buffer that are for the child at key \<open>k\<close>, when the entries after it are
  \<open>B\<close>; their positions are what \<open>get_element_begin\<close> gives for the child and for the next.
\<close>

definition for_child :: "'k :: linorder \<Rightarrow> ('k \<times> 'a) list \<Rightarrow> 'k message_key \<times> 'b \<Rightarrow> bool" where
  "for_child k B e \<longleftrightarrow> k \<le> key (fst e) \<and> (B = [] \<or> key (fst e) < fst (hd B))"

lemma element_range_split:
  assumes ok: "map_ok es" and B: "B \<noteq> [] \<Longrightarrow> k \<le> fst (hd B)"
  obtains L H where "es = L @ filter (for_child k B) es @ H"
    and "lower_bound es (range_start k) = length L"
    and "(if B = [] then length es else lower_bound es (range_start (fst (hd B))))
         = length L + length (filter (for_child k B) es)"
    and "L @ H = filter (\<lambda>e. \<not> for_child k B e) es"
proof (cases "B = []")
  case True
  let ?L = "filter (\<lambda>e. fst e < range_start k) es"
  have split: "es = ?L @ filter (for_child k B) es"
    using map_ok_split_le[OF ok, of "range_start k"] True by (simp add: for_child_def[abs_def] range_iffs)
  have "?L @ [] = filter (\<lambda>e. \<not> for_child k B e) es"
    using True by (auto simp: for_child_def range_iffs not_le intro!: filter_cong)
  moreover have "length es = length ?L + length (filter (for_child k B) es)"
    using arg_cong[OF split, of length] by simp
  ultimately show ?thesis using split ok True by (intro that[of ?L "[]"]) (auto simp: lower_bound_filter)
next
  case False
  let ?a = "range_start k" and ?b = "range_start (fst (hd B))"
  have ab: "?a \<le> ?b" using B[OF False] by (simp add: range_iffs)
  have eq: "filter (\<lambda>e. ?a \<le> fst e \<and> fst e < ?b) es = filter (for_child k B) es"
    using False by (intro filter_cong) (auto simp: for_child_def range_iffs)
  let ?L = "filter (\<lambda>e. fst e < ?a) es" and ?H = "filter (\<lambda>e. ?b \<le> fst e) es"
  note split = map_ok_split3[OF ok ab, unfolded eq]
  have lb: "lower_bound es ?b = length ?L + length (filter (for_child k B) es)"
  proof -
    have "filter (\<lambda>e. fst e < ?b) (?L @ filter (for_child k B) es @ ?H) = ?L @ filter (for_child k B) es"
    proof -
      have "filter (\<lambda>e. fst e < ?b) ?L = ?L" and "filter (\<lambda>e. fst e < ?b) ?H = []"
        and "filter (\<lambda>e. fst e < ?b) (filter (for_child k B) es) = filter (for_child k B) es"
        by (rule filter_all_True filter_all_False, (use ab False in \<open>auto simp: for_child_def range_iffs\<close>)[1])+
      then show ?thesis by simp
    qed
    then show ?thesis using ok split by (metis length_append lower_bound_filter)
  qed
  have "?L @ ?H = filter (\<lambda>e. \<not> for_child k B e) es"
  proof -
    have "filter (\<lambda>e. \<not> for_child k B e) (?L @ filter (for_child k B) es @ ?H) = ?L @ ?H"
    proof -
      have "filter (\<lambda>e. \<not> for_child k B e) ?L = ?L" and "filter (\<lambda>e. \<not> for_child k B e) ?H = ?H"
        and "filter (\<lambda>e. \<not> for_child k B e) (filter (for_child k B) es) = []"
        by (rule filter_all_True filter_all_False, (use B False in \<open>auto simp: for_child_def range_iffs\<close>)[1])+
      then show ?thesis by simp
    qed
    then show ?thesis using split by simp
  qed
  with split lb ok False show ?thesis by (intro that[of ?L ?H]) (auto simp: lower_bound_filter)
qed

lemma element_range:
  assumes ok: "map_ok (elements n)" and piv: "pivots n = A @ c # B" and pok: "map_ok (pivots n)"
  defines "i \<equiv> get_element_begin_it n (length A)" and "j \<equiv> get_element_begin_it n (Suc (length A))"
  shows "subrange (elements n) i j = filter (for_child (fst c) B) (elements n)"
    and "erase_range (elements n) i j = filter (\<lambda>e. \<not> for_child (fst c) B e) (elements n)"
    and "j - i = length (filter (for_child (fst c) B) (elements n))"
    and "i \<le> j" and "j \<le> length (elements n)"
proof -
  have B: "B \<noteq> [] \<Longrightarrow> fst c \<le> fst (hd B)"
    using pok piv by (cases B) (auto simp: map_ok_append map_ok_Cons)
  have i: "i = lower_bound (elements n) (range_start (fst c))"
    using piv by (simp add: i_def get_element_begin_it_def get_element_begin_def)
  have j: "j = (if B = [] then length (elements n)
      else lower_bound (elements n) (range_start (fst (hd B))))"
    using piv by (cases B) (auto simp: j_def get_element_begin_it_def get_element_begin_def nth_append)
  let ?f = "filter (for_child (fst c) B) (elements n)"
  from element_range_split[OF ok B] obtain L H where
    es: "elements n = L @ ?f @ H" and "i = length L" and "j = length L + length ?f"
    and LH: "L @ H = filter (\<lambda>e. \<not> for_child (fst c) B e) (elements n)"
    unfolding i j by metis
  moreover have "length L + length ?f \<le> length (elements n)" using arg_cong[OF es, of length] by simp
  moreover have "subrange (L @ ?f @ H) (length L) (length L + length ?f) = ?f"
    and "erase_range (L @ ?f @ H) (length L) (length L + length ?f) = L @ H"
    by (simp_all add: subrange_def erase_range_def)
  ultimately show "subrange (elements n) i j = ?f"
    and "erase_range (elements n) i j = filter (\<lambda>e. \<not> for_child (fst c) B e) (elements n)"
    and "j - i = length ?f" and "i \<le> j" and "j \<le> length (elements n)"
    by simp_all
qed

text \<open>Lowering the first pivot.\<close>

lemma lower_first_pivot_pivots:
  assumes "pivots n = (k, ci) # rest" and "map_ok (pivots n)"
  shows "lower_first_pivot n mk = n\<lparr>pivots := (min (key mk) k, ci) # rest\<rparr>"
proof (cases "key mk < k")
  case True
  have "put ((k, ci) # rest) (key mk) ci = (key mk, ci) # (k, ci) # rest"
    using assms True by (intro put_at_front) (auto simp: map_ok_Cons)
  moreover have "map_ok ((key mk, ci) # (k, ci) # rest)"
    using assms True by (auto simp: map_ok_Cons)
  ultimately show ?thesis
    using assms(1) True erase_key_middle[of "[(key mk, ci)]" k ci rest]
    by (simp add: lower_first_pivot_def mkey_less_key_def min_def)
next
  case False
  then have "min (key mk) k = k" by (simp add: min_def)
  then show ?thesis using assms(1) False by (simp add: lower_first_pivot_def mkey_less_key_def)
qed

text \<open>The child with the most messages.\<close>

definition child_dist :: "('p, 'k :: linorder, 'v) node \<Rightarrow> nat \<Rightarrow> nat" where
  "child_dist n it = (get_element_begin_it n (Suc it) - get_element_begin_it n it) mod 2 ^ 32"

lemma find_largest_prefix:
  assumes "foldl (\<lambda>(cp, np, ms) it. let dist = child_dist n it in
            if dist > ms then (it, Suc it, dist) else (cp, np, ms)) (0, 0, 0) [0..<l] = (cp, np, ms)"
  shows "(\<forall>it<l. child_dist n it \<le> ms) \<and> (ms > 0 \<longrightarrow> cp < l \<and> np = Suc cp \<and> ms = child_dist n cp)"
  using assms
proof (induction l arbitrary: cp np ms)
  case (Suc l)
  obtain cp' np' ms' where st: "foldl (\<lambda>(cp, np, ms) it. let dist = child_dist n it in
      if dist > ms then (it, Suc it, dist) else (cp, np, ms)) (0, 0, 0) [0..<l] = (cp', np', ms')"
    by (rule prod_cases3)
  from Suc.IH[OF st] Suc.prems st show ?case
    by (auto simp: Let_def less_Suc_eq split: if_splits)
qed simp

lemma find_largest:
  assumes "find_largest n = (cp, np, ms)"
  shows "\<And>it. it < length (pivots n) \<Longrightarrow> child_dist n it \<le> ms"
    and "ms > 0 \<Longrightarrow> cp < length (pivots n) \<and> np = Suc cp \<and> ms = child_dist n cp"
  using find_largest_prefix[of n "length (pivots n)" cp np ms] assms
  by (simp_all add: find_largest_def child_dist_def)

end
