(* ===== verification/Betree_Cut.thy ===== *)
theory Betree_Cut
  imports Betree_Apply
begin

text \<open>
  Cutting the two tables of a node into runs, as \<open>node::split\<close> does: the pieces mean together
  what the node meant, each of them is a well-formed tree, and every child and every message is
  in exactly one of them.
\<close>

subsection \<open>What a node may hold\<close>

text \<open>
  What the swap space has to be able to store: ordered tables, child sizes that fit their
  64-bit field and opcodes that fit theirs.
\<close>

definition node_fit :: "('p, 'k :: linorder, 'v) node \<Rightarrow> bool" where
  "node_fit n \<longleftrightarrow> map_ok (pivots n) \<and> map_ok (elements n) \<and>
     (\<forall>c\<in>set (pivots n). child_size (snd c) < 2 ^ 64) \<and>
     (\<forall>e\<in>set (elements n). known_opcode (snd e))"

text \<open>
  In a tree that is only ever given single messages, a child that is dirty in memory has no
  message waiting for it in the buffer of its parent.
\<close>

fun clean_ok :: "('p \<Rightarrow> bool) \<Rightarrow> ('p, 'k :: linorder, 'v) ptree \<Rightarrow> bool" where
  "clean_ok D (PTree p F es) \<longleftrightarrow>
     (\<forall>A c B. F = A @ c # B \<longrightarrow> D (ptr (fst (snd c))) \<longrightarrow> filter (for_child (fst c) B) es = []) \<and>
     (\<forall>c\<in>set F. clean_ok D (fst (snd c)))"

definition fclean :: "('p \<Rightarrow> bool) \<Rightarrow> ('p, 'k :: linorder, 'v) forest \<Rightarrow> bool" where
  "fclean D F \<longleftrightarrow> (\<forall>c\<in>set F. clean_ok D (fst (snd c)))"

lemma known_in_buffer: "buf_ok leaf es \<Longrightarrow> e \<in> set es \<Longrightarrow> known_opcode (snd e)"
proof -
  assume ok: "buf_ok leaf es" and e: "e \<in> set es"
  let ?ms = "msgs_for es (key (fst e))"
  have "snd e \<in> set ?ms" using e by (auto simp: msgs_for_def)
  moreover have "leaf_shape ?ms \<or> msg_shape ?ms" using ok by (auto simp: buf_ok_def split: if_splits)
  ultimately show ?thesis by (auto simp: leaf_shape_def msg_shape_def known_opcode_def)
qed

lemma tree_ok_buf: "tree_ok d (PTree p F es) \<Longrightarrow> buf_ok (F = []) es"
  by (cases d) (auto simp: tree_ok_Suc)

lemma tree_ok_forest: "tree_ok d (PTree p F es) \<Longrightarrow> forest_ok (d - 1) F"
  by (cases d) (auto simp: tree_ok_Suc)

lemma node_fit_node_of: "tree_ok d t \<Longrightarrow> node_fit (node_of t)"
proof (cases t)
  case (PTree p F es)
  assume "tree_ok d t"
  then have buf: "buf_ok (F = []) es" and F: "forest_ok (d - 1) F"
    using PTree tree_ok_buf[of d p F es] tree_ok_forest[of d p F es] by simp_all
  have "\<forall>c\<in>set (pivot_table F). child_size (snd c) < 2 ^ 64"
    using F by (auto simp: pivot_table_def forest_ok_def in_range_def)
  moreover have "map_ok es" using buf by (simp add: buf_ok_def)
  ultimately show ?thesis
    using PTree forest_map_ok[OF F] known_in_buffer[OF buf] by (simp add: node_fit_def node_of_def)
qed

lemma node_fit_prefix:
  assumes "node_fit n" and "pivots n = pivots m @ ps" and "elements n = elements m @ es"
  shows "node_fit m"
  using assms by (auto simp: node_fit_def map_ok_append)

lemma tkeys_PTree: "tkeys (PTree p F es) = key ` fst ` set es \<union> fst ` set F \<union> ftkeys F"
  by (force simp: tkeys_def)

lemma clean_okD:
  "clean_ok D (PTree p F es) \<Longrightarrow> F = A @ c # B \<Longrightarrow> D (ptr (fst (snd c))) \<Longrightarrow>
   filter (for_child (fst c) B) es = []"
  unfolding clean_ok.simps by blast

lemma clean_ok_mono:
  assumes "clean_ok D t" and "\<And>q. q \<in> set (ptrs t) \<Longrightarrow> D' q \<Longrightarrow> D q"
  shows "clean_ok D' t"
  using assms
proof (induction t rule: ptree_induct)
  case (PTree p F es)
  have kid: "clean_ok D' (fst (snd c))" if "c \<in> set F" for c
  proof -
    obtain k t n where c: "c = (k, t, n)" by (cases c)
    have "set (ptrs t) \<subseteq> set (ptrs (PTree p F es))" using that c by auto
    then have "D q" if "q \<in> set (ptrs t)" and "D' q" for q
      using that PTree.prems(2)[of q] by blast
    moreover have "clean_ok D t" using PTree.prems(1) that c by auto
    ultimately show ?thesis using PTree.IH[of k t n] that c by simp
  qed
  have "filter (for_child (fst c) B) es = []" if "F = A @ c # B" and "D' (ptr (fst (snd c)))" for A c B
  proof -
    have "ptr (fst (snd c)) \<in> set (ptrs (PTree p F es))"
      using that(1) by (cases c) auto
    then show ?thesis using clean_okD[OF PTree.prems(1) that(1)] PTree.prems(2) that(2) by blast
  qed
  with kid show ?case by simp
qed

lemma ptrs_in_fptrs: "c \<in> set F \<Longrightarrow> set (ptrs (fst (snd c))) \<subseteq> set (fptrs F)"
  by (cases c) auto

lemma fclean_mono:
  assumes "fclean D F" and "\<And>q. q \<in> set (fptrs F) \<Longrightarrow> D' q \<Longrightarrow> D q"
  shows "fclean D' F"
  unfolding fclean_def
proof
  fix c assume c: "c \<in> set F"
  show "clean_ok D' (fst (snd c))"
  proof (rule clean_ok_mono)
    show "clean_ok D (fst (snd c))" using assms(1) c by (simp add: fclean_def)
    show "D q" if "q \<in> set (ptrs (fst (snd c)))" and "D' q" for q
      using that assms(2)[of q] ptrs_in_fptrs[OF c] by blast
  qed
qed

lemma fclean_append [simp]: "fclean D (F @ G) \<longleftrightarrow> fclean D F \<and> fclean D G"
  by (auto simp: fclean_def)

lemma fclean_Cons [simp]: "fclean D (c # G) \<longleftrightarrow> clean_ok D (fst (snd c)) \<and> fclean D G"
  by (auto simp: fclean_def)

lemma fclean_Nil [simp]: "fclean D []"
  by (simp add: fclean_def)

subsection \<open>Cutting the tables of a node\<close>

definition key_sep :: "('k :: linorder, 'v) message_map \<Rightarrow> ('k, 'v) message_map \<Rightarrow> bool" where
  "key_sep x y \<longleftrightarrow> (\<forall>e\<in>set x. \<forall>e'\<in>set y. key (fst e) < key (fst e'))"

text \<open>
  \<open>a, x\<close> are the children and messages before the cut, \<open>b, y\<close> those after it: no message
  before the cut belongs to a child after it, and the other way round.
\<close>

definition sep_cut ::
  "('k :: linorder \<times> 'c) list \<Rightarrow> ('k, 'v) message_map \<Rightarrow> ('k \<times> 'c) list \<Rightarrow> ('k, 'v) message_map \<Rightarrow> bool" where
  "sep_cut a x b y \<longleftrightarrow> key_sep x y \<and> (\<forall>e\<in>set x. \<forall>c\<in>set b. key (fst e) < fst c) \<and>
     (b = [] \<longrightarrow> a = [] \<or> y = []) \<and> (\<forall>e\<in>set y. b \<noteq> [] \<longrightarrow> fst (hd b) \<le> key (fst e))"

lemma msgs_for_sep:
  assumes "key_sep x y" and "key_sep (x @ y) z"
  shows "msgs_for y k = [] \<or> msgs_for y k = msgs_for (x @ y @ z) k"
proof (cases "msgs_for y k = []")
  case False
  then obtain e where e: "e \<in> set y" "key (fst e) = k" by (auto simp: msgs_for_eq_Nil_iff)
  have "key (fst e') < k" if "e' \<in> set x" for e' using assms(1) e that by (auto simp: key_sep_def)
  then have "msgs_for x k = []" by (blast intro: msgs_for_NilI dest: less_imp_neq)
  moreover have "k < key (fst e')" if "e' \<in> set z" for e' using assms(2) e that by (auto simp: key_sep_def)
  then have "msgs_for z k = []" by (blast intro: msgs_for_NilI dest: less_imp_neq[THEN not_sym])
  ultimately show ?thesis by simp
qed simp

lemma buf_ok_sep:
  fixes x y z :: "('a :: linorder, 'b) message_map"
  assumes "buf_ok leaf (x @ y @ z)" and "key_sep x y" and "key_sep (x @ y) z"
  shows "buf_ok leaf y"
proof -
  have shape: "if leaf then leaf_shape (msgs_for y k) else msg_shape (msgs_for y k)" for k
  proof -
    have "if leaf then leaf_shape (msgs_for (x @ y @ z) k) else msg_shape (msgs_for (x @ y @ z) k)"
      using assms(1) unfolding buf_ok_def by blast
    moreover have "leaf_shape ([] :: 'b message list)" and "msg_shape ([] :: 'b message list)"
      by (simp_all add: leaf_shape_def msg_shape_def)
    ultimately show ?thesis using msgs_for_sep[OF assms(2,3), of k] by metis
  qed
  moreover have "map_ok y" using assms(1) by (simp add: buf_ok_def map_ok_append)
  ultimately show ?thesis by (simp add: buf_ok_def)
qed

text \<open>
  One chunk of a node: the children \<open>b\<close> with their messages \<open>y\<close>, or some messages \<open>y\<close> of a
  leaf, between two cuts.  \<open>chunk_key\<close> is the key the new node gets.
\<close>

definition chunk_key :: "('k \<times> 'c) list \<Rightarrow> ('k, 'v) message_map \<Rightarrow> 'k" where
  "chunk_key b y = (if b \<noteq> [] then fst (hd b) else key (fst (hd y)))"

definition node_chunk ::
  "nat \<Rightarrow> 'p \<Rightarrow> ('p, 'k :: linorder, 'v) forest \<Rightarrow> ('p, 'k, 'v) forest \<Rightarrow> ('p, 'k, 'v) forest
   \<Rightarrow> ('k, 'v) message_map \<Rightarrow> ('k, 'v) message_map \<Rightarrow> ('k, 'v) message_map \<Rightarrow> bool" where
  "node_chunk d p a b c x y z \<longleftrightarrow> tree_ok d (PTree p (a @ b @ c) (x @ y @ z)) \<and>
     sep_cut a x (b @ c) (y @ z) \<and> sep_cut (a @ b) (x @ y) c z \<and>
     (b \<noteq> [] \<or> (a @ b @ c = [] \<and> y \<noteq> []))"

lemma node_chunk_parts:
  assumes "node_chunk d p a b c x y z"
  shows chunk_whole: "tree_ok d (PTree p (a @ b @ c) (x @ y @ z))"
    and chunk_left: "sep_cut a x (b @ c) (y @ z)" and chunk_right: "sep_cut (a @ b) (x @ y) c z"
    and chunk_some: "b \<noteq> [] \<or> (a @ b @ c = [] \<and> y \<noteq> [])"
  using assms by (auto simp: node_chunk_def)

lemma chunk_forest:
  assumes ch: "node_chunk d p a b c x y z"
  shows "forest_ok (d - 1) (a @ b @ c)"
  using chunk_whole[OF ch] by (rule tree_ok_forest)

lemma chunk_tree:
  assumes ch: "node_chunk d p a b c x y z"
  shows "tree_ok d (PTree q b y)"
proof (cases d)
  case 0
  then show ?thesis using chunk_whole[OF ch] buf_ok_sep[of True x y z] chunk_left[OF ch] chunk_right[OF ch]
    by (auto simp: sep_cut_def key_sep_def)
next
  case (Suc d')
  then have b: "b \<noteq> []" using chunk_some[OF ch] chunk_whole[OF ch] by (auto simp: tree_ok_Suc)
  have "buf_ok False y"
    using chunk_whole[OF ch] Suc buf_ok_sep[of False x y z] chunk_left[OF ch] chunk_right[OF ch]
    by (auto simp: tree_ok_Suc sep_cut_def key_sep_def)
  moreover have "\<forall>e\<in>set y. fst (hd b) \<le> key (fst e)" using chunk_left[OF ch] b by (auto simp: sep_cut_def)
  moreover have "older (fmkeys b) y"
    using chunk_whole[OF ch] Suc by (auto simp: tree_ok_Suc older_def)
  ultimately show ?thesis using chunk_forest[OF ch] b Suc
    by (simp add: tree_ok_Suc forest_ok_append)
qed

lemma y_sorted:
  assumes ch: "node_chunk d p a b c x y z"
  shows "map_ok y"
  using tree_ok_buf[OF chunk_tree[OF ch]] by (simp add: buf_ok_def)

text \<open>Every key of the chunk is at or above its own key, and below everything to the right.\<close>

lemma chunk_ge:
  assumes ch: "node_chunk d p a b c x y z"
    and as: "u \<in> tkeys (PTree q b y)"
  shows "chunk_key b y \<le> u"
proof (cases "b = []")
  case True
  then obtain e where e: "e \<in> set y" "u = key (fst e)" using as by (auto simp: tkeys_PTree)
  then show ?thesis using True map_ok_hd_le[OF y_sorted[OF ch] e(1)] by (simp add: chunk_key_def key_mono)
next
  case False
  then obtain c0 b' where b: "b = c0 # b'" by (cases b) auto
  have c0: "in_range c0" "\<forall>c'\<in>set b'. before c0 c'" and ok: "forest_ok (d - 1) b"
    using chunk_forest[OF ch] b by (auto simp: forest_ok_append forest_ok_Cons)
  have hd: "fst c0 \<le> fst c'" if "c' \<in> set b" for c'
    using map_ok_hd_le[OF forest_map_ok[OF ok] that] b by simp
  consider (msg) e where "e \<in> set y" "u = key (fst e)" | (piv) c' where "c' \<in> set b" "u = fst c'"
    | (sub) c' where "c' \<in> set b" "u \<in> tkeys (fst (snd c'))"
    using as by (fastforce simp: tkeys_PTree)
  then show ?thesis
  proof cases
    case msg
    then show ?thesis using chunk_left[OF ch] b by (auto simp: chunk_key_def sep_cut_def)
  next
    case piv
    then show ?thesis using hd b by (simp add: chunk_key_def)
  next
    case sub
    then have "fst c' \<le> u" using ok by (auto simp: forest_ok_def in_range_def)
    then show ?thesis using hd[OF sub(1)] b by (simp add: chunk_key_def)
  qed
qed

lemma chunk_key_in:
  assumes ch: "node_chunk d p a b c x y z"
  shows "chunk_key b y \<in> tkeys (PTree q b y)"
  using chunk_some[OF ch] by (auto simp: chunk_key_def tkeys_PTree)

lemma chunk_below_pivot:
  assumes ch: "node_chunk d p a b c x y z"
    and as: "u \<in> tkeys (PTree q b y)" "c' \<in> set c"
  shows "u < fst c'"
proof -
  have bef: "before b0 c'" if "b0 \<in> set b" for b0
    using chunk_forest[OF ch] that as(2) by (auto simp: forest_ok_append)
  consider (msg) e where "e \<in> set y" "u = key (fst e)" | (piv) b0 where "b0 \<in> set b" "u = fst b0"
    | (sub) b0 where "b0 \<in> set b" "u \<in> tkeys (fst (snd b0))"
    using as by (fastforce simp: tkeys_PTree)
  then show ?thesis
  proof cases
    case msg
    then show ?thesis using chunk_right[OF ch] as(2) by (auto simp: sep_cut_def)
  qed (use bef in \<open>auto simp: before_def\<close>)
qed

lemma chunk_below_message:
  assumes ch: "node_chunk d p a b c x y z"
    and as: "u \<in> tkeys (PTree q b y)" "e \<in> set z"
  shows "u < key (fst e)"
proof (cases c)
  case Nil
  then have "b = []" and "u \<in> (key \<circ> fst) ` set y"
    using chunk_right[OF ch] as by (auto simp: sep_cut_def tkeys_PTree)
  then show ?thesis using chunk_right[OF ch] as(2) by (auto simp: sep_cut_def key_sep_def)
next
  case (Cons c0 c')
  then have "u < fst c0" using chunk_below_pivot[OF ch as(1)] by simp
  also have "fst c0 \<le> key (fst e)" using chunk_right[OF ch] as(2) Cons by (auto simp: sep_cut_def)
  finally show ?thesis .
qed

lemma chunk_keys_subset:
  assumes ch: "node_chunk d p a b c x y z"
  shows chunk_keys: "tkeys (PTree q b y) \<subseteq> tkeys (PTree p (a @ b @ c) (x @ y @ z))"
    and chunk_mkeys: "mkeys (PTree q b y) \<subseteq> mkeys (PTree p (a @ b @ c) (x @ y @ z))"
  by (auto simp: tkeys_PTree)

text \<open>What the chunk means.\<close>

lemma chunk_den:
  assumes ch: "node_chunk d p a b c x y z"
    and as: "chunk_key b y \<le> u"
  shows "den dv (PTree q b y) u = apply_msgs dv (fden dv (a @ b) u) (msgs_for (x @ y) u)"
proof -
  have "key (fst e) < chunk_key b y" if "e \<in> set x" for e
    using chunk_left[OF ch] chunk_some[OF ch] that by (auto simp: sep_cut_def key_sep_def chunk_key_def)
  then have "msgs_for x u = []" using as by (intro msgs_for_NilI) fastforce
  moreover have "fden dv (a @ b) u = fden dv b u"
  proof (cases "b = []")
    case True
    with chunk_some[OF ch] show ?thesis by simp
  next
    case False
    then have "\<exists>c\<in>set b. fst c \<le> u"
      using as by (intro bexI[of _ "hd b"]) (auto simp: chunk_key_def)
    then show ?thesis by (simp add: fden_append)
  qed
  ultimately show ?thesis by (simp add: den_PTree)
qed

lemma chunk_skip:
  assumes ch: "node_chunk d p a b c x y z"
    and as: "u < chunk_key b y"
  shows "apply_msgs dv (fden dv (a @ b) u) (msgs_for (x @ y) u) = apply_msgs dv (fden dv a u) (msgs_for x u)"
proof -
  have ge: "chunk_key b y \<le> key (fst e)" if "e \<in> set y" for e
    using chunk_ge[OF ch, of "key (fst e)" p] that by (auto simp: tkeys_PTree)
  have "msgs_for y u = []"
    using ge as by (fastforce simp: msgs_for_eq_Nil_iff)
  moreover have "\<not> (\<exists>c\<in>set b. fst c \<le> u)"
    using chunk_ge[OF ch, of _ p] as by (fastforce simp: tkeys_PTree)
  ultimately show ?thesis by (simp add: fden_append)
qed

lemma chunk_clean:
  assumes ch: "node_chunk d p a b c x y z"
    and as: "clean_ok D (PTree p (a @ b @ c) (x @ y @ z))"
  shows "clean_ok D (PTree q b y)"
proof -
  have "filter (for_child (fst c0) B) y = []"
    if b: "b = A @ c0 # B" and D: "D (ptr (fst (snd c0)))" for A c0 B
  proof -
    have "filter (for_child (fst c0) (B @ c)) (x @ y @ z) = []"
      using clean_okD[OF as, of "a @ A" c0 "B @ c"] b D by simp
    moreover have "for_child (fst c0) (B @ c) e" if "e \<in> set y" and "for_child (fst c0) B e" for e
      using that chunk_right[OF ch] by (cases c; cases B) (auto simp: for_child_def sep_cut_def)
    ultimately show ?thesis by (auto simp: filter_empty_conv)
  qed
  with as show ?thesis by simp
qed

subsection \<open>The positions of the split loops\<close>

text \<open>
  A place where the loops may stand: in an internal node, the messages before it are the
  messages for the children before it.
\<close>

definition cut_at :: "('p, 'k :: linorder, 'v) node \<Rightarrow> nat \<Rightarrow> nat \<Rightarrow> bool" where
  "cut_at n i j \<longleftrightarrow> i \<le> length (pivots n) \<and> j \<le> length (elements n) \<and>
     (pivots n \<noteq> [] \<longrightarrow> j = get_element_begin_it n i)"

lemma leaf_keys_increase:
  "buf_ok True es \<Longrightarrow> sorted_wrt (\<lambda>e e'. key (fst e) < key (fst e')) es"
proof (induction es)
  case (Cons e es)
  have shape: "leaf_shape (msgs_for (e # es) k)" for k using Cons.prems by (simp add: buf_ok_def)
  have "key (fst e) < key (fst e')" if "e' \<in> set es" for e'
  proof -
    have "fst e < fst e'" using Cons.prems that by (auto simp: buf_ok_def map_ok_Cons)
    moreover have "msgs_for es (key (fst e)) = []"
      using shape[of "key (fst e)"] by (auto simp: leaf_shape_def msgs_for_Cons)
    then have "key (fst e') \<noteq> key (fst e)" using that by (auto simp: msgs_for_def filter_empty_conv)
    ultimately show ?thesis by (auto simp: less_message_key_def)
  qed
  moreover have "leaf_shape (msgs_for es k)" for k
    using shape[of k] by (auto simp: leaf_shape_def msgs_for_Cons split: if_splits)
  then have "buf_ok True es" using Cons.prems by (auto simp: buf_ok_def map_ok_Cons)
  ultimately show ?case using Cons.IH by simp
qed simp

lemma cut_sep:
  assumes ok: "tree_ok d (PTree p F es)" and cut: "cut_at (node_of (PTree p F es)) i j"
  shows "sep_cut (take i F) (take j es) (drop i F) (drop j es)"
proof -
  have es: "map_ok es" using tree_ok_buf[OF ok] by (simp add: buf_ok_def)
  consider (leaf) "F = []" | (last) "F \<noteq> []" "i = length F" | (inner) "i < length F"
    using cut by (cases "F = []") (auto simp: cut_at_def node_of_def le_less)
  then show ?thesis
  proof cases
    case leaf
    then have "sorted_wrt (\<lambda>e e'. key (fst e) < key (fst e')) (take j es @ drop j es)"
      using tree_ok_buf[OF ok] leaf_keys_increase[of es] by simp
    then show ?thesis using leaf by (simp add: sep_cut_def key_sep_def sorted_wrt_append del: append_take_drop_id)
  next
    case last
    then have "j = length es" using cut by (simp add: cut_at_def node_of_def get_element_begin_it_def)
    then show ?thesis using last by (simp add: sep_cut_def key_sep_def)
  next
    case inner
    let ?K = "fst (F ! i)"
    have "fst (pivot_table F ! i) = ?K" using inner by (simp add: pivot_table_def split_def)
    then have j: "j = lower_bound es (range_start ?K)"
      using cut inner by (auto simp: cut_at_def node_of_def get_element_begin_it_def get_element_begin_def)
    have "map_ok F" using tree_ok_forest[OF ok] by (rule forest_map_ok)
    then have "fst (hd (drop i F)) \<le> fst c" if "c \<in> set (drop i F)" for c
      using that by (intro map_ok_hd_le map_ok_drop)
    then have K: "?K \<le> fst c" if "c \<in> set (drop i F)" for c
      using that inner by (simp add: hd_drop_conv_nth)
    have "\<forall>e\<in>set (take j es). key (fst e) < ?K" and "\<forall>e\<in>set (drop j es). ?K \<le> key (fst e)"
      using es by (auto simp: j take_lower_bound drop_lower_bound range_iffs)
    then show ?thesis using inner K by (force simp: sep_cut_def key_sep_def hd_drop_conv_nth)
  qed
qed

lemma cut_start: "tree_ok d (PTree p F es) \<Longrightarrow> cut_at (node_of (PTree p F es)) 0 0"
proof (cases F)
  case (Cons c F')
  assume ok: "tree_ok d (PTree p F es)"
  then have "map_ok es" and "\<forall>e\<in>set es. fst c \<le> key (fst e)"
    using Cons tree_ok_buf[OF ok] by (cases d; auto simp: tree_ok_Suc buf_ok_def)+
  then have "lower_bound es (range_start (fst c)) = 0"
    by (simp add: lower_bound_filter range_iffs filter_empty_conv not_less)
  then show ?thesis using Cons
    by (cases c) (simp add: cut_at_def node_of_def get_element_begin_it_def get_element_begin_def)
qed (simp add: cut_at_def node_of_def)

text \<open>What the nodes made so far are, when the loops stand at \<open>i, j\<close>.\<close>

abbreviation roots :: "('p, 'k, 'v) forest \<Rightarrow> 'p list" where
  "roots G \<equiv> map (\<lambda>c. ptr (fst (snd c))) G"

definition split_inv ::
  "nat \<Rightarrow> 'v :: plus \<Rightarrow> ('p, 'k :: linorder, 'v) ptree \<Rightarrow> nat \<Rightarrow> nat \<Rightarrow> ('p, 'k, 'v) forest \<Rightarrow> bool" where
  "split_inv d dv T i j G \<longleftrightarrow> forest_ok d G \<and>
     (\<forall>c\<in>set G. \<forall>u\<in>insert (fst c) (tkeys (fst (snd c))).
        (\<forall>c'\<in>set (drop i (kids T)). u < fst c') \<and> (\<forall>e\<in>set (drop j (buf T)). u < key (fst e))) \<and>
     (\<forall>u. fden dv G u = apply_msgs dv (fden dv (take i (kids T)) u) (msgs_for (take j (buf T)) u)) \<and>
     fmkeys G \<subseteq> mkeys T \<and> fst ` set G \<union> ftkeys G \<subseteq> tkeys T \<and>
     (\<forall>D. clean_ok D T \<longrightarrow> fclean D G) \<and>
     (distinct (fptrs (kids T)) \<and> distinct (roots G) \<and> set (roots G) \<inter> set (fptrs (kids T)) = {} \<longrightarrow> distinct (fptrs G)) \<and>
     set (fptrs G) = set (roots G) \<union> set (fptrs (take i (kids T))) \<and> (G = [] \<longrightarrow> i + j = 0) \<and>
     (\<forall>c\<in>set G. set (kids (fst (snd c))) \<subseteq> set (kids T) \<and>
        node_size (node_of (fst (snd c))) \<le> node_size (node_of T))"

lemma split_inv_start: "split_inv d dv T 0 0 []"
  by (simp add: split_inv_def)

lemma split_invD:
  assumes "split_inv d dv T i j G"
  shows "forest_ok d G" and "fmkeys G \<subseteq> mkeys T" and "fst ` set G \<union> ftkeys G \<subseteq> tkeys T"
    and "set (fptrs G) = set (roots G) \<union> set (fptrs (take i (kids T)))"
    and "\<forall>c\<in>set G. \<forall>u\<in>insert (fst c) (tkeys (fst (snd c))).
      (\<forall>c'\<in>set (drop i (kids T)). u < fst c') \<and> (\<forall>e\<in>set (drop j (buf T)). u < key (fst e))"
    and "\<forall>u. fden dv G u = apply_msgs dv (fden dv (take i (kids T)) u) (msgs_for (take j (buf T)) u)"
    and "\<forall>D. clean_ok D T \<longrightarrow> fclean D G"
    and "distinct (fptrs (kids T)) \<and> distinct (roots G) \<and> set (roots G) \<inter> set (fptrs (kids T)) = {}
      \<longrightarrow> distinct (fptrs G)"
    and "G = [] \<longrightarrow> i + j = 0"
    and "\<forall>c\<in>set G. set (kids (fst (snd c))) \<subseteq> set (kids T) \<and>
      node_size (node_of (fst (snd c))) \<le> node_size (node_of T)"
  using assms unfolding split_inv_def by - (elim conjE, assumption)+

lemma distinct_join:
  "distinct g \<Longrightarrow> set g = R \<union> set a \<Longrightarrow> distinct b \<Longrightarrow> set a \<inter> set b = {} \<Longrightarrow> q \<notin> R \<Longrightarrow>
   q \<notin> set a \<union> set b \<Longrightarrow> R \<inter> set b = {} \<Longrightarrow> distinct (g @ q # b)"
  by auto

lemma split_inv_step:
  assumes ok: "tree_ok d (PTree p F es)" and inv: "split_inv d dv (PTree p F es) i j G"
    and cut: "cut_at (node_of (PTree p F es)) i j" and cut': "cut_at (node_of (PTree p F es)) i' j'"
    and le: "i \<le> i'" "j \<le> j'" "i + j < i' + j'" and sz: "sz < 2 ^ 64"
  defines "b \<equiv> subrange F i i'" and "y \<equiv> subrange es j j'"
  shows "split_inv d dv (PTree p F es) i' j' (G @ [(chunk_key b y, PTree q b y, sz)])"
proof -
  let ?a = "take i F" and ?c = "drop i' F" and ?x = "take j es" and ?z = "drop j' es"
  let ?t = "PTree q b y" and ?k = "chunk_key b y"
  have F: "?a @ b = take i' F" "b @ ?c = drop i F" and es: "?x @ y = take j' es" "y @ ?z = drop j es"
    using le by (simp_all add: b_def y_def take_subrange subrange_drop)
  have whole: "?a @ b @ ?c = F" "?x @ y @ ?z = es" by (simp_all add: F es)
  have "b \<noteq> [] \<or> (F = [] \<and> y \<noteq> [])"
  proof (cases "F = []")
    case True
    then show ?thesis using cut cut' le by (auto simp: y_def subrange_eq_Nil_iff cut_at_def node_of_def)
  next
    case False
    then have "i < i'" using cut cut' le by (cases "i = i'") (auto simp: cut_at_def node_of_def)
    then show ?thesis using cut' by (auto simp: b_def subrange_eq_Nil_iff cut_at_def node_of_def)
  qed
  then have ch: "node_chunk d p ?a b ?c ?x y ?z"
    using ok cut_sep[OF ok cut] cut_sep[OF ok cut'] by (simp add: node_chunk_def whole F es)
  note keys = chunk_keys[OF ch, unfolded whole] and mkeys = chunk_mkeys[OF ch, unfolded whole]
  have in_keys: "?k \<in> tkeys ?t" by (rule chunk_key_in[OF ch])
  have drops: "set ?c \<subseteq> set (drop i F)" "set ?z \<subseteq> set (drop j es)"
    using F(2) es(2) by (metis set_append sup_ge2)+
  note G = split_invD(1-4)[OF inv, unfolded ptree.sel] and G_below = split_invD(5)[OF inv, unfolded ptree.sel]
    and G_den = split_invD(6)[OF inv, unfolded ptree.sel] and G_clean = split_invD(7)[OF inv]
    and G_dist = split_invD(8)[OF inv, unfolded ptree.sel]
  have k_at: "(\<exists>c'\<in>set (drop i F). ?k = fst c') \<or> (\<exists>e\<in>set (drop j es). ?k = key (fst e))"
  proof (cases "b = []")
    case True
    then have "hd y \<in> set (y @ ?z)" using chunk_some[OF ch] by simp
    then show ?thesis using True es(2) by (auto simp: chunk_key_def)
  next
    case False
    then have "hd b \<in> set (b @ ?c)" by simp
    then show ?thesis using False F(2) by (auto simp: chunk_key_def)
  qed
  have before_new: "before c (?k, ?t, sz)" if "c \<in> set G" for c
    using bspec[OF G_below that] k_at unfolding before_def by fastforce
  have new_range: "in_range (?k, ?t, sz)"
    using chunk_ge[OF ch, of _ q] sz by (auto simp: in_range_def)
  have den: "fden dv (G @ [(?k, ?t, sz)]) u = apply_msgs dv (fden dv (take i' F) u) (msgs_for (take j' es) u)" for u
  proof (cases "?k \<le> u")
    case True
    then show ?thesis using chunk_den[OF ch True, of dv q, unfolded F es]
      by (simp add: fden_append fden_single)
  next
    case False
    then show ?thesis using chunk_skip[OF ch, of u dv, unfolded F es] G_den
      by (simp add: fden_append)
  qed
  have below: "(\<forall>c'\<in>set ?c. u < fst c') \<and> (\<forall>e\<in>set ?z. u < key (fst e))"
    if "c \<in> set (G @ [(?k, ?t, sz)])" "u \<in> insert (fst c) (tkeys (fst (snd c)))" for c u
  proof (cases "c \<in> set G")
    case True
    then show ?thesis using bspec[OF bspec[OF G_below True] that(2)] drops by blast
  next
    case False
    then have "u \<in> tkeys ?t" using that in_keys by auto
    then show ?thesis using chunk_below_pivot[OF ch] chunk_below_message[OF ch] by blast
  qed
  have dist: "distinct (fptrs (G @ [(?k, ?t, sz)]))"
    if "distinct (fptrs F)" "distinct (roots (G @ [(?k, ?t, sz)]))"
      "set (roots (G @ [(?k, ?t, sz)])) \<inter> set (fptrs F) = {}"
  proof -
    define PA PB PC where P: "PA = fptrs ?a" "PB = fptrs b" "PC = fptrs ?c"
    have eq: "fptrs F = PA @ PB @ PC" using arg_cong[OF whole(1), of fptrs] by (simp add: P)
    then have "distinct PB" and "set PA \<inter> set PB = {}" using that(1) by auto
    moreover have "distinct (fptrs G)" using that by (intro mp[OF G_dist]) auto
    moreover have "set (fptrs G) = set (roots G) \<union> set PA" using G(4) by (simp add: P)
    moreover have "distinct (roots G)" "q \<notin> set (roots G)" "q \<notin> set (PA @ PB @ PC)"
      "set (roots G) \<inter> set (PA @ PB @ PC) = {}"
      using that(2,3) unfolding eq by auto
    moreover have "fptrs (G @ [(?k, ?t, sz)]) = fptrs G @ q # PB" by (simp add: P)
    ultimately show ?thesis using distinct_join[of "fptrs G" "set (roots G)" PA PB q] by auto
  qed
  let ?G = "G @ [(?k, ?t, sz)]"
  have 1: "forest_ok d ?G"
    using G(1) before_new new_range chunk_tree[OF ch, of q] by (simp add: forest_ok_append forest_ok_Cons)
  have 2: "\<forall>c\<in>set ?G. \<forall>u\<in>insert (fst c) (tkeys (fst (snd c))).
      (\<forall>c'\<in>set ?c. u < fst c') \<and> (\<forall>e\<in>set ?z. u < key (fst e))"
    using below by blast
  have 3: "\<forall>u. fden dv ?G u = apply_msgs dv (fden dv (take i' F) u) (msgs_for (take j' es) u)"
    using den by blast
  have 4: "fmkeys ?G \<subseteq> mkeys (PTree p F es)" using G(2) mkeys by (simp del: mkeys.simps)
  have 5: "fst ` set ?G \<union> ftkeys ?G \<subseteq> tkeys (PTree p F es)"
    using G(3) keys in_keys by (simp del: mkeys.simps) blast
  have 6: "\<forall>D. clean_ok D (PTree p F es) \<longrightarrow> fclean D ?G"
    using G_clean chunk_clean[OF ch, unfolded whole] by (simp del: clean_ok.simps)
  have 7: "distinct (fptrs F) \<and> distinct (roots ?G) \<and> set (roots ?G) \<inter> set (fptrs F) = {}
      \<longrightarrow> distinct (fptrs ?G)"
    using dist by blast
  have 8: "set (fptrs ?G) = set (roots ?G) \<union> set (fptrs (take i' F))"
    using G(4) by (simp add: F(1)[symmetric] Un_assoc Un_left_commute)
  have 9: "?G = [] \<longrightarrow> i' + j' = 0" by simp
  have 10: "\<forall>c\<in>set ?G. set (kids (fst (snd c))) \<subseteq> set F \<and>
      node_size (node_of (fst (snd c))) \<le> node_size (node_of (PTree p F es))"
    using split_invD(10)[OF inv, unfolded ptree.sel] set_subrange_subset[of F i i']
      length_subrange[of F i i'] length_subrange[of es j j']
    by (auto simp: node_size_def node_of_def b_def y_def)
  show ?thesis
    unfolding split_inv_def ptree.sel by (intro conjI 1 2 3 4 5 6 7 8 9 10)
qed

end
