(* ===== verification/Betree_Split.thy ===== *)
theory Betree_Split
  imports Betree_Cut
begin

text \<open>
  \<open>node::split\<close> in the swap space: the loops end, fail only when the swap space does, and turn
  the node into a run of new nodes that mean together what it meant.

  \<open>node_store\<close> is the swap space as the tree sees it: the contract of the swap space for
  objects that are nodes, with every well-formed node storable.
\<close>

subsection \<open>A new node while it is being filled\<close>

definition chunk_node :: "('p, 'k, 'v) ptree \<Rightarrow> nat \<Rightarrow> nat \<Rightarrow> nat \<Rightarrow> nat \<Rightarrow> ('p, 'k, 'v) node" where
  "chunk_node T i0 i j0 j =
     \<lparr>pivots = pivot_table (subrange (kids T) i0 i), elements = subrange (buf T) j0 j\<rparr>"

lemma pivot_table_subrange: "pivot_table (subrange F i j) = subrange (pivot_table F) i j"
  by (simp add: pivot_table_def subrange_def take_map drop_map)

lemma nth_pivot_table:
  "i < length F \<Longrightarrow> pivot_table F ! i = (fst (F ! i), \<lparr>child = ptr (fst (snd (F ! i))), child_size = snd (snd (F ! i))\<rparr>)"
  by (simp add: pivot_table_def split_def)

lemma node_fit_chunk: "tree_ok d T \<Longrightarrow> node_fit (chunk_node T i0 i j0 j)"
  using node_fit_node_of[of d T] set_subrange_subset[of "pivot_table (kids T)" i0 i]
    set_subrange_subset[of "buf T" j0 j]
  unfolding node_fit_def node_of_def chunk_node_def pivot_table_subrange node.simps
  by (meson map_ok_subrange subsetD)

lemma node_refs_chunk: "r \<in> set (node_refs (chunk_node T i0 i j0 j)) \<Longrightarrow> r \<in> set (roots (kids T))"
proof -
  assume "r \<in> set (node_refs (chunk_node T i0 i j0 j))"
  then obtain c where "c \<in> set (subrange (kids T) i0 i)" and r: "r = ptr (fst (snd c))"
    by (auto simp: chunk_node_def node_refs_table split_def)
  then have "c \<in> set (kids T)" using set_subrange_subset[of "kids T" i0 i] by blast
  then show ?thesis using r by (auto simp: split_def)
qed

lemma subrange_snoc: "i0 \<le> i \<Longrightarrow> i < length m \<Longrightarrow> subrange m i0 (Suc i) = subrange m i0 i @ [m ! i]"
  by (metis le_SucI order_refl subrange_Suc subrange_append le_add1 plus_1_eq_Suc add.commute)

lemma chunk_node_pivot:
  assumes ok: "tree_ok d T" and i: "i0 \<le> i" "i < length (kids T)"
  shows "(chunk_node T i0 i j0 j)\<lparr>pivots := put (pivots (chunk_node T i0 i j0 j))
     (fst (pivots (node_of T) ! i)) (snd (pivots (node_of T) ! i))\<rparr> = chunk_node T i0 (Suc i) j0 j"
proof -
  let ?P = "pivot_table (kids T)"
  have "map_ok (subrange ?P i0 (Suc i))"
    using node_fit_node_of[OF ok] by (simp add: node_fit_def node_of_def map_ok_subrange)
  then have "map_ok (subrange ?P i0 i @ [?P ! i])" using i by (simp add: subrange_snoc)
  then have "put (subrange ?P i0 i) (fst (?P ! i)) (snd (?P ! i)) = subrange ?P i0 i @ [?P ! i]"
    by (subst put_at_end) (auto simp: map_ok_append)
  moreover have "[?P ! i] = pivot_table [kids T ! i]"
    using i by (simp add: nth_pivot_table) (simp add: pivot_table_def split_def)
  ultimately show ?thesis
    using i by (simp add: chunk_node_def node_of_def pivot_table_subrange subrange_snoc)
qed

lemma chunk_node_elements:
  "j0 \<le> j \<Longrightarrow> j \<le> j' \<Longrightarrow> (chunk_node T i0 i j0 j)\<lparr>elements := elements (chunk_node T i0 i j0 j) @ subrange (buf T) j j'\<rparr>
     = chunk_node T i0 i j0 j'"
  by (simp add: chunk_node_def subrange_append)

lemma cut_at_next:
  assumes ok: "tree_ok d T" and cut: "cut_at (node_of T) i j" and i: "i < length (kids T)"
  defines "j' \<equiv> get_element_begin_it (node_of T) (Suc i)"
  shows "j \<le> j'" and "cut_at (node_of T) (Suc i) j'"
proof -
  obtain A c B where F: "kids T = A @ c # B" "length A = i"
    using i by (metis id_take_nth_drop length_take less_imp_le min.absorb2)
  have n: "pivots (node_of T) = pivot_table A @ (fst c, \<lparr>child = ptr (fst (snd c)), child_size = snd (snd c)\<rparr>) # pivot_table B"
    using F by (cases c) (simp add: node_of_def)
  have fit: "map_ok (elements (node_of T))" "map_ok (pivots (node_of T))"
    using node_fit_node_of[OF ok] by (auto simp: node_fit_def)
  note range = element_range(4,5)[OF fit(1) n fit(2)]
  show "j \<le> j'" using range(1) cut n F by (simp add: cut_at_def j'_def)
  show "cut_at (node_of T) (Suc i) j'" using range(2) F n by (simp add: cut_at_def j'_def)
qed

text \<open>The key of the next new node when the loops stand at \<open>i, j\<close>.\<close>

definition at_end :: "('p, 'k, 'v) ptree \<Rightarrow> nat \<Rightarrow> nat \<Rightarrow> bool" where
  "at_end T i j \<longleftrightarrow> i = length (kids T) \<and> j = length (buf T)"

definition start_key :: "('p, 'k, 'v) ptree \<Rightarrow> nat \<Rightarrow> nat \<Rightarrow> 'k" where
  "start_key T i j = (if i \<noteq> length (kids T) then fst (kids T ! i) else key (fst (buf T ! j)))"

lemma chunk_node_empty [simp]: "chunk_node T i i j j = new_node"
  by (simp add: chunk_node_def new_node_def)

lemma chunk_node_node_of: "node_of (PTree q (subrange (kids T) i i') (subrange (buf T) j j')) = chunk_node T i i' j j'"
  by (simp add: chunk_node_def node_of_def)

lemma start_key_chunk:
  assumes "cut_at (node_of T) i j" and "cut_at (node_of T) i' j'"
    and "i \<le> i'" and "j \<le> j'" and "i + j < i' + j'"
  shows "chunk_key (subrange (kids T) i i') (subrange (buf T) j j') = start_key T i j"
proof (cases "i = length (kids T)")
  case True
  then have "i' = i" using assms by (simp add: cut_at_def node_of_def)
  then show ?thesis using True assms
    by (auto simp: chunk_key_def start_key_def hd_subrange cut_at_def node_of_def)
next
  case False
  then have i: "i < length (kids T)" using assms(1) by (simp add: cut_at_def node_of_def)
  have "i < i'"
  proof (rule ccontr)
    assume "\<not> i < i'"
    then have "i = i'" using assms(3) by simp
    then show False using assms i by (auto simp: cut_at_def node_of_def)
  qed
  then show ?thesis using i
    by (simp add: chunk_key_def start_key_def subrange_eq_Nil_iff hd_subrange)
qed

lemma start_key_above:
  assumes "split_inv d dv T i j G" and "\<not> at_end T i j" and "cut_at (node_of T) i j" and "c \<in> set G"
  shows "fst c < start_key T i j"
proof -
  have below: "(\<forall>c'\<in>set (drop i (kids T)). fst c < fst c') \<and> (\<forall>e\<in>set (drop j (buf T)). fst c < key (fst e))"
    using bspec[OF bspec[OF split_invD(5)[OF assms(1)] assms(4)] insertI1] .
  show ?thesis
  proof (cases "i = length (kids T)")
    case True
    then have "j < length (buf T)" using assms(2,3) by (auto simp: at_end_def cut_at_def node_of_def)
    then have "buf T ! j \<in> set (drop j (buf T))" by (metis Cons_nth_drop_Suc list.set_intros(1))
    then show ?thesis using below True by (simp add: start_key_def)
  next
    case False
    then have "i < length (kids T)" using assms(3) by (simp add: cut_at_def node_of_def)
    then have "kids T ! i \<in> set (drop i (kids T))" by (metis Cons_nth_drop_Suc list.set_intros(1))
    then show ?thesis using below False by (simp add: start_key_def)
  qed
qed

text \<open>The sizes the last loop writes into the result.\<close>

definition resize :: "('p, 'k, 'v) forest \<Rightarrow> ('p, 'k, 'v) forest" where
  "resize G = map (\<lambda>(k, t, n). (k, t, node_size (node_of t))) G"

lemma resize_simps [simp]:
  "resize [] = []" "resize ((k, t, n) # G) = (k, t, node_size (node_of t)) # resize G"
  "resize G = [] \<longleftrightarrow> G = []"
  by (simp_all add: resize_def)

lemma resize_same [simp]:
  "fden dv (resize G) = fden dv G" "fmkeys (resize G) = fmkeys G" "ftkeys (resize G) = ftkeys G"
  "fptrs (resize G) = fptrs G" "roots (resize G) = roots G" "fst ` set (resize G) = fst ` set G"
  "fclean D (resize G) = fclean D G" "frep v (resize G) = frep v G"
proof -
  show "fden dv (resize G) = fden dv G" by (rule ext) (simp add: fden_def resize_def split_def comp_def)
qed (simp_all add: resize_def split_def comp_def image_image fclean_def list_all_iff)

lemma forest_ok_resize:
  assumes "forest_ok d G" and "\<And>c. c \<in> set G \<Longrightarrow> node_size (node_of (fst (snd c))) < 2 ^ 64"
  shows "forest_ok d (resize G)"
  using assms
proof (induction G)
  case (Cons c G)
  obtain k t n where c: "c = (k, t, n)" by (cases c)
  have "before (k, t, m) c'" if "c' \<in> set (resize G)" for c' m
  proof -
    from that obtain k' t' n' where "c' = (k', t', node_size (node_of t'))" "(k', t', n') \<in> set G"
      by (auto simp: resize_def)
    then show ?thesis using Cons.prems(1) c by (force simp: forest_ok_Cons before_def)
  qed
  moreover have "node_size (node_of t) < 2 ^ 64" using Cons.prems(2)[of c] c by simp
  moreover have "forest_ok d (resize G)"
    by (rule Cons.IH) (use Cons.prems in \<open>auto simp: forest_ok_Cons\<close>)
  ultimately show ?case using Cons.prems(1) c by (auto simp: forest_ok_Cons in_range_def)
qed simp

text \<open>The counts of \<open>split\<close> do not overflow, and the rounds are enough for everything.\<close>

lemma split_counts:
  fixes max size :: nat
  assumes "3 \<le> max" and "10 * max < 2 ^ 64" and "max \<le> size" and "size < 2 ^ 30"
  defines "pl \<equiv> (10 * max mod 2 ^ 64) div 24"
  defines "n \<equiv> size div pl"
  defines "tpl \<equiv> (size + n - 1) div n"
  shows "pl \<noteq> 0" and "n \<noteq> 0" and "n < 2 ^ 31" and "tpl < 2 ^ 31" and "n * tpl < 2 ^ 31" and "size \<le> n * tpl"
proof -
  have pl: "pl = 10 * max div 24" using assms(2) by (simp add: pl_def)
  show pl0: "pl \<noteq> 0" using assms(1) by (simp add: pl div_eq_0_iff)
  have "pl \<le> size" using assms(3) by (simp add: pl)
  then show n0: "n \<noteq> 0" using pl0 by (simp add: n_def div_eq_0_iff)
  have n_le: "n \<le> size" by (simp add: n_def)
  then show "n < 2 ^ 31" using assms(4) by simp
  have "n * tpl \<le> size + n - 1" by (simp add: tpl_def times_div_less_eq_dividend)
  then show nt: "n * tpl < 2 ^ 31" using n_le n0 assms(4) by simp
  have "tpl \<le> n * tpl" using n0 by simp
  then show "tpl < 2 ^ 31" using nt by linarith
  have "size + n - 1 = n * tpl + (size + n - 1) mod n" by (simp add: tpl_def)
  moreover have "(size + n - 1) mod n < n" using n0 by simp
  ultimately show "size \<le> n * tpl" using n0 by linarith
qed

subsection \<open>The loops\<close>

locale node_store = swap_contract ops view pins sinv node_refs storable swap_err
  for ops :: "('s, 'p, ('p, 'k :: linorder, 'v :: plus) node) swap_ops"
    and view :: "'s \<Rightarrow> 'p \<Rightarrow> ('p, 'k, 'v) node option"
    and pins :: "'s \<Rightarrow> 'p \<Rightarrow> nat" and sinv :: "'s \<Rightarrow> bool"
    and storable :: "('p, 'k, 'v) node \<Rightarrow> bool" and swap_err :: "err \<Rightarrow> bool" +
  assumes storable_node: "node_fit n \<Longrightarrow> storable n"
begin

lemma wp_sizes:
  assumes "sinv s" and "view s q = Some n" and "\<And>r. r \<in> set (node_refs n) \<Longrightarrow> view s r \<noteq> None"
    and Q: "\<And>s'. view s' = view s \<Longrightarrow> keeps {q} s s' \<Longrightarrow> Q (node_size n, s')"
  shows "wpE (sizes ops q s) swap_err Q"
  unfolding sizes_def
proof (rule wp_arrow_read[OF assms(1-3), where R = "\<lambda>r. r = node_size n" and X = "{q}"])
  fix s1 assume s1: "sinv s1" "view s1 = view s" "pins s1 q > 0"
  have this1: "this_node ops q s1 = Inr n" using s1 assms(2) by (simp add: this_node_eq)
  have "wpE (arrow ops True q (\<lambda>s2. bindE (this_node ops q s2) (\<lambda>n2.
         Inr (length (pivots n) + length (elements n2), s2))) s1) swap_err
      (\<lambda>(r, s2). view s2 = view s \<and> keeps {q} s1 s2 \<and> r = node_size n)"
    by (rule wp_arrow_read[OF s1(1), where R = "\<lambda>r. r = node_size n" and X = "{}"])
      (use s1 assms in \<open>auto simp: this_node_eq keeps_refl node_size_def\<close>)
  then show "wpE (bindE (this_node ops q s1) (\<lambda>n1. arrow ops True q (\<lambda>s2.
       bindE (this_node ops q s2) (\<lambda>n2. Inr (length (pivots n1) + length (elements n2), s2))) s1)) swap_err
      (\<lambda>(r, s2). view s2 = view s \<and> keeps {q} s1 s2 \<and> r = node_size n)"
    by (simp add: this1)
qed (use Q in auto)

lemma wp_split_move:
  assumes "sinv s" and "view s q = Some m" and "\<And>r. r \<in> set (node_refs m) \<Longrightarrow> view s r \<noteq> None"
    and "node_fit (m\<lparr>elements := elements m @ es\<rparr>)"
    and "\<And>s'. view s' = (view s)(q \<mapsto> m\<lparr>elements := elements m @ es\<rparr>) \<Longrightarrow> keeps {q} s s' \<Longrightarrow> Q s'"
  shows "wpE (split_move ops q es s) swap_err Q"
  using assms
proof (induction es arbitrary: s m)
  case Nil
  have "Q s" by (rule Nil.prems(5)) (use Nil.prems in \<open>auto simp: keeps_refl fun_upd_idem_iff\<close>)
  then show ?case by simp
next
  case (Cons e es)
  obtain mk el where e: "e = (mk, el)" by (cases e)
  let ?f = "\<lambda>n. n\<lparr>elements := put (elements n) mk el\<rparr>"
  let ?m = "m\<lparr>elements := elements m @ [e]\<rparr>"
  have "put (elements m) mk el = elements m @ [e]"
    using Cons.prems(4) e by (subst put_at_end) (auto simp: node_fit_def map_ok_append)
  then have f: "?f m = ?m" by simp
  have fit: "node_fit ?m" by (rule node_fit_prefix[OF Cons.prems(4), of _ "[]" es]) simp_all
  have refs: "node_refs ?m = node_refs m" by (simp add: node_refs_def)
  show ?case
    unfolding e split_move.simps
  proof (rule wpE_bind_rule[where R = "\<lambda>(u, s'). view s' = (view s)(q \<mapsto> ?m) \<and> keeps {q} s s'"])
    show "wpE (arrow ops True q (assign ops q ?f) s) swap_err
        (\<lambda>(u, s'). view s' = (view s)(q \<mapsto> ?m) \<and> keeps {q} s s')"
      by (rule wp_arrow_assign[OF Cons.prems(1-3)])
        (use Cons.prems(3) storable_node[OF fit] f refs in auto)
  next
    fix r assume "case r of (u, s') \<Rightarrow> view s' = (view s)(q \<mapsto> ?m) \<and> keeps {q} s s'"
    then obtain s' where r: "snd r = s'" and s': "view s' = (view s)(q \<mapsto> ?m)" "keeps {q} s s'"
      by (cases r) auto
    have step: "Q s2" if "view s2 = (view s')(q \<mapsto> ?m\<lparr>elements := elements ?m @ es\<rparr>)" "keeps {q} s' s2" for s2
      using that s' by (intro Cons.prems(5)) (auto intro: keeps_trans)
    have "wpE (split_move ops q es s') swap_err Q"
    proof (rule Cons.IH[where m = ?m])
      show "view s' r \<noteq> None" if "r \<in> set (node_refs ?m)" for r
        using that refs s'(1) Cons.prems(3)[of r] by simp
      show "node_fit (?m\<lparr>elements := elements ?m @ es\<rparr>)" using Cons.prems(4) by simp
    qed (use s' keepsD(1)[OF s'(2)] in simp, use s' in simp, rule step)
    then show "wpE (case r of (u, s') \<Rightarrow> split_move ops q es s') swap_err Q"
      using r by (cases r) auto
  qed
qed

text \<open>Filling one new node.\<close>

definition filled :: "('p, 'k, 'v) ptree \<Rightarrow> 'p \<Rightarrow> nat \<Rightarrow> nat \<Rightarrow> nat \<Rightarrow> nat \<Rightarrow> nat \<Rightarrow> 's
    \<Rightarrow> (nat \<times> nat \<times> nat) \<times> 's \<Rightarrow> bool" where
  "filled T q limit i0 i j0 j s = (\<lambda>((i', j', tm), s').
     tm = i' + j' \<and> cut_at (node_of T) i' j' \<and> i \<le> i' \<and> j \<le> j' \<and>
     view s' = (view s)(q \<mapsto> chunk_node T i0 i' j0 j') \<and> keeps {q} s s' \<and>
     (limit \<le> i' + j' \<or> (i' = length (kids T) \<and> j' = length (buf T))) \<and>
     (i + j < limit \<and> (i < length (kids T) \<or> j < length (buf T)) \<longrightarrow> i + j < i' + j'))"

lemma filled_later:
  assumes "filled T q limit i0 i1 j0 j1 s1 r" and "i \<le> i1" and "j \<le> j1" and "i + j < i1 + j1"
    and "view s1 = (view s)(q \<mapsto> m)" and "keeps {q} s s1"
  shows "filled T q limit i0 i j0 j s r"
  using assms by (auto simp: filled_def intro: keeps_trans)

lemma wp_split_fill:
  assumes ok: "tree_ok d T"
    and "sinv s" and "view s q = Some (chunk_node T i0 i j0 j)"
    and "\<And>r. r \<in> set (roots (kids T)) \<Longrightarrow> view s r \<noteq> None"
    and "cut_at (node_of T) i j" and "i0 \<le> i" and "j0 \<le> j"
  shows "wpE (split_fill ops (node_of T) q limit (i, j, i + j) s) swap_err (filled T q limit i0 i j0 j s)"
  using assms(2-)
proof (induction "(length (kids T) - i) + (length (buf T) - j)" arbitrary: i j s rule: less_induct)
  case less
  let ?n = "node_of T" and ?F = "kids T" and ?es = "buf T"
  have n [simp]: "length (pivots ?n) = length ?F" "length (elements ?n) = length ?es" "elements ?n = ?es"
    by (simp_all add: node_of_def)
  have bounds: "i \<le> length ?F" "j \<le> length ?es" using less.prems(4) by (auto simp: cut_at_def)
  have live: "view s r \<noteq> None" if "r \<in> set (node_refs (chunk_node T i0 i' j0' j'))" for r i' j0' j'
    using less.prems(3) node_refs_chunk[OF that] by blast
  note st = storable_node[OF node_fit_chunk[OF ok]]
  consider (stop) "\<not> (i + j < limit \<and> (i < length ?F \<or> j < length ?es))"
    | (pivot) "i + j < limit" "i < length ?F"
    | (leaf) "i + j < limit" "i = length ?F" "j < length ?es"
    using bounds by linarith
  then show ?case
  proof cases
    case stop
    then show ?thesis
      using less.prems bounds
      by (subst split_fill.simps) (auto simp: filled_def keeps_refl fun_upd_idem_iff)
  next
    case pivot
    let ?j = "get_element_begin_it ?n (Suc i)"
    let ?f = "\<lambda>m. m\<lparr>pivots := put (pivots m) (fst (pivots ?n ! i)) (snd (pivots ?n ! i))\<rparr>"
    note nx = cut_at_next[OF ok less.prems(4) pivot(2)]
    have eq: "split_fill ops ?n q limit (i, j, i + j) s =
        bindE (arrow ops True q (assign ops q ?f) s) (\<lambda>(_, s1).
        bindE (split_move ops q (subrange ?es j ?j) s1) (\<lambda>s2.
          split_fill ops ?n q limit (Suc i, ?j, Suc i + ?j) s2))"
      using pivot nx(1) by (subst split_fill.simps) (simp add: Let_def)
    have f: "?f (chunk_node T i0 i j0 j) = chunk_node T i0 (Suc i) j0 j"
      by (rule chunk_node_pivot[OF ok less.prems(5) pivot(2)])
    have 1: "wpE (arrow ops True q (assign ops q ?f) s) swap_err (\<lambda>(_, s1).
        view s1 = (view s)(q \<mapsto> chunk_node T i0 (Suc i) j0 j) \<and> keeps {q} s s1)"
      by (rule wp_arrow_assign[OF less.prems(1,2) live]) (use f st live in auto)
    have 2: "wpE (split_move ops q (subrange ?es j ?j) s1) swap_err (\<lambda>s2.
        view s2 = (view s)(q \<mapsto> chunk_node T i0 (Suc i) j0 ?j) \<and> keeps {q} s s2)"
      if s1: "view s1 = (view s)(q \<mapsto> chunk_node T i0 (Suc i) j0 j)" "keeps {q} s s1" for s1
    proof (rule wp_split_move[where m = "chunk_node T i0 (Suc i) j0 j"])
      show "sinv s1" using s1(2) by (rule keepsD)
      show "view s1 r \<noteq> None" if "r \<in> set (node_refs (chunk_node T i0 (Suc i) j0 j))" for r
        using live[OF that] s1(1) by simp
    qed (use s1 nx(1) less.prems(6) node_fit_chunk[OF ok] in \<open>auto simp: chunk_node_elements intro: keeps_trans\<close>)
    have 3: "wpE (split_fill ops ?n q limit (Suc i, ?j, Suc i + ?j) s2) swap_err (filled T q limit i0 i j0 j s)"
      if s2: "view s2 = (view s)(q \<mapsto> chunk_node T i0 (Suc i) j0 ?j)" "keeps {q} s s2" for s2
    proof (rule wpE_mono[OF less.hyps])
      show "length ?F - Suc i + (length ?es - ?j) < length ?F - i + (length ?es - j)"
        using pivot(2) nx(1) by linarith
      show "sinv s2" using s2(2) by (rule keepsD)
      show "view s2 r \<noteq> None" if "r \<in> set (roots ?F)" for r
        using less.prems(3)[OF that] s2(1) by simp
      show "filled T q limit i0 i j0 j s r" if "filled T q limit i0 (Suc i) j0 ?j s2 r" for r
        by (rule filled_later[OF that _ nx(1) _ s2]) (use nx(1) in auto)
    qed (use s2 nx less.prems(5,6) in auto)
    show ?thesis
      unfolding eq by (rule wpE_bind_rule[OF 1]) (use 2 3 in \<open>auto intro: wpE_bind_rule\<close>)
  next
    case leaf
    have F: "?F = []" using less.prems(4) leaf
      by (auto simp: cut_at_def node_of_def get_element_begin_it_def)
    have cut: "cut_at ?n i (Suc j)" using less.prems(4) leaf F by (simp add: cut_at_def node_of_def)
    have es: "[elements ?n ! j] = subrange ?es j (Suc j)" using leaf by (simp add: subrange_Suc)
    have eq: "split_fill ops ?n q limit (i, j, i + j) s =
        bindE (split_move ops q (subrange ?es j (Suc j)) s) (\<lambda>s1.
          split_fill ops ?n q limit (i, Suc j, i + Suc j) s1)"
      using leaf F es by (subst split_fill.simps) simp
    have 1: "wpE (split_move ops q (subrange ?es j (Suc j)) s) swap_err (\<lambda>s1.
        view s1 = (view s)(q \<mapsto> chunk_node T i0 i j0 (Suc j)) \<and> keeps {q} s s1)"
      by (rule wp_split_move[OF less.prems(1,2) live])
        (use less.prems(6) node_fit_chunk[OF ok] in \<open>auto simp: chunk_node_elements\<close>)
    have 2: "wpE (split_fill ops ?n q limit (i, Suc j, i + Suc j) s1) swap_err (filled T q limit i0 i j0 j s)"
      if s1: "view s1 = (view s)(q \<mapsto> chunk_node T i0 i j0 (Suc j))" "keeps {q} s s1" for s1
    proof (rule wpE_mono[OF less.hyps])
      show "length ?F - i + (length ?es - Suc j) < length ?F - i + (length ?es - j)"
        using leaf by linarith
      show "sinv s1" using s1(2) by (rule keepsD)
      show "view s1 r \<noteq> None" if "r \<in> set (roots ?F)" for r
        using less.prems(3)[OF that] s1(1) by simp
      show "filled T q limit i0 i j0 j s r" if "filled T q limit i0 i j0 (Suc j) s1 r" for r
        by (rule filled_later[OF that _ _ _ s1]) auto
    qed (use s1 cut less.prems(5,6) in auto)
    show ?thesis
      unfolding eq by (rule wpE_bind_rule[OF 1]) (use 2 in auto)
  qed
qed

text \<open>
  The new nodes \<open>G\<close> made since the state \<open>s0\<close>, and perhaps one more that is still empty and
  that the next round replaces.
\<close>

definition made :: "'s \<Rightarrow> ('p, 'k, 'v) forest \<Rightarrow> 'p list \<Rightarrow> 's \<Rightarrow> bool" where
  "made s0 G qs s \<longleftrightarrow> sinv s0 \<and> keeps (- dom (view s0)) s0 s \<and>
     (\<forall>x\<in>dom (view s0). view s x = view s0 x) \<and>
     distinct (roots G @ qs) \<and> set (roots G @ qs) \<inter> dom (view s0) = {} \<and>
     dom (view s) = dom (view s0) \<union> set (roots G @ qs) \<and>
     (\<forall>c\<in>set G. view s (ptr (fst (snd c))) = Some (node_of (fst (snd c))) \<and> snd (snd c) = 0) \<and>
     (\<forall>c\<in>set G. set (node_refs (node_of (fst (snd c)))) \<subseteq> dom (view s0)) \<and>
     (\<forall>q\<in>set qs. view s q = Some new_node)"

definition round_inv :: "nat \<Rightarrow> 'v \<Rightarrow> ('p, 'k, 'v) ptree \<Rightarrow> 's \<Rightarrow> nat
    \<Rightarrow> nat \<times> nat \<times> nat \<Rightarrow> ('k, 'p) pivot_map \<Rightarrow> 's \<Rightarrow> bool" where
  "round_inv d dv T s0 limit st result s \<longleftrightarrow> (case st of (i, j, tm) \<Rightarrow>
     tm = i + j \<and> cut_at (node_of T) i j \<and> (limit \<le> i + j \<or> at_end T i j) \<and>
     (\<exists>G qs. result = pivot_table G @ map (\<lambda>q. (start_key T i j, \<lparr>child = q, child_size = 0\<rparr>)) qs \<and>
        length qs \<le> 1 \<and> (at_end T i j \<longrightarrow> qs = []) \<and> split_inv d dv T i j G \<and> made s0 G qs s))"

lemma round_invI:
  assumes "tm = i + j" and "cut_at (node_of T) i j" and "limit \<le> i + j \<or> at_end T i j"
    and "result = pivot_table G @ map (\<lambda>q. (start_key T i j, \<lparr>child = q, child_size = 0\<rparr>)) qs"
    and "length qs \<le> 1" and "at_end T i j \<Longrightarrow> qs = []"
    and "split_inv d dv T i j G" and "made s0 G qs s"
  shows "round_inv d dv T s0 limit (i, j, tm) result s"
  unfolding round_inv_def prod.case using assms by blast

lemma made_alloc:
  assumes "made s0 G qs s" and "view s q = None" and "view s' = (view s)(q \<mapsto> new_node)" and "keeps {q} s s'"
  shows "made s0 G (qs @ [q]) s'"
proof -
  have q: "q \<notin> dom (view s)" using assms(2) by auto
  then have new: "q \<notin> dom (view s0)" "q \<notin> set (roots G @ qs)" using assms(1) by (auto simp: made_def)
  have "keeps (- dom (view s0)) s0 s'"
    using assms(1,4) new by (auto simp: made_def intro: keeps_trans)
  then show ?thesis using assms(1,3) new by (auto simp: made_def)
qed

lemma made_fill:
  assumes "made s0 G [q] s" and "view s' = (view s)(q \<mapsto> node_of t)" and "keeps {q} s s'" and "ptr t = q"
    and "set (node_refs (node_of t)) \<subseteq> dom (view s0)"
  shows "made s0 (G @ [(k, t, 0)]) [] s'"
proof -
  have new: "q \<notin> dom (view s0)" "q \<notin> set (roots G)" using assms(1) by (auto simp: made_def)
  then have "\<forall>c\<in>set G. ptr (fst (snd c)) \<noteq> q" by auto
  moreover have "keeps (- dom (view s0)) s0 s'"
    using assms(1,3) new by (auto simp: made_def intro: keeps_trans)
  ultimately show ?thesis using assms(1,2,4,5) new by (auto simp: made_def)
qed

lemma made_idle:
  assumes "made s0 G [q] s" and "view s' = view s" and "keeps {q} s s'"
  shows "made s0 G [q] s'"
proof -
  have "q \<notin> dom (view s0)" using assms(1) by (auto simp: made_def)
  then have "keeps (- dom (view s0)) s0 s'"
    using assms(1,3) by (auto simp: made_def intro: keeps_trans)
  then show ?thesis using assms(1,2) by (simp add: made_def)
qed

lemma made_unreferenced:
  assumes m: "made s0 G qs s" and q: "q \<in> set qs" and x: "view s x = Some m"
  shows "q \<notin> set (node_refs m)"
proof -
  have s0: "sinv s0" "q \<notin> dom (view s0)" and same: "\<forall>x\<in>dom (view s0). view s x = view s0 x"
    and dom: "dom (view s) = dom (view s0) \<union> set (roots G @ qs)"
    using m q by (auto simp: made_def)
  have "x \<in> dom (view s)" using x by blast
  then consider "x \<in> dom (view s0)" | "x \<in> set (roots G)" | "x \<in> set qs"
    unfolding dom set_append by blast
  then show ?thesis
  proof cases
    case 1
    then have "view s0 x = Some m" using bspec[OF same, of x] x by simp
    then show ?thesis using refs_live[OF s0(1), of x m q] s0(2) by (auto simp: domIff)
  next
    case 2
    then obtain c where "c \<in> set G" "x = ptr (fst (snd c))" by auto
    then have "set (node_refs m) \<subseteq> dom (view s0)" using m x by (auto simp: made_def)
    then show ?thesis using s0(2) by blast
  next
    case 3
    then have "m = new_node" using m x by (auto simp: made_def)
    then show ?thesis by (simp add: node_refs_def new_node_def)
  qed
qed

lemma wp_drop_empty:
  assumes "made s0 G (qs @ [q]) s" and "length qs \<le> 1"
    and "\<And>s'. made s0 G [q] s' \<Longrightarrow> Q s'"
  shows "wpE (case qs of [] \<Rightarrow> Inr s | old # _ \<Rightarrow> ss_depoint ops old s) swap_err Q"
proof (cases qs)
  case Nil
  with assms show ?thesis by simp
next
  case (Cons old qs')
  then have qs: "qs = [old]" using assms(2) by simp
  have s: "keeps (- dom (view s0)) s0 s" "view s old = Some new_node" "old \<notin> dom (view s0)"
    "old \<notin> set (roots G)" "old \<noteq> q" "dom (view s) = dom (view s0) \<union> set (roots G) \<union> {old, q}"
    using assms(1) qs by (auto simp: made_def)
  have "pins s old = 0" using s(3) unpinned[of s0 old] keepsD(2)[OF s(1)] assms(1) by (auto simp: made_def)
  show ?thesis unfolding qs list.case
  proof (rule wp_depoint[OF keepsD(1)[OF s(1)] s(2)])
    show "node_refs new_node = []" by (simp add: new_node_def node_refs_def)
    show "old \<notin> set (node_refs m)" if "view s x = Some m" for x m
      using made_unreferenced[OF assms(1) _ that, of old] qs by simp
    fix s' assume s': "view s' = (view s)(old := None)" "keeps {} s s'"
    have "keeps (- dom (view s0)) s0 s'" using s(1) s'(2) by (rule keeps_trans) simp
    then show "Q s'" using assms(1) s s' unfolding qs
      by (intro assms(3)) (auto simp: made_def)
  qed fact
qed

text \<open>Looking the next key up in the result finds the empty node, if there is one.\<close>

lemma result_lookup:
  assumes inv: "split_inv d dv T i j G" and "\<not> at_end T i j" and "cut_at (node_of T) i j"
    and qs: "length qs \<le> 1"
  defines "res \<equiv> pivot_table G @ map (\<lambda>q. (start_key T i j, \<lparr>child = q, child_size = 0\<rparr>)) qs"
  shows "map_of res (start_key T i j) = (case qs of [] \<Rightarrow> None | old # _ \<Rightarrow> Some \<lparr>child = old, child_size = 0\<rparr>)"
    and "put res (start_key T i j) ci = pivot_table G @ [(start_key T i j, ci)]"
proof -
  let ?k = "start_key T i j"
  have lt: "fst c < ?k" if "c \<in> set (pivot_table G)" for c
  proof -
    have "fst c \<in> fst ` set G" using that by (metis fst_set_pivot_table imageI)
    then obtain c' where "c' \<in> set G" "fst c = fst c'" by auto
    then show ?thesis using start_key_above[OF inv assms(2,3)] by simp
  qed
  then have none: "map_of (pivot_table G) ?k = None" by (force simp: map_of_eq_None_iff)
  have ok: "map_ok (pivot_table G)" using split_invD(1)[OF inv] by (simp add: forest_map_ok)
  show "map_of res ?k = (case qs of [] \<Rightarrow> None | old # _ \<Rightarrow> Some \<lparr>child = old, child_size = 0\<rparr>)"
    using none qs by (cases qs) (auto simp: res_def map_add_def)
  show "put res ?k ci = pivot_table G @ [(?k, ci)]"
  proof (cases qs)
    case Nil
    then show ?thesis using ok lt by (simp add: res_def put_at_end)
  next
    case (Cons old qs')
    then have "res = pivot_table G @ (?k, \<lparr>child = old, child_size = 0\<rparr>) # []"
      using qs by (simp add: res_def)
    moreover have "map_ok (pivot_table G @ (?k, \<lparr>child = old, child_size = 0\<rparr>) # [])"
      using ok lt by (simp add: map_ok_append map_ok_Cons)
    ultimately show ?thesis by (simp only: put_at_key)
  qed
qed

lemma node_fit_new_node: "node_fit new_node"
  by (simp add: node_fit_def new_node_def)

lemma node_refs_new_node: "node_refs new_node = []"
  by (simp add: new_node_def node_refs_def)

lemma wp_fresh_node:
  assumes made: "made s0 G qs s" and qs: "length qs \<le> 1"
    and cont: "\<And>q s3. made s0 G [q] s3 \<Longrightarrow> wpE (cont q 0 s3) swap_err Q"
  shows "wpE (bindE (ss_allocate ops new_node s) (\<lambda>(q, s1).
     bindE (sizes ops q s1) (\<lambda>(sz, s2).
     bindE (case qs of [] \<Rightarrow> Inr s2 | old # _ \<Rightarrow> ss_depoint ops old s2) (cont q sz)))) swap_err Q"
  unfolding wpE_bindE
proof (rule wp_allocate, goal_cases)
  case 1
  then show ?case using made by (auto simp: made_def keeps_def same_pins_def)
next
  case (4 q s1)
  have m1: "made s0 G (qs @ [q]) s1" by (rule made_alloc[OF made 4(1,2,3)])
  have s1: "sinv s1" "view s1 q = Some new_node" using keepsD(1)[OF 4(3)] 4(2) by simp_all
  show ?case
    unfolding prod.case wpE_bindE
  proof (rule wp_sizes[OF s1], goal_cases)
    case (2 s2)
    have "made s0 G (qs @ [q]) s2"
      using m1 2 made_def[of s0 G "qs @ [q]"] by (auto intro: keeps_trans[OF _ 2(2)])
    then show ?case
      using cont by (auto simp: node_size_def new_node_def wpE_bindE intro: wp_drop_empty[OF _ qs])
  qed (simp add: node_refs_new_node)
qed (simp_all add: storable_node node_fit_new_node node_refs_new_node)

text \<open>One round of the loop over the new nodes, from the fresh node on.\<close>

lemma wp_fill_round:
  assumes ok: "tree_ok d T" and live: "\<And>r. r \<in> set (roots (kids T)) \<Longrightarrow> view s0 r \<noteq> None"
    and inv: "split_inv d dv T i j G" and cut: "cut_at (node_of T) i j" and more: "\<not> at_end T i j"
    and made: "made s0 G [q] s"
  shows "wpE (split_fill ops (node_of T) q limit (i, j, i + j) s) swap_err (\<lambda>(st, s').
     round_inv d dv T s0 limit st (pivot_table G @ [(start_key T i j, \<lparr>child = q, child_size = 0\<rparr>)]) s')"
proof -
  have s: "sinv s" "view s q = Some new_node" and same: "\<forall>x\<in>dom (view s0). view s x = view s0 x"
    using made by (simp_all add: made_def keeps_def same_pins_def)
  have s_live: "view s r \<noteq> None" if "r \<in> set (roots (kids T))" for r
    using live[OF that] bspec[OF same, of r] by (simp add: domIff)
  have "wpE (split_fill ops (node_of T) q limit (i, j, i + j) s) swap_err (filled T q limit i i j j s)"
    using s s_live cut by (intro wp_split_fill[OF ok]) simp_all
  then show ?thesis
  proof (rule wpE_mono)
    fix r assume r: "filled T q limit i i j j s r"
    obtain i' j' tm s' where r_eq: "r = ((i', j', tm), s')" by (metis prod_cases4 surj_pair)
    have f: "tm = i' + j'" "cut_at (node_of T) i' j'" "i \<le> i'" "j \<le> j'"
      "view s' = (view s)(q \<mapsto> chunk_node T i i' j j')" "keeps {q} s s'"
      "limit \<le> i' + j' \<or> at_end T i' j'"
      "i + j < limit \<and> (i < length (kids T) \<or> j < length (buf T)) \<longrightarrow> i + j < i' + j'"
      using r by (auto simp: r_eq filled_def at_end_def)
    let ?k = "start_key T i j"
    show "case r of (st, s') \<Rightarrow> round_inv d dv T s0 limit st
        (pivot_table G @ [(?k, \<lparr>child = q, child_size = 0\<rparr>)]) s'"
    proof (cases "i + j < i' + j'")
      case True
      let ?t = "PTree q (subrange (kids T) i i') (subrange (buf T) j j')"
      have T: "T = PTree (ptr T) (kids T) (buf T)" by simp
      have "split_inv d dv T i' j' (G @ [(?k, ?t, 0)])"
        using split_inv_step[of d "ptr T" "kids T" "buf T" dv i j G i' j' 0 q] ok inv cut f(2,3,4) True
        by (simp add: start_key_chunk)
      moreover have "made s0 (G @ [(?k, ?t, 0)]) [] s'"
      proof (rule made_fill[OF made _ f(6)])
        have "set (roots (subrange (kids T) i i')) \<subseteq> set (roots (kids T))"
          unfolding subrange_def by (auto dest: in_set_takeD in_set_dropD)
        then show "set (node_refs (node_of ?t)) \<subseteq> dom (view s0)"
          using live by (auto simp: node_of_def node_refs_table)
      qed (simp_all add: f(5) chunk_node_node_of)
      ultimately show ?thesis
        using f(1,2,7) unfolding r_eq prod.case
        by (intro round_invI[where G = "G @ [(?k, ?t, 0)]" and qs = "[]"]) simp_all
    next
      case False
      then have same: "i' = i" "j' = j" using f(3,4) by auto
      have "view s' = view s" using f(5) s(2) same by (simp add: fun_upd_idem_iff)
      then have "made s0 G [q] s'" using f(6) by (rule made_idle[OF made])
      then show ?thesis
        using f(1,7) inv cut more same unfolding r_eq prod.case
        by (intro round_invI[where G = G and qs = "[q]"]) simp_all
    qed
  qed auto
qed

lemma wp_split_nodes:
  assumes ok: "tree_ok d T" and live: "\<And>r. r \<in> set (roots (kids T)) \<Longrightarrow> view s0 r \<noteq> None"
    and "(m + r) * tpl < 2 ^ 31" and "round_inv d dv T s0 (m * tpl) st result s"
  shows "wpE (split_nodes r ops (node_of T) tpl m st result s) swap_err
     (\<lambda>(st', result', s'). round_inv d dv T s0 ((m + r) * tpl) st' result' s')"
  using assms(3-)
proof (induction r arbitrary: m st result s)
  case (Suc r)
  obtain i j where st: "st = (i, j, i + j)" using Suc.prems(2) by (cases st) (auto simp: round_inv_def)
  have end_iff: "i = length (pivots (node_of T)) \<and> j = length (elements (node_of T)) \<longleftrightarrow> at_end T i j"
    by (simp add: at_end_def node_of_def)
  show ?case
  proof (cases "at_end T i j")
    case True
    then show ?thesis using Suc.prems(2) end_iff by (simp add: st round_inv_def)
  next
    case False
    obtain G qs where res: "result = pivot_table G @ map (\<lambda>q. (start_key T i j, \<lparr>child = q, child_size = 0\<rparr>)) qs"
      and qs: "length qs \<le> 1" and inv: "split_inv d dv T i j G" and made: "made s0 G qs s"
      and cut: "cut_at (node_of T) i j"
      using Suc.prems(2) by (auto simp: st round_inv_def)
    let ?k = "start_key T i j"
    note lookup = result_lookup[OF inv False cut qs, folded res]
    have k: "(if i \<noteq> length (pivots (node_of T)) then fst (pivots (node_of T) ! i)
        else key (fst (elements (node_of T) ! j))) = ?k"
      using cut by (auto simp: start_key_def node_of_def cut_at_def nth_pivot_table)
    have old: "(case (case qs of [] \<Rightarrow> None | old # _ \<Rightarrow> Some \<lparr>child = old, child_size = 0\<rparr>) of
          None \<Rightarrow> Inr s2 | Some old \<Rightarrow> ss_depoint ops (child old) s2)
        = (case qs of [] \<Rightarrow> Inr s2 | old # _ \<Rightarrow> ss_depoint ops old s2)" for s2
      by (simp split: list.splits)
    have lim: "Suc m * tpl < 2 ^ 31"
      using Suc.prems(1) by (rule le_less_trans[rotated]) (simp add: algebra_simps)
    have IH: "wpE (split_nodes r ops (node_of T) tpl (Suc m) st' result' s') swap_err
        (\<lambda>(st', result', s'). round_inv d dv T s0 ((m + Suc r) * tpl) st' result' s')"
      if "round_inv d dv T s0 (Suc m * tpl) st' result' s'" for st' result' s'
      using Suc.IH[of "Suc m" st' result' s'] Suc.prems(1) that by simp
    show ?thesis
      unfolding st split_nodes.simps end_iff k Let_def lookup old if_not_P[OF False]
    proof (rule wp_fresh_node[OF made qs], goal_cases)
      case (1 q s3)
      have "wpE (split_fill ops (node_of T) q (Suc m * tpl) (i, j, i + j) s3) swap_err (\<lambda>(st, s').
          round_inv d dv T s0 (Suc m * tpl) st (pivot_table G @ [(?k, \<lparr>child = q, child_size = 0\<rparr>)]) s')"
        using 1 by (intro wp_fill_round[OF ok live inv cut False])
      then show ?case
        unfolding wpE_bindE wpE_to_int if_P[OF lim]
        by (rule wpE_mono) (simp_all only: split_paired_all prod.case IH)
    qed
  qed
qed simp

text \<open>The last loop, which fills in the sizes.\<close>

lemma wp_split_sizes:
  assumes "sinv s" and "\<And>c. c \<in> set G \<Longrightarrow> view s (ptr (fst (snd c))) = Some (node_of (fst (snd c)))"
    and "\<And>r. r \<in> set (fptrs G) \<Longrightarrow> view s r \<noteq> None"
  shows "wpE (split_sizes ops (pivot_table G) s) swap_err (\<lambda>(res, s').
     res = pivot_table (resize G) \<and> view s' = view s \<and> keeps (set (roots G)) s s')"
  using assms
proof (induction G arbitrary: s)
  case Nil
  then show ?case by (simp add: keeps_refl)
next
  case (Cons c G)
  obtain k t n where c: "c = (k, t, n)" by (cases c)
  have t: "view s (ptr t) = Some (node_of t)" using Cons.prems(2)[of c] c by simp
  have refs: "view s r \<noteq> None" if "r \<in> set (node_refs (node_of t))" for r
    using that Cons.prems(3)[of r] node_refs_node_of[of t] c by auto
  show ?case
    unfolding c pivot_table_simps split_sizes.simps wpE_bindE child_info.simps
  proof (rule wp_sizes[OF Cons.prems(1) t], goal_cases)
    case (2 s1)
    have "wpE (split_sizes ops (pivot_table G) s1) swap_err (\<lambda>(res, s').
       res = pivot_table (resize G) \<and> view s' = view s1 \<and> keeps (set (roots G)) s1 s')"
    proof (rule Cons.IH)
      show "sinv s1" using 2(2) by (rule keepsD)
    qed (use 2(1) Cons.prems(2,3) in auto)
    then show ?case
      unfolding prod.case wpE_bindE
      by (rule wpE_mono) (use 2 in \<open>auto intro: keeps_trans\<close>)
  qed (rule refs)
qed

definition split_post :: "nat \<Rightarrow> 'v \<Rightarrow> ('p, 'k, 'v) ptree \<Rightarrow> 's \<Rightarrow> ('p, 'k, 'v) forest \<Rightarrow> 's \<Rightarrow> bool" where
  "split_post d dv T s G s' \<longleftrightarrow> G \<noteq> [] \<and> forest_ok d G \<and> fden dv G = den dv T \<and>
     fmkeys G \<subseteq> mkeys T \<and> fst ` set G \<union> ftkeys G \<subseteq> tkeys T \<and> (\<forall>D. clean_ok D T \<longrightarrow> fclean D G) \<and>
     distinct (ptr T # fptrs G) \<and> set (fptrs G) \<inter> dom (view s) \<subseteq> set (ptrs T) \<and>
     frep (view s') G \<and> view s' (ptr T) = Some new_node \<and>
     (\<forall>x\<in>dom (view s) - {ptr T}. view s' x = view s x) \<and>
     dom (view s') = dom (view s) \<union> set (roots G) \<and> keeps (- dom (view s)) s s' \<and>
     set (fptrs G) = set (roots G) \<union> set (fptrs (kids T))"

lemma round_inv_end:
  assumes inv: "round_inv d dv T s0 limit st result s" and size: "node_size (node_of T) \<le> limit"
  obtains G where "st = (length (kids T), length (buf T), node_size (node_of T))"
    and "result = pivot_table G" and "split_inv d dv T (length (kids T)) (length (buf T)) G" and "made s0 G [] s"
proof -
  obtain i j tm where st: "st = (i, j, tm)" by (cases st)
  have "i \<le> length (kids T)" "j \<le> length (buf T)" "limit \<le> i + j \<or> at_end T i j" "tm = i + j"
    using inv by (auto simp: st round_inv_def cut_at_def node_of_def)
  then have "at_end T i j" using size by (auto simp: at_end_def node_size_def node_of_def)
  then have "i = length (kids T)" "j = length (buf T)" by (simp_all add: at_end_def)
  with inv \<open>at_end T i j\<close> \<open>tm = i + j\<close> show ?thesis
    by (auto simp: st round_inv_def node_size_def node_of_def intro: that)
qed

lemma split_done:
  assumes rep: "rep (view s) T" and dist: "distinct (ptrs T)"
    and size: "node_size (node_of T) < 2 ^ 30" "node_size (node_of T) \<noteq> 0"
    and inv: "split_inv d dv T (length (kids T)) (length (buf T)) G" and made: "made s G [] s1"
    and s3: "view s3 = (view s1)(ptr T \<mapsto> new_node)" "keeps (- dom (view s)) s s3"
  shows "split_post d dv T s (resize G) s3"
proof -
  obtain p F es where T: "T = PTree p F es" by (cases T)
  note G = split_invD[OF inv, unfolded T ptree.sel, folded T]
  have fresh: "distinct (roots G)" "set (roots G) \<inter> dom (view s) = {}"
    and same: "\<forall>x\<in>dom (view s). view s1 x = view s x"
    and dom1: "dom (view s1) = dom (view s) \<union> set (roots G)"
    and nodes: "\<forall>c\<in>set G. view s1 (ptr (fst (snd c))) = Some (node_of (fst (snd c)))"
    using made by (simp_all add: made_def)
  have live: "set (ptrs T) \<subseteq> dom (view s)" using rep_live[OF rep] by auto
  have F: "frep (view s) F" "p \<notin> set (fptrs F)" "distinct (fptrs F)" "set (fptrs F) \<subseteq> dom (view s)" "p \<in> dom (view s)"
    using rep dist live by (auto simp: T)
  have fptrs: "set (fptrs G) = set (roots G) \<union> set (fptrs F)" using G(4) by simp
  have "distinct (fptrs G)" using G(8) F(3,4) fresh by blast
  moreover have "p \<notin> set (fptrs G)" using fptrs F(2,5) fresh(2) by blast
  ultimately have d: "distinct (ptr T # fptrs G)" by (simp add: T)
  have "rep (view s3) t" if c: "(k, t, n) \<in> set G" for k t n
  proof (rule rep_iff[THEN iffD2], rule conjI)
    have "ptr t \<in> set (roots G)" using imageI[OF c, of "\<lambda>c. ptr (fst (snd c))"] by simp
    then have "ptr t \<noteq> p" using fresh(2) F(5) by blast
    then show "view s3 (ptr t) = Some (node_of t)" using bspec[OF nodes c] s3(1) by (simp add: T)
    have "view s3 x = view s x" if "x \<in> set (fptrs F)" for x
    proof -
      have "x \<noteq> p" and "x \<in> dom (view s)" using that F(2,4) by blast+
      then show ?thesis using s3(1) bspec[OF same] by (simp add: T)
    qed
    then have "frep (view s3) F" by (rule frep_cong[OF F(1)])
    moreover have "set (kids t) \<subseteq> set F" using bspec[OF G(10) c] by (simp add: T)
    ultimately show "frep (view s3) (kids t)" by (auto simp: list_all_iff)
  qed
  then have "frep (view s3) G" by (auto simp: list_all_iff)
  then have frep: "frep (view s3) (resize G)" by simp
  have small: "node_size (node_of (fst (snd c))) < 2 ^ 64" if "c \<in> set G" for c
    using bspec[OF G(10) that] size(1) by simp
  have den: "fden dv G = den dv T" using G(6) by (intro ext) (simp add: T den_PTree)
  have "G \<noteq> []" using G(9) size(2) by (auto simp: T node_size_def node_of_def)
  moreover have "\<forall>x\<in>dom (view s) - {ptr T}. view s3 x = view s x" using same s3(1) by simp
  moreover have "dom (view s3) = dom (view s) \<union> set (roots G)" using dom1 s3(1) F(5) by (auto simp: T)
  moreover have "set (fptrs G) \<inter> dom (view s) \<subseteq> set (ptrs T)" using fptrs fresh(2) by (auto simp: T)
  moreover have "view s3 (ptr T) = Some new_node" using s3(1) by simp
  moreover have "set (fptrs G) = set (roots G) \<union> set (fptrs (kids T))" using fptrs by (simp add: T)
  ultimately show ?thesis
    using G(2,3,7) d den frep[unfolded resize_same] s3(2) forest_ok_resize[OF G(1) small]
    unfolding split_post_def resize_same resize_simps(3) by - (intro conjI; assumption)
qed

text \<open>
  \<open>split\<close>: no failure of its own, and the nodes it returns are the tree that was there.
\<close>

lemma wp_node_split:
  assumes ok: "tree_ok d T" and s: "sinv s" "pins s (ptr T) > 0" "ss_is_dirty ops (ptr T) s"
    and rep: "rep (view s) T" and dist: "distinct (ptrs T)"
    and max: "3 \<le> max_node_size bet" "10 * max_node_size bet < 2 ^ 64"
    and size: "max_node_size bet \<le> node_size (node_of T)" "node_size (node_of T) < 2 ^ 30"
  shows "wpE (node_split ops bet (ptr T) s) swap_err (\<lambda>(res, s').
     \<exists>G. res = pivot_table G \<and> split_post d dv T s G s')"
proof -
  let ?n = "node_of T" and ?size = "node_size (node_of T)"
  let ?N = "?size div ((10 * max_node_size bet mod 2 ^ 64) div 24)"
  let ?tpl = "(?size + ?N - 1) div ?N"
  note counts = split_counts[OF max size]
  have p: "view s (ptr T) = Some ?n" using rep_iff[THEN iffD1, OF rep] by simp
  have n_eq: "this_node ops (ptr T) s = Inr ?n" using s p by (simp add: this_node_eq)
  have roots: "set (roots (kids T)) \<subseteq> set (ptrs T)" by (cases T) (force)
  have start: "round_inv d dv T s (0 * ?tpl) (0, 0, 0) [] s"
  proof (rule round_invI[where G = "[]" and qs = "[]"])
    show "cut_at ?n 0 0" using ok cut_start[of d "ptr T" "kids T" "buf T"] by simp
    show "made s [] [] s" using s(1) by (simp add: made_def keeps_refl)
  qed (simp_all add: split_inv_start)
  have "wpE (split_nodes ?N ops ?n ?tpl 0 (0, 0, 0) [] s) swap_err
     (\<lambda>(st, res, s'). round_inv d dv T s ((0 + ?N) * ?tpl) st res s')"
    using counts(5) start by (intro wp_split_nodes[OF ok]) (use rep_live[OF rep] roots in auto)
  note nodes = this[unfolded add_0]
  have after_nodes: "wpE (bindE (split_sizes ops res s1) (\<lambda>(result', s2).
      bindE (assertE (pi = length (pivots ?n)) (Assertion ''pivot_idx == pivots.end()'')) (\<lambda>_.
      bindE (assertE (ei = length (elements ?n)) (Assertion ''elt_idx == elements.end()'')) (\<lambda>_.
      bindE (assign ops (ptr T) (\<lambda>m. m\<lparr>pivots := [], elements := []\<rparr>) s2) (\<lambda>(_, s3).
      Inr (result', s3)))))) swap_err (\<lambda>(res, s'). \<exists>G. res = pivot_table G \<and> split_post d dv T s G s')"
    if inv: "round_inv d dv T s (?N * ?tpl) (pi, ei, tm) res s1" for pi ei tm res s1
  proof -
    obtain G where st: "pi = length (kids T)" "ei = length (buf T)" and res: "res = pivot_table G"
      and G: "split_inv d dv T (length (kids T)) (length (buf T)) G" and made: "made s G [] s1"
      using round_inv_end[OF inv counts(6)] by auto
    have s1: "keeps (- dom (view s)) s s1" and dom1: "dom (view s1) = dom (view s) \<union> set (roots G)"
      and same: "\<forall>x\<in>dom (view s). view s1 x = view s x" and fresh: "set (roots G) \<inter> dom (view s) = {}"
      and nodes: "\<And>c. c \<in> set G \<Longrightarrow> view s1 (ptr (fst (snd c))) = Some (node_of (fst (snd c)))"
      using made by (simp_all add: made_def)
    have fptrs_live: "view s1 r \<noteq> None" if "r \<in> set (fptrs G)" for r
    proof -
      have "set (fptrs G) \<subseteq> set (roots G) \<union> set (ptrs T)"
        using split_invD(4)[OF G] by (cases T) auto
      then have "r \<in> dom (view s1)" using that dom1 rep_live[OF rep, of r] by blast
      then show ?thesis by auto
    qed
    show ?thesis
      unfolding res wpE_bindE
    proof (rule wpE_mono[OF wp_split_sizes[OF keepsD(1)[OF s1] nodes fptrs_live]], assumption, assumption, assumption)
      fix r assume "case r of (res, s2) \<Rightarrow>
        res = pivot_table (resize G) \<and> view s2 = view s1 \<and> keeps (set (roots G)) s1 s2"
      then obtain s2 where r: "r = (pivot_table (resize G), s2)"
        and s2: "view s2 = view s1" "keeps (set (roots G)) s1 s2" by (cases r) auto
      have ks2: "keeps (- dom (view s)) s s2" using s1 s2(2) fresh by (auto intro: keeps_trans)
      have p2: "view s2 (ptr T) = Some ?n" using p same s2(1) by (auto simp: domIff)
      have "wpE (assign ops (ptr T) (\<lambda>m. m\<lparr>pivots := [], elements := []\<rparr>) s2) swap_err (\<lambda>(_, s3).
          split_post d dv T s (resize G) s3)"
      proof (rule wp_assign[OF keepsD(1)[OF ks2] _ _ p2], goal_cases)
        case (5 s3)
        have k3: "keeps (- dom (view s)) s s3"
          using ks2 5(3,4) by (auto simp: keeps_def intro: same_pins_trans)
        have "view s3 = (view s1)(ptr T \<mapsto> new_node)" using 5(2) s2(1) by (simp add: new_node_def node_of_def)
        moreover have "?size \<noteq> 0" using size(1) max(1) by linarith
        ultimately show ?case using split_done[OF rep dist size(2) _ G made _ k3] by simp
      qed (use s keepsD(2,3)[OF ks2] in \<open>auto simp: node_fit_def node_refs_def intro!: storable_node\<close>)
      then show "wpE (case r of (result', s2) \<Rightarrow>
        bindE (assertE (pi = length (pivots ?n)) (Assertion ''pivot_idx == pivots.end()'')) (\<lambda>_.
        bindE (assertE (ei = length (elements ?n)) (Assertion ''elt_idx == elements.end()'')) (\<lambda>_.
        bindE (assign ops (ptr T) (\<lambda>m. m\<lparr>pivots := [], elements := []\<rparr>) s2) (\<lambda>(_, s3).
        Inr (result', s3))))) swap_err (\<lambda>(res, s'). \<exists>G. res = pivot_table G \<and> split_post d dv T s G s')"
        unfolding r prod.case st by (auto simp: wp_rules node_of_def elim!: wpE_mono)
    qed
  qed
  show ?thesis
    unfolding node_split_def n_eq
    apply (simp only: bindE_simps Let_def assertE_P[OF size(1)] assertE_P[OF counts(1)] to_int_small[OF counts(3)]
      assertE_P[OF counts(2)] to_int_small[OF counts(4)] wpE_bindE[of "split_nodes _ _ _ _ _ _ _ _"])
    apply (rule wpE_mono[OF nodes])
    using after_nodes
    apply (auto simp only: split_paired_all prod.case)
    done
qed

end

end
