(* ===== verification/Betree_Replace.thy ===== *)
theory Betree_Replace
  imports Betree_Split
begin

text \<open>
  What a flush does to a node of the tree, before any pointer is followed: lowering the first
  pivot, adding messages to the buffer, taking the messages of one child out, and putting the
  trees a child has turned into in its place.
\<close>

subsection \<open>Putting trees in the place of a child\<close>

text \<open>
  \<open>child_elts_ok k B elts\<close>: the messages are for the child at key \<open>k\<close> that the entries \<open>B\<close>
  follow.
\<close>

definition in_child :: "'k :: linorder \<Rightarrow> ('k \<times> 'c) list \<Rightarrow> 'k set \<Rightarrow> bool" where
  "in_child k B K \<longleftrightarrow> (\<forall>x\<in>K. k \<le> x \<and> (\<forall>b\<in>set B. x < fst b))"

lemma in_child_mono: "in_child k B K \<Longrightarrow> K' \<subseteq> K \<Longrightarrow> in_child k B K'"
  by (auto simp: in_child_def)

lemma in_child_Un: "in_child k B (K \<union> L) \<longleftrightarrow> in_child k B K \<and> in_child k B L"
  by (auto simp: in_child_def)

lemma in_child_msgs:
  assumes "in_child k B (key ` fst ` set elts)" and "x < k \<or> (\<exists>b\<in>set B. fst b \<le> x)"
  shows "msgs_for elts x = []"
proof (rule msgs_for_NilI)
  fix e assume "e \<in> set elts"
  then have "k \<le> key (fst e)" and "\<forall>b\<in>set B. key (fst e) < fst b"
    using assms(1) by (simp_all add: in_child_def)
  with assms(2) show "key (fst e) \<noteq> x" by auto
qed

lemma forest_middle:
  assumes "forest_ok d (A @ (k, t, n) # B)"
  shows "forest_ok d A" and "forest_ok d B" and "tree_ok d t" and "in_child k B (tkeys t)"
    and "\<And>a. a \<in> set A \<Longrightarrow> before a (k, t, n)" and "\<And>b. b \<in> set B \<Longrightarrow> k < fst b"
    and "\<And>a b. a \<in> set A \<Longrightarrow> b \<in> set B \<Longrightarrow> before a b"
  using assms by (auto simp: forest_ok_append forest_ok_Cons in_child_def in_range_def before_def)

lemma keys_of_child:
  assumes "g \<in> set G"
  shows "insert (fst g) (tkeys (fst (snd g))) \<subseteq> fst ` set G \<union> ftkeys G"
    and "mkeys (fst (snd g)) \<subseteq> fmkeys G"
proof -
  obtain k t n where g: "g = (k, t, n)" by (cases g)
  show "insert (fst g) (tkeys (fst (snd g))) \<subseteq> fst ` set G \<union> ftkeys G" "mkeys (fst (snd g)) \<subseteq> fmkeys G"
    using assms by (force simp: g)+
qed

lemma forest_replace:
  assumes F: "forest_ok d (A @ (k, t, n) # B)" and G: "forest_ok d G"
    and keys: "in_child k B (fst ` set G \<union> ftkeys G)"
  shows "forest_ok d (A @ G @ B)"
proof -
  note m = forest_middle[OF F]
  have AG: "before a g" if "a \<in> set A" "g \<in> set G" for a g
  proof -
    have "k \<le> fst g" using keys that(2) by (auto simp: in_child_def)
    then show ?thesis using m(5)[OF that(1)] by (auto simp: before_def)
  qed
  have GB: "before g b" if g: "g \<in> set G" and b: "b \<in> set B" for g b
  proof -
    show ?thesis using keys b keys_of_child(1)[OF g] by (auto simp: before_def in_child_def)
  qed
  show ?thesis using m(1,2,7) G AG GB by (auto simp: forest_ok_append)
qed

lemma fden_replace:
  assumes F: "forest_ok d (A @ (k, t, n) # B)"
    and keys: "in_child k B (fst ` set G \<union> ftkeys G)"
    and elts: "in_child k B (key ` fst ` set elts)"
    and G: "\<And>x. fden dv G x = apply_msgs dv (den dv t x) (msgs_for elts x)"
  shows "fden dv (A @ G @ B) x = apply_msgs dv (fden dv (A @ (k, t, n) # B) x) (msgs_for elts x)"
proof -
  note m = forest_middle[OF F]
  have F_eq: "A @ (k, t, n) # B = (A @ [(k, t, n)]) @ B" and G_eq: "A @ G @ B = (A @ G) @ B" by simp_all
  show ?thesis
  proof (cases "\<exists>b\<in>set B. fst b \<le> x")
    case True
    then obtain b where b: "b \<in> set B" "fst b \<le> x" by blast
    have "msgs_for elts x = []" using in_child_msgs[OF elts] b by blast
    with True show ?thesis by (simp only: F_eq G_eq fden_append[of dv _ B] if_True foldl.simps)
  next
    case noB: False
    have R: "fden dv (A @ (k, t, n) # B) x = (if k \<le> x then den dv t x else fden dv A x)"
      using noB by (simp only: F_eq fden_append[of dv _ B] if_False) (simp add: fden_append fden_single)
    have L: "fden dv (A @ G @ B) x = (if \<exists>g\<in>set G. fst g \<le> x then fden dv G x else fden dv A x)"
      using noB by (simp only: G_eq fden_append[of dv _ B] if_False) (simp add: fden_append)
    show ?thesis
    proof (cases "\<exists>g\<in>set G. fst g \<le> x")
      case True
      then obtain g where g: "g \<in> set G" "fst g \<le> x" by blast
      then have "k \<le> fst g" using keys keys_of_child(1)[OF g(1)] by (simp add: in_child_def)
      with g(2) have "k \<le> x" by simp
      with True show ?thesis by (simp add: L R G)
    next
      case noG: False
      show ?thesis
      proof (cases "k \<le> x")
        case True
        have "fden dv G x = None" using noG by (intro fden_not_routed) (auto simp: not_le)
        moreover have "x \<notin> key ` fmkeys A"
        proof
          assume "x \<in> key ` fmkeys A"
          then obtain a where "a \<in> set A" "x \<in> key ` mkeys (fst (snd a))" by auto
          then have "a \<in> set A" "x \<in> tkeys (fst (snd a))" by (auto simp: tkeys_def)
          then show False using m(5)[of a] True by (auto simp: before_def)
        qed
        ultimately show ?thesis using noG True G[of x] by (simp add: L R fden_outside)
      next
        case False
        then have "msgs_for elts x = []" using in_child_msgs[OF elts, of x] by (simp add: not_le)
        then show ?thesis using noG False by (simp add: L R)
      qed
    qed
  qed
qed

text \<open>A child and the buffer of its parent: the messages that are for the child.\<close>

lemma for_child_iff:
  assumes "map_ok B"
  shows "for_child k B e \<longleftrightarrow> in_child k B {key (fst e)}"
proof (cases B)
  case (Cons b B')
  then have "fst b \<le> fst b'" if "b' \<in> set B" for b' using map_ok_hd_le[OF assms that] by simp
  then show ?thesis using Cons by (auto simp: for_child_def in_child_def intro: less_le_trans)
qed (auto simp: for_child_def in_child_def)

lemma for_child_key: "map_ok B \<Longrightarrow> for_child k B = (\<lambda>e. in_child k B {key (fst e)})"
  by (simp add: for_child_iff fun_eq_iff)

lemma in_child_insert: "in_child k B (insert x K) \<longleftrightarrow> in_child k B {x} \<and> in_child k B K"
  by (auto simp: in_child_def)

lemma in_child_all: "in_child k B K \<longleftrightarrow> (\<forall>x\<in>K. in_child k B {x})"
  by (auto simp: in_child_def)

lemma msgs_for_child:
  assumes "map_ok B"
  shows "msgs_for (filter (for_child k B) es) x = (if in_child k B {x} then msgs_for es x else [])"
    and "msgs_for (filter (\<lambda>e. \<not> for_child k B e) es) x = (if in_child k B {x} then [] else msgs_for es x)"
  using msgs_for_filter_key[of "\<lambda>y. in_child k B {y}" es x]
    msgs_for_filter_key[of "\<lambda>y. \<not> in_child k B {y}" es x]
  by (simp_all add: for_child_key[OF assms])

lemma buf_ok_filter_key:
  fixes es :: "('k :: linorder, 'v) message_map"
  assumes "buf_ok leaf es"
  shows "buf_ok leaf (filter (\<lambda>e. P (key (fst e))) es)"
proof -
  have "leaf_shape ([] :: 'v message list)" and "msg_shape ([] :: 'v message list)"
    by (simp_all add: leaf_shape_def msg_shape_def)
  then show ?thesis using assms by (simp add: buf_ok_def map_ok_filter msgs_for_filter_key)
qed

text \<open>Taking the messages of one child out of the buffer.\<close>

lemma take_out:
  assumes ok: "tree_ok (Suc d) (PTree p (A @ (k, t, n) # B) es)"
  defines "es' \<equiv> filter (\<lambda>e. \<not> for_child k B e) es" and "ce \<equiv> filter (for_child k B) es"
  shows "tree_ok (Suc d) (PTree p (A @ (k, t, n) # B) es')"
    and "den dv (PTree p (A @ (k, t, n) # B) es) x
         = apply_msgs dv (den dv (PTree p (A @ (k, t, n) # B) es') x) (msgs_for ce x)"
    and "in_child k B (key ` fst ` set ce)" and "filter (for_child k B) es' = []"
    and "map_ok ce" and "\<forall>e\<in>set ce. known_opcode (snd e)" and "older (mkeys t) ce"
proof -
  have B: "map_ok B"
    using ok by (auto simp: tree_ok_Suc map_ok_append map_ok_Cons dest!: forest_map_ok)
  have buf: "buf_ok False es" using ok by (simp add: tree_ok_Suc)
  have "buf_ok False es'"
    unfolding es'_def for_child_key[OF B] by (rule buf_ok_filter_key[OF buf])
  then show "tree_ok (Suc d) (PTree p (A @ (k, t, n) # B) es')"
    using ok by (auto simp: tree_ok_Suc es'_def older_def)
  show "den dv (PTree p (A @ (k, t, n) # B) es) x
         = apply_msgs dv (den dv (PTree p (A @ (k, t, n) # B) es') x) (msgs_for ce x)"
    by (simp add: den_PTree es'_def ce_def msgs_for_child[OF B])
  show "in_child k B (key ` fst ` set ce)"
    by (subst in_child_all) (auto simp: ce_def for_child_key[OF B])
  show "filter (for_child k B) es' = []" by (simp add: es'_def)
  show "map_ok ce" using buf by (simp add: ce_def buf_ok_def map_ok_filter)
  show "\<forall>e\<in>set ce. known_opcode (snd e)" using known_in_buffer[OF buf] by (auto simp: ce_def)
  show "older (mkeys t) ce" using ok by (auto simp: tree_ok_Suc older_def ce_def)
qed

text \<open>
  A child of a node whose buffer holds nothing for it has taken the messages \<open>elts\<close> and become
  the trees \<open>G\<close>: the node with \<open>G\<close> in its place has taken the messages.
\<close>

lemma child_replaced:
  assumes ok: "tree_ok (Suc d) (PTree p (A @ (k, t, n) # B) es)" and none: "filter (for_child k B) es = []"
    and G: "forest_ok d G" "G \<noteq> []" "\<And>x. fden dv G x = apply_msgs dv (den dv t x) (msgs_for elts x)"
    and keys: "fst ` set G \<union> ftkeys G \<subseteq> insert k (tkeys t \<union> key ` fst ` set elts)"
    and mkeys: "fmkeys G \<subseteq> mkeys t \<union> fst ` set elts"
    and elts: "in_child k B (key ` fst ` set elts)"
  shows "tree_ok (Suc d) (PTree p (A @ G @ B) es)" and "in_child k B (fst ` set G \<union> ftkeys G)"
    and "den dv (PTree p (A @ G @ B) es) x
         = apply_msgs dv (den dv (PTree p (A @ (k, t, n) # B) es) x) (msgs_for elts x)"
proof -
  have F: "forest_ok d (A @ (k, t, n) # B)" using ok by (simp add: tree_ok_Suc)
  note m = forest_middle[OF F]
  have B: "map_ok B" using m(2) by (rule forest_map_ok)
  have "in_child k B {k}" using m(6) by (simp add: in_child_def)
  then have "in_child k B (insert k (tkeys t \<union> key ` fst ` set elts))"
    using m(4) elts unfolding in_child_def by blast
  then show Gk: "in_child k B (fst ` set G \<union> ftkeys G)" by (rule in_child_mono[OF _ keys])
  have outside: "\<not> in_child k B {key (fst e)}" if "e \<in> set es" for e
    using none that by (simp add: filter_empty_conv for_child_key[OF B])
  have es: "msgs_for es x = []" if "in_child k B {x}" for x
    using outside that by (intro msgs_for_NilI) auto
  have elts': "msgs_for elts x = []" if "\<not> in_child k B {x}" for x
    using elts that by (intro msgs_for_NilI) (auto simp: in_child_def)
  show "den dv (PTree p (A @ G @ B) es) x
         = apply_msgs dv (den dv (PTree p (A @ (k, t, n) # B) es) x) (msgs_for elts x)"
    using es[of x] elts'[of x] fden_replace[OF F Gk elts G(3)]
    by (cases "in_child k B {x}") (simp_all add: den_PTree)
  have first: "fst (hd (A @ G @ B)) \<le> key (fst e)" if e: "e \<in> set es" for e
  proof (cases A)
    case Nil
    have "k \<le> key (fst e)" using ok e Nil by (auto simp: tree_ok_Suc)
    then obtain b where b: "b \<in> set B" "fst b \<le> key (fst e)"
      using outside[OF e] by (auto simp: in_child_def not_less)
    have "fst (hd G) \<in> fst ` set G" using G(2) by simp
    then have "fst (hd G) < fst b" using Gk b(1) by (auto simp: in_child_def)
    then show ?thesis using Nil b(2) G(2) by simp
  next
    case (Cons a A')
    then show ?thesis using ok e by (auto simp: tree_ok_Suc)
  qed
  have "older (fmkeys (A @ G @ B)) es"
  proof -
    have old: "older (fmkeys (A @ (k, t, n) # B)) es" using ok by (simp add: tree_ok_Suc)
    have "older (fst ` set elts) es"
    proof (rule older_disjoint)
      fix mk e assume mk: "mk \<in> fst ` set elts" and e: "e \<in> set es"
      have "in_child k B {key mk}" using elts mk by (subst (asm) in_child_all) auto
      then show "key (fst e) \<noteq> key mk" using outside[OF e] by auto
    qed
    moreover have "older (fmkeys A) es" "older (mkeys t) es" "older (fmkeys B) es"
      using old by (auto simp: older_def)
    ultimately have "older (fmkeys A \<union> (mkeys t \<union> fst ` set elts) \<union> fmkeys B) es"
      by (simp add: older_Un)
    then show ?thesis by (rule older_mono) (use mkeys in auto)
  qed
  then show "tree_ok (Suc d) (PTree p (A @ G @ B) es)"
    using ok forest_replace[OF F G(1) Gk] first G(2) by (simp add: tree_ok_Suc)
qed

subsection \<open>Dirty children and the buffer\<close>

text \<open>The child a key goes to.\<close>

definition owns :: "('k :: linorder \<times> 'c) list \<Rightarrow> 'k \<times> 'c \<Rightarrow> 'k \<Rightarrow> bool" where
  "owns F c x \<longleftrightarrow> fst c \<le> x \<and> (\<forall>c'\<in>set F. fst c' \<le> x \<longrightarrow> fst c' \<le> fst c)"

lemma owns_in_child:
  assumes "map_ok (A @ c # B)"
  shows "owns (A @ c # B) c x \<longleftrightarrow> in_child (fst c) B {x}"
proof -
  have lt: "\<forall>a\<in>set A. fst a < fst c" and gt: "\<forall>b\<in>set B. fst c < fst b"
    using assms by (auto simp: map_ok_append map_ok_Cons)
  have "(\<forall>c'\<in>set (A @ c # B). fst c' \<le> x \<longrightarrow> fst c' \<le> fst c) \<longleftrightarrow> (\<forall>b\<in>set B. x < fst b)"
  proof (intro iffI ballI impI)
    fix b assume l: "\<forall>c'\<in>set (A @ c # B). fst c' \<le> x \<longrightarrow> fst c' \<le> fst c" and b: "b \<in> set B"
    have "fst b \<le> x \<longrightarrow> fst b \<le> fst c" using l b by simp
    moreover have "fst c < fst b" using gt b by simp
    ultimately show "x < fst b" by (meson leD leI)
  next
    fix c' assume r: "\<forall>b\<in>set B. x < fst b" and c': "c' \<in> set (A @ c # B)" "fst c' \<le> x"
    consider "c' \<in> set A" | "c' = c" | "c' \<in> set B" using c'(1) by auto
    then show "fst c' \<le> fst c"
      by cases (use lt r c'(2) in \<open>auto simp: less_imp_le\<close>)
  qed
  then show ?thesis by (simp add: owns_def in_child_def)
qed

lemma clean_ok_owns:
  assumes F: "map_ok F"
  shows "clean_ok D (PTree p F es) \<longleftrightarrow>
     (\<forall>e\<in>set es. \<forall>c\<in>set F. owns F c (key (fst e)) \<longrightarrow> \<not> D (ptr (fst (snd c)))) \<and> fclean D F"
proof -
  have iff: "for_child (fst c) B e \<longleftrightarrow> owns F c (key (fst e))" if "F = A @ c # B" for A c B e
  proof -
    have "map_ok (A @ c # B)" using F that by simp
    moreover from this have "map_ok B" by (simp add: map_ok_append map_ok_Cons)
    ultimately show ?thesis by (simp add: that owns_in_child for_child_iff)
  qed
  have "(\<forall>A c B. F = A @ c # B \<longrightarrow> D (ptr (fst (snd c))) \<longrightarrow> filter (for_child (fst c) B) es = []) \<longleftrightarrow>
     (\<forall>e\<in>set es. \<forall>c\<in>set F. owns F c (key (fst e)) \<longrightarrow> \<not> D (ptr (fst (snd c))))" (is "?l \<longleftrightarrow> ?r")
  proof
    assume l: ?l
    show ?r
    proof (intro ballI impI notI)
      fix e c assume e: "e \<in> set es" and c: "c \<in> set F" "owns F c (key (fst e))" "D (ptr (fst (snd c)))"
      obtain A B where "F = A @ c # B" using c(1) by (meson split_list)
      with l c e iff[OF this, of e] show False by (fastforce simp: filter_empty_conv)
    qed
  next
    assume r: ?r
    show ?l
    proof (intro allI impI)
      fix A c B assume "F = A @ c # B" and "D (ptr (fst (snd c)))"
      with r iff show "filter (for_child (fst c) B) es = []"
        unfolding filter_empty_conv by (metis in_set_conv_decomp)
    qed
  qed
  then show ?thesis by (simp add: fclean_def)
qed

lemma clean_replaced:
  assumes F: "map_ok (A @ (k, t, n) # B)" and F': "map_ok (A @ G @ B)"
    and clean: "\<And>e c. e \<in> set es \<Longrightarrow> c \<in> set A \<union> set B \<Longrightarrow> owns (A @ (k, t, n) # B) c (key (fst e)) \<Longrightarrow>
      \<not> D (ptr (fst (snd c)))"
    and none: "filter (for_child k B) es = []" and keys: "in_child k B (fst ` set G)"
    and sub: "fclean D A" "fclean D G" "fclean D B"
  shows "clean_ok D (PTree p (A @ G @ B) es)"
proof -
  have B: "map_ok B" using F by (simp add: map_ok_append map_ok_Cons)
  have "\<not> D (ptr (fst (snd c)))"
    if e: "e \<in> set es" and c: "c \<in> set (A @ G @ B)" "owns (A @ G @ B) c (key (fst e))" for e c
  proof -
    let ?x = "key (fst e)"
    have out: "\<not> in_child k B {?x}" using none e by (simp add: filter_empty_conv for_child_key[OF B])
    have le: "fst c \<le> ?x" and max: "\<And>c'. c' \<in> set (A @ G @ B) \<Longrightarrow> fst c' \<le> ?x \<Longrightarrow> fst c' \<le> fst c"
      using c(2) by (auto simp: owns_def)
    consider "c \<in> set A" | "c \<in> set G" | "c \<in> set B" using c(1) by auto
    then show ?thesis
    proof cases
      case 1
      then have lt: "fst c < k" "\<And>b. b \<in> set B \<Longrightarrow> fst c < fst b" using F by (auto simp: map_ok_append)
      have "\<not> k \<le> ?x"
      proof
        assume "k \<le> ?x"
        then obtain b where "b \<in> set B" "fst b \<le> ?x" using out by (auto simp: in_child_def not_less)
        then show False using max[of b] lt(2)[of b] by auto
      qed
      then have "owns (A @ (k, t, n) # B) c ?x" using le max by (auto simp: owns_def)
      then show ?thesis using clean[OF e] 1 by blast
    next
      case 2
      then have k: "k \<le> fst c" "\<And>b. b \<in> set B \<Longrightarrow> fst c < fst b" using keys by (auto simp: in_child_def)
      then obtain b where "b \<in> set B" "fst b \<le> ?x" using out le by (auto simp: in_child_def not_less)
      then show ?thesis using max[of b] k(2)[of b] by auto
    next
      case 3
      then have "k < fst c" using F by (auto simp: map_ok_append map_ok_Cons)
      then have "owns (A @ (k, t, n) # B) c ?x" using le max by (auto simp: owns_def)
      then show ?thesis using clean[OF e] 3 by blast
    qed
  qed
  then show ?thesis using sub unfolding clean_ok_owns[OF F'] by simp
qed

declare clean_ok.simps [simp del]

subsection \<open>Lowering the first pivot and adding messages\<close>

lemma lower_first:
  fixes k k' :: "'k :: linorder" and t :: "('p, 'k, 'v :: plus) ptree"
  assumes ok: "tree_ok (Suc d) (PTree p ((k, t, n) # F) es)"
  defines "T' \<equiv> PTree p ((min k' k, t, n) # F) es"
  shows "tree_ok (Suc d) T'" and "den dv T' = den dv (PTree p ((k, t, n) # F) es)"
    and "tkeys T' \<subseteq> insert k' (tkeys (PTree p ((k, t, n) # F) es))"
    and "clean_ok D (PTree p ((k, t, n) # F) es) \<Longrightarrow> clean_ok D T'"
proof -
  have F: "forest_ok d ((k, t, n) # F)" and es: "\<forall>e\<in>set es. k \<le> key (fst e)"
    using ok by (auto simp: tree_ok_Suc)
  have F': "forest_ok d ((min k' k, t, n) # F)"
    using F by (auto simp: forest_ok_Cons in_range_def before_def min_def)
  show "tree_ok (Suc d) T'"
    using ok F' by (auto simp: tree_ok_Suc T'_def min_def)
  have "fden dv ((min k' k, t, n) # F) x = fden dv ((k, t, n) # F) x" for x
  proof (cases "k \<le> x")
    case True
    then show ?thesis by (simp add: fden_Cons min_le_iff_disj)
  next
    case False
    then have "x \<notin> key ` mkeys t" using F by (auto simp: forest_ok_Cons in_range_def tkeys_def)
    then show ?thesis by (simp add: fden_Cons den_outside)
  qed
  then show "den dv T' = den dv (PTree p ((k, t, n) # F) es)" by (auto simp: T'_def den_PTree)
  show "tkeys T' \<subseteq> insert k' (tkeys (PTree p ((k, t, n) # F) es))"
    by (auto simp: T'_def tkeys_PTree min_def)
  assume "clean_ok D (PTree p ((k, t, n) # F) es)"
  then have c: "\<And>e c. e \<in> set es \<Longrightarrow> c \<in> set ((k, t, n) # F) \<Longrightarrow> owns ((k, t, n) # F) c (key (fst e)) \<Longrightarrow>
      \<not> D (ptr (fst (snd c)))" and s: "fclean D ((k, t, n) # F)"
    unfolding clean_ok_owns[OF forest_map_ok[OF F]] by blast+
  have "\<not> D (ptr (fst (snd c)))" if e: "e \<in> set es" and "c \<in> set ((min k' k, t, n) # F)"
    and o: "owns ((min k' k, t, n) # F) c (key (fst e))" for e c
  proof (cases "c \<in> set F")
    case True
    then have "k < fst c" using F by (auto simp: forest_ok_Cons before_def)
    then have "owns ((k, t, n) # F) c (key (fst e))" using o by (auto simp: owns_def)
    then show ?thesis using c[OF e, of c] True by simp
  next
    case False
    then have "c = (min k' k, t, n)" using that by simp
    moreover have "owns ((k, t, n) # F) (k, t, n) (key (fst e))"
      using o es e calculation F by (auto simp: owns_def forest_ok_Cons before_def)
    ultimately show ?thesis using c[OF e, of "(k, t, n)"] by simp
  qed
  then show "clean_ok D T'"
    using s unfolding T'_def clean_ok_owns[OF forest_map_ok[OF F']] by simp
qed

lemma Un_frame: "A \<subseteq> B \<union> C \<Longrightarrow> A \<union> X \<union> Y \<subseteq> B \<union> X \<union> Y \<union> C"
  by auto

lemma add_messages:
  assumes ok: "tree_ok d (PTree p F es)" and buf: "buf_ok (F = []) es'"
    and keys: "fst ` set es' \<subseteq> fst ` set es \<union> fst ` set elts"
    and msgs: "\<And>b x. (F = [] \<longrightarrow> b = None) \<Longrightarrow>
       apply_msgs dv b (msgs_for es' x) = apply_msgs dv (apply_msgs dv b (msgs_for es x)) (msgs_for elts x)"
    and old: "older (mkeys (PTree p F es)) elts"
    and first: "F \<noteq> [] \<Longrightarrow> \<forall>e\<in>set elts. fst (hd F) \<le> key (fst e)"
  shows "tree_ok d (PTree p F es')"
    and "den dv (PTree p F es') x = apply_msgs dv (den dv (PTree p F es) x) (msgs_for elts x)"
    and "mkeys (PTree p F es') \<subseteq> mkeys (PTree p F es) \<union> fst ` set elts"
    and "tkeys (PTree p F es') \<subseteq> tkeys (PTree p F es) \<union> key ` fst ` set elts"
proof -
  show "den dv (PTree p F es') x = apply_msgs dv (den dv (PTree p F es) x) (msgs_for elts x)"
    by (simp add: den_PTree msgs)
  show "mkeys (PTree p F es') \<subseteq> mkeys (PTree p F es) \<union> fst ` set elts" using keys by auto
  have "key ` fst ` set es' \<subseteq> key ` fst ` set es \<union> key ` fst ` set elts"
    using image_mono[OF keys, of key] by (simp add: image_Un)
  then show "tkeys (PTree p F es') \<subseteq> tkeys (PTree p F es) \<union> key ` fst ` set elts"
    unfolding tkeys_PTree by (rule Un_frame)
  show "tree_ok d (PTree p F es')"
  proof (cases d)
    case 0
    then show ?thesis using ok buf by simp
  next
    case (Suc d')
    have "older (fmkeys F) es" "older (fmkeys F) elts" using ok old Suc by (auto simp: tree_ok_Suc older_def)
    then have "older (fmkeys F) es'" using keys by (fastforce simp: older_def)
    moreover have "fst (hd F) \<le> key (fst e)" if "e \<in> set es'" for e
    proof -
      have "fst e \<in> fst ` set es \<union> fst ` set elts" using keys that by auto
      then show ?thesis using ok first Suc by (auto simp: tree_ok_Suc)
    qed
    ultimately show ?thesis using ok buf Suc by (auto simp: tree_ok_Suc)
  qed
qed

end
