(* ===== verification/Betree_Flush.thy ===== *)
theory Betree_Flush
  imports Betree_Replace
begin

text \<open>
  \<open>node::flush\<close> in the swap space.  A flush gives a tree the messages it is called with: either
  the tree stays at its pointer, or it has been split and the result lists the trees it has
  become.  In both cases the map they stand for is the old map with the messages applied, the
  invariant holds, nothing else in the swap space has changed, and no node has been leaked.

  \<open>quiet\<close> marks the runs in which the tree only ever gets single messages and never has enough
  of them to flush a batch down; in these no assertion of \<open>flush\<close> can fail.  In the others two
  failures remain, the assertion of line 466 and the iterator of line 513.
\<close>

subsection \<open>What a call leaves behind\<close>

context node_store
begin

definition frame :: "'s \<Rightarrow> 's \<Rightarrow> ('p, 'k, 'v) ptree \<Rightarrow> 'p list \<Rightarrow> bool" where
  "frame s s' T ps \<longleftrightarrow> same_pins s s' \<and> distinct ps \<and> set ps \<inter> dom (view s) \<subseteq> set (ptrs T) \<and>
     (\<forall>x\<in>dom (view s) - set (ptrs T). view s' x = view s x) \<and>
     dom (view s') = dom (view s) - set (ptrs T) \<union> set ps"

definition no_new_dirt :: "'s \<Rightarrow> 's \<Rightarrow> ('p, 'k, 'v) ptree \<Rightarrow> bool" where
  "no_new_dirt s s' T \<longleftrightarrow> (\<forall>q\<in>dom (view s) - set (ptrs T). ss_is_dirty ops q s' \<longrightarrow> ss_is_dirty ops q s)"

definition taken :: "'v \<Rightarrow> ('k, 'v) message_map \<Rightarrow> ('k \<Rightarrow> 'v option) \<Rightarrow> ('k \<Rightarrow> 'v option) \<Rightarrow> bool" where
  "taken dv elts f g \<longleftrightarrow> (\<forall>x. g x = apply_msgs dv (f x) (msgs_for elts x))"

text \<open>\<open>M\<close> holds the keys of the messages on their way into the tree.\<close>

definition stays :: "bool \<Rightarrow> nat \<Rightarrow> 'v \<Rightarrow> 'k message_key set \<Rightarrow> ('p, 'k, 'v) ptree \<Rightarrow> ('k, 'v) message_map
    \<Rightarrow> 's \<Rightarrow> ('p, 'k, 'v) ptree \<Rightarrow> 's \<Rightarrow> bool" where
  "stays quiet d dv M T elts s T' s' \<longleftrightarrow> ptr T' = ptr T \<and> rep (view s') T' \<and> tree_ok d T' \<and>
     taken dv elts (den dv T) (den dv T') \<and> mkeys T' \<subseteq> mkeys T \<union> M \<and> tkeys T' \<subseteq> tkeys T \<union> key ` M \<and>
     frame s s' T (ptrs T') \<and>
     (quiet \<longrightarrow> clean_ok (\<lambda>q. ss_is_dirty ops q s') T' \<and> no_new_dirt s s' T)"

definition splits :: "bool \<Rightarrow> nat \<Rightarrow> 'v \<Rightarrow> 'k message_key set \<Rightarrow> ('p, 'k, 'v) ptree \<Rightarrow> ('k, 'v) message_map
    \<Rightarrow> 's \<Rightarrow> ('p, 'k, 'v) forest \<Rightarrow> 's \<Rightarrow> bool" where
  "splits quiet d dv M T elts s G s' \<longleftrightarrow> G \<noteq> [] \<and> frep (view s') G \<and> forest_ok d G \<and>
     taken dv elts (den dv T) (fden dv G) \<and> fmkeys G \<subseteq> mkeys T \<union> M \<and>
     fst ` set G \<union> ftkeys G \<subseteq> tkeys T \<union> key ` M \<and>
     frame s s' T (ptr T # fptrs G) \<and> view s' (ptr T) = Some new_node \<and>
     (quiet \<longrightarrow> fclean (\<lambda>q. ss_is_dirty ops q s') G \<and> no_new_dirt s s' T)"

definition flush_result :: "bool \<Rightarrow> nat \<Rightarrow> 'v \<Rightarrow> 'k message_key set \<Rightarrow> ('p, 'k, 'v) ptree \<Rightarrow> ('k, 'v) message_map
    \<Rightarrow> 's \<Rightarrow> ('k, 'p) pivot_map \<times> 's \<Rightarrow> bool" where
  "flush_result quiet d dv M T elts s r \<longleftrightarrow> (case r of (res, s') \<Rightarrow>
     (res = [] \<and> (\<exists>T'. stays quiet d dv M T elts s T' s')) \<or>
     (\<exists>G. res = pivot_table G \<and> splits quiet d dv M T elts s G s'))"

lemma frameD:
  assumes "frame s s' T ps"
  shows "same_pins s s'" and "distinct ps" and "set ps \<inter> dom (view s) \<subseteq> set (ptrs T)"
    and "\<forall>x\<in>dom (view s) - set (ptrs T). view s' x = view s x"
    and "dom (view s') = dom (view s) - set (ptrs T) \<union> set ps"
  using assms unfolding frame_def by - (elim conjE, assumption)+

lemma frame_trans:
  assumes 1: "frame s s1 T (ptrs T1)" and 2: "frame s1 s2 T1 ps"
  shows "frame s s2 T ps"
proof -
  note f = frameD[OF 1] and g = frameD[OF 2]
  have rest: "dom (view s1) - set (ptrs T1) = dom (view s) - set (ptrs T)"
    using f(3,5) by blast
  have "set ps \<inter> dom (view s) \<subseteq> set (ptrs T)"
    using g(3) rest by blast
  moreover have "\<forall>x\<in>dom (view s) - set (ptrs T). view s2 x = view s x"
    using f(4) g(4) unfolding rest by simp
  moreover have "dom (view s2) = dom (view s) - set (ptrs T) \<union> set ps"
    using g(5) unfolding rest .
  ultimately show ?thesis
    using same_pins_trans[OF f(1) g(1)] g(2) unfolding frame_def by blast
qed

lemma no_new_dirt_trans:
  assumes "no_new_dirt s s1 T" and "no_new_dirt s1 s2 T1" and f: "frame s s1 T (ptrs T1)"
  shows "no_new_dirt s s2 T"
proof -
  have "q \<in> dom (view s1) - set (ptrs T1)" if "q \<in> dom (view s) - set (ptrs T)" for q
    using that f unfolding frame_def by blast
  then show ?thesis using assms(1,2) unfolding no_new_dirt_def by blast
qed

lemma taken_trans: "taken dv e1 f g \<Longrightarrow> taken dv e2 g h \<Longrightarrow> taken dv (e1 @ e2) f h"
  by (simp add: taken_def)

lemma subset_Un_trans: "A \<subseteq> B \<union> C \<Longrightarrow> B \<subseteq> D \<union> C \<Longrightarrow> A \<subseteq> D \<union> C"
  by blast

lemma stays_trans:
  assumes 1: "stays quiet d dv M T e1 s T1 s1" and 2: "stays quiet d dv M T1 e2 s1 T2 s2"
  shows "stays quiet d dv M T (e1 @ e2) s T2 s2"
proof -
  have "ptr T2 = ptr T" using 1 2 by (simp add: stays_def)
  then show ?thesis
    using 1 2 unfolding stays_def
    by (meson frame_trans no_new_dirt_trans taken_trans subset_Un_trans)
qed

lemma stays_splits:
  assumes 1: "stays quiet d dv M T e1 s T1 s1" and 2: "splits quiet d dv M T1 e2 s1 G s2"
  shows "splits quiet d dv M T (e1 @ e2) s G s2"
proof -
  have p: "ptr T1 = ptr T" using 1 by (simp add: stays_def)
  show ?thesis
    using 1 2 unfolding stays_def splits_def p
    by (meson frame_trans no_new_dirt_trans taken_trans subset_Un_trans)
qed

lemma rep_dom: "rep v T \<Longrightarrow> set (ptrs T) \<subseteq> dom v"
  using rep_live by fastforce

lemma set_ptrs: "set (ptrs T) = insert (ptr T) (set (fptrs (kids T)))"
  by (cases T) simp

lemma split_post_splits:
  assumes sp: "split_post d dv T s G s'" and rep: "rep (view s) T"
    and clean: "quiet \<Longrightarrow> clean_ok (\<lambda>q. ss_is_dirty ops q s) T"
  shows "splits quiet d dv M T [] s G s'"
proof -
  have G: "G \<noteq> []" "forest_ok d G" "fden dv G = den dv T" "fmkeys G \<subseteq> mkeys T"
    "fst ` set G \<union> ftkeys G \<subseteq> tkeys T" "\<forall>D. clean_ok D T \<longrightarrow> fclean D G"
    and ps: "distinct (ptr T # fptrs G)" "set (fptrs G) \<inter> dom (view s) \<subseteq> set (ptrs T)"
    and s': "frep (view s') G" "view s' (ptr T) = Some new_node"
      "\<forall>x\<in>dom (view s) - {ptr T}. view s' x = view s x"
      "dom (view s') = dom (view s) \<union> set (roots G)" "keeps (- dom (view s)) s s'"
    and fp: "set (fptrs G) = set (roots G) \<union> set (fptrs (kids T))"
    using sp unfolding split_post_def by - (elim conjE, assumption)+
  have live: "set (ptrs T) \<subseteq> dom (view s)" by (rule rep_dom[OF rep])
  have "frame s s' T (ptr T # fptrs G)"
    unfolding frame_def
  proof (intro conjI)
    show "same_pins s s'" using s'(5) by (simp add: keeps_def)
    show "set (ptr T # fptrs G) \<inter> dom (view s) \<subseteq> set (ptrs T)" 
      using ps(2) ptr_in_ptrs[of T] unfolding list.set by blast
    show "\<forall>x\<in>dom (view s) - set (ptrs T). view s' x = view s x" using s'(3) ptr_in_ptrs[of T] by blast
    show "dom (view s') = dom (view s) - set (ptrs T) \<union> set (ptr T # fptrs G)"
      using s'(4) fp live unfolding set_ptrs[of T] list.set by blast
  qed (rule ps(1))
  moreover have "fclean (\<lambda>q. ss_is_dirty ops q s') G \<and> no_new_dirt s s' T" if quiet
  proof
    have "clean_ok (\<lambda>q. ss_is_dirty ops q s') T"
      by (rule clean_ok_mono[OF clean[OF that]]) (use live keepsD(4)[OF s'(5)] in blast)
    then show "fclean (\<lambda>q. ss_is_dirty ops q s') G" using G(6) by blast
    show "no_new_dirt s s' T" using keepsD(4)[OF s'(5)] unfolding no_new_dirt_def by blast
  qed
  moreover have "taken dv [] (den dv T) (fden dv G)" by (simp add: taken_def G(3))
  ultimately show ?thesis unfolding splits_def using G s' by blast
qed

text \<open>An assignment to a node that keeps its children.\<close>

definition same_kids :: "('p, 'k, 'v) ptree \<Rightarrow> ('p, 'k, 'v) ptree \<Rightarrow> bool" where
  "same_kids T T' \<longleftrightarrow> ptr T' = ptr T \<and> map (fst \<circ> snd) (kids T') = map (fst \<circ> snd) (kids T)"

lemma fptrs_conv: "fptrs F = concat (map ptrs (map (fst \<circ> snd) F))"
  by (simp add: split_def comp_def)

lemma frep_conv: "frep v F = list_all (rep v) (map (fst \<circ> snd) F)"
  by (induction F) auto

lemma same_kids_ptrs: "same_kids T T' \<Longrightarrow> ptrs T' = ptrs T"
  by (cases T; cases T') (simp only: same_kids_def ptree.sel ptrs.simps fptrs_conv)

lemma store_tree:
  assumes s: "sinv s" "pins s (ptr T) > 0" "ss_is_dirty ops (ptr T) s"
    and rep: "rep (view s) T" and dist: "distinct (ptrs T)" and ok: "tree_ok d T'" and same: "same_kids T T'"
  defines "s' \<equiv> ss_store ops (ptr T) (node_of T') s"
  shows "view s' = (view s)(ptr T \<mapsto> node_of T')" and "same_pins s s'" and "rep (view s') T'"
    and "\<And>q. ss_is_dirty ops q s' = ss_is_dirty ops q s"
proof -
  have F: "frep (view s) (kids T')" and p: "ptr T' = ptr T"
    using rep_iff[THEN iffD1, OF rep] same by (simp_all add: frep_conv same_kids_def)
  have ps: "ptrs T' = ptrs T" by (rule same_kids_ptrs[OF same])
  have "view s q \<noteq> None" if "q \<in> set (node_refs (node_of T'))" for q
  proof -
    have "q \<in> set (ptrs T)" using that node_refs_node_of[of T'] ps by auto
    then show ?thesis using rep_live[OF rep] by blast
  qed
  then have st: "sinv s' \<and> view s' = (view s)(ptr T \<mapsto> node_of T') \<and> pins s' = pins s \<and>
      (\<forall>q. ss_is_dirty ops q s' = ss_is_dirty ops q s)"
    unfolding s'_def using s storable_node[OF node_fit_node_of[OF ok]] by (intro store_spec) auto
  then show v: "view s' = (view s)(ptr T \<mapsto> node_of T')" and "same_pins s s'"
    and "\<And>q. ss_is_dirty ops q s' = ss_is_dirty ops q s"
    by (simp_all add: same_pins_def)
  have "ptr T \<notin> set (fptrs (kids T'))" using dist p unfolding ps[symmetric] by (cases T') simp
  then have "frep (view s') (kids T')" by (intro frep_cong[OF F]) (auto simp: v)
  then show "rep (view s') T'" using v p by (intro rep_iff[THEN iffD2]) simp
qed

lemma stays_store:
  assumes s: "sinv s" "pins s (ptr T) > 0" "ss_is_dirty ops (ptr T) s"
    and rep: "rep (view s) T" and dist: "distinct (ptrs T)" and ok: "tree_ok d T'" and same: "same_kids T T'"
    and T': "taken dv elts (den dv T) (den dv T')" "mkeys T' \<subseteq> mkeys T \<union> M" "tkeys T' \<subseteq> tkeys T \<union> key ` M"
    and clean: "quiet \<Longrightarrow> clean_ok (\<lambda>q. ss_is_dirty ops q s) T'"
  shows "stays quiet d dv M T elts s T' (ss_store ops (ptr T) (node_of T') s)"
proof -
  note st = store_tree[OF s rep dist ok same]
  have ps: "ptrs T' = ptrs T" by (rule same_kids_ptrs[OF same])
  have live: "set (ptrs T) \<subseteq> dom (view s)" by (rule rep_dom[OF rep])
  have "frame s (ss_store ops (ptr T) (node_of T') s) T (ptrs T')"
    unfolding frame_def ps
  proof (intro conjI)
    show "\<forall>x\<in>dom (view s) - set (ptrs T). view (ss_store ops (ptr T) (node_of T') s) x = view s x"
      using ptr_in_ptrs[of T] by (auto simp: st(1))
    show "dom (view (ss_store ops (ptr T) (node_of T') s)) = dom (view s) - set (ptrs T) \<union> set (ptrs T)"
      using live ptr_in_ptrs[of T] by (auto simp: st(1))
  qed (use st(2) dist in auto)
  then show ?thesis
    using same ok T' clean st(3) unfolding stays_def
    by (simp add: same_kids_def st(4) no_new_dirt_def)
qed

subsection \<open>When a call may be made\<close>

text \<open>
  \<open>U\<close> is the set of all messages the tree was ever given; it bounds the size of every node.
\<close>

definition config_ok :: "bool \<Rightarrow> 'k message_key set \<Rightarrow> ('p, 'v) betree \<Rightarrow> bool" where
  "config_ok quiet U bet \<longleftrightarrow> finite U \<and> card U < 2 ^ 29 \<and> 3 \<le> max_node_size bet \<and>
     10 * max_node_size bet < 2 ^ 64 \<and> (quiet \<longrightarrow> 2 * card U \<le> min_flush_size bet)"

text \<open>Nothing outside a tree points into it, other than at its root.\<close>

definition owned :: "('p, 'k, 'v) ptree \<Rightarrow> 's \<Rightarrow> bool" where
  "owned T s \<longleftrightarrow> (\<forall>q m. q \<notin> set (ptrs T) \<longrightarrow> view s q = Some m \<longrightarrow> set (node_refs m) \<inter> set (ptrs T) \<subseteq> {ptr T})"

definition ready :: "bool \<Rightarrow> nat \<Rightarrow> 'k message_key set \<Rightarrow> ('p, 'k, 'v) ptree \<Rightarrow> 's \<Rightarrow> bool" where
  "ready quiet d U T s \<longleftrightarrow> tree_ok d T \<and> sinv s \<and> pins s (ptr T) > 0 \<and> ss_is_dirty ops (ptr T) s \<and>
     rep (view s) T \<and> distinct (ptrs T) \<and> (\<forall>q\<in>set (ptrs T). q \<noteq> ptr T \<longrightarrow> pins s q = 0) \<and>
     mkeys T \<subseteq> U \<and> tkeys T \<subseteq> key ` U \<and> (quiet \<longrightarrow> clean_ok (\<lambda>q. ss_is_dirty ops q s) T) \<and> owned T s"

definition msgs_ok :: "bool \<Rightarrow> 'k message_key set \<Rightarrow> ('p, 'k, 'v) ptree \<Rightarrow> ('k, 'v) message_map \<Rightarrow> bool" where
  "msgs_ok quiet U T elts \<longleftrightarrow> map_ok elts \<and> (\<forall>e\<in>set elts. known_opcode (snd e)) \<and> older (mkeys T) elts \<and>
     fst ` set elts \<subseteq> U \<and> (quiet \<longrightarrow> length elts \<le> 1)"

lemma readyD:
  assumes "ready quiet d U T s"
  shows "tree_ok d T" and "sinv s" and "pins s (ptr T) > 0" and "ss_is_dirty ops (ptr T) s"
    and "rep (view s) T" and "distinct (ptrs T)" and "\<forall>q\<in>set (ptrs T). q \<noteq> ptr T \<longrightarrow> pins s q = 0"
    and "mkeys T \<subseteq> U" and "tkeys T \<subseteq> key ` U"
    and "quiet \<longrightarrow> clean_ok (\<lambda>q. ss_is_dirty ops q s) T" and "owned T s"
  using assms unfolding ready_def by - (elim conjE, assumption)+

lemma ready_node: "ready quiet d U T s \<Longrightarrow> this_node ops (ptr T) s = Inr (node_of T)"
  using readyD(2,3)[of quiet d U T s] rep_iff[THEN iffD1, OF readyD(5)[of quiet d U T s]]
  by (simp add: this_node_eq)

lemma staysD:
  assumes "stays quiet d dv M T elts s T' s'"
  shows "ptr T' = ptr T" and "rep (view s') T'" and "tree_ok d T'" and "taken dv elts (den dv T) (den dv T')"
    and "mkeys T' \<subseteq> mkeys T \<union> M" and "tkeys T' \<subseteq> tkeys T \<union> key ` M" and "frame s s' T (ptrs T')"
    and "quiet \<longrightarrow> clean_ok (\<lambda>q. ss_is_dirty ops q s') T' \<and> no_new_dirt s s' T"
  using assms unfolding stays_def by - (elim conjE, assumption)+

lemma owned_frame:
  assumes o: "owned T s" and s: "sinv s" and fr: "frame s s' T (ptrs T')" and p: "ptr T' = ptr T"
  shows "owned T' s'"
  unfolding owned_def
proof (intro allI impI subsetI)
  note f = frameD[OF fr]
  fix q m r assume q: "q \<notin> set (ptrs T')" "view s' q = Some m" and r: "r \<in> set (node_refs m) \<inter> set (ptrs T')"
  have "q \<in> dom (view s')" using q(2) by blast
  then have old: "q \<in> dom (view s) - set (ptrs T)" using f(5) q(1) by blast
  then have m: "view s q = Some m" using f(4) q(2) by simp
  then have "r \<in> dom (view s)" using refs_live[OF s m, of r] r by blast
  then have "r \<in> set (node_refs m) \<inter> set (ptrs T)" using f(3) r by blast
  then have "r = ptr T" using o old m unfolding owned_def by blast
  then show "r \<in> {ptr T'}" using p by simp
qed

lemma owned_cong: "owned T s \<Longrightarrow> view s' = view s \<Longrightarrow> owned T s'"
  by (simp add: owned_def)

lemma stays_ready:
  assumes r: "ready quiet d U T s" and st: "stays quiet d' dv M T elts s T' s'" and M: "M \<subseteq> U"
  shows "ready quiet d' U T' s'"
proof -
  note T = readyD[OF r] and T' = staysD[OF st] and f = frameD[OF staysD(7)[OF st]]
  have pins: "pins s' = pins s" "sinv s'" using f(1) by (simp_all add: same_pins_def)
  have "pins s q = 0" if "q \<in> set (ptrs T')" "q \<noteq> ptr T'" for q
  proof (cases "q \<in> dom (view s)")
    case True
    then have "q \<in> set (ptrs T)" using that(1) f(3) by blast
    then show ?thesis using T(7) that(2) T'(1) by simp
  next
    case False
    then show ?thesis using unpinned[OF T(2), of q] by (simp add: domIff)
  qed
  moreover have "ss_is_dirty ops (ptr T') s'"
    using f(1) T(3,4) T'(1) by (simp add: same_pins_def)
  moreover have "mkeys T' \<subseteq> U" using T'(5) T(8) M by blast
  moreover have "tkeys T' \<subseteq> key ` U" using T'(6) T(9) M by blast
  ultimately show ?thesis
    unfolding ready_def using T(3) T' f(2) pins owned_frame[OF T(11,2) T'(7,1)] by auto
qed

lemma tree_small:
  assumes ok: "tree_ok d T" and keys: "mkeys T \<subseteq> U" "tkeys T \<subseteq> key ` U" and U: "finite U"
  shows "length (buf T) \<le> card U" and "node_size (node_of T) \<le> 2 * card U"
proof -
  obtain p F es where T: "T = PTree p F es" by (cases T)
  have fit: "map_ok es" "map_ok F" using node_fit_node_of[OF ok] by (simp_all add: T node_fit_def node_of_def)
  have "length (map fst es) \<le> card U"
    using map_ok_distinct[OF fit(1)] keys(1) U by (intro length_le_card) (auto simp: T)
  moreover have "length (map fst F) \<le> card (key ` U)"
    using map_ok_distinct[OF fit(2)] keys(2) U by (intro length_le_card) (auto simp: T tkeys_PTree)
  moreover have "card (key ` U) \<le> card U" by (rule card_image_le[OF U])
  ultimately show "length (buf T) \<le> card U" "node_size (node_of T) \<le> 2 * card U"
    by (simp_all add: T node_size_def node_of_def)
qed

lemma node_small:
  assumes r: "ready quiet d U T s" and U: "finite U"
  shows "length (buf T) \<le> card U" and "node_size (node_of T) \<le> 2 * card U"
  using tree_small[OF readyD(1,8,9)[OF r] U] by blast+

lemma wp_finish_split:
  assumes c: "config_ok quiet U bet" and r: "ready quiet d U T1 s1" and st: "stays quiet d dv M T elts s T1 s1"
    and size: "max_node_size bet \<le> node_size (node_of T1)"
  shows "wpE (node_split ops bet (ptr T) s1) swap_err (flush_result quiet d dv M T elts s)"
proof -
  note T1 = readyD[OF r]
  have c': "finite U" "card U < 2 ^ 29" "3 \<le> max_node_size bet" "10 * max_node_size bet < 2 ^ 64"
    using c by (simp_all add: config_ok_def)
  have "node_size (node_of T1) < 2 ^ 30" using node_small(2)[OF r c'(1)] c'(2) by simp
  then have "wpE (node_split ops bet (ptr T1) s1) swap_err (\<lambda>(res, s').
      \<exists>G. res = pivot_table G \<and> split_post d dv T1 s1 G s')"
    by (intro wp_node_split[OF T1(1-6) c'(3,4) size])
  then show ?thesis
    unfolding staysD(1)[OF st]
  proof (rule wpE_mono)
    fix x assume "case x of (res, s') \<Rightarrow> \<exists>G. res = pivot_table G \<and> split_post d dv T1 s1 G s'"
    then obtain G s' where x: "x = (pivot_table G, s')" and sp: "split_post d dv T1 s1 G s'" by (cases x) auto
    have "splits quiet d dv M T1 [] s1 G s'" using T1(10) by (intro split_post_splits[OF sp T1(5)]) blast
    from stays_splits[OF st this] show "flush_result quiet d dv M T elts s x"
      unfolding x flush_result_def by auto
  qed
qed

lemma wp_flush_leaf:
  assumes c: "config_ok quiet U bet" and r: "ready quiet 0 U T s" and m: "msgs_ok quiet U T elts"
  shows "wpE (flush_leaf ops bet (ptr T) elts s) swap_err
     (flush_result quiet 0 (default_value bet) (fst ` set elts) T elts s)"
proof -
  let ?d = "default_value bet"
  note r' = readyD[OF r]
  obtain p es where T: "T = PTree p [] es" using r'(1) by (cases T) auto
  let ?n = "node_of T"
  have n: "is_leaf ?n" "elements ?n = es" by (simp_all add: T node_of_def is_leaf_def)
  have m': "map_ok elts" "\<forall>e\<in>set elts. known_opcode (snd e)" "older (mkeys T) elts" "fst ` set elts \<subseteq> U"
    using m by (simp_all add: msgs_ok_def)
  have "buf_ok (is_leaf ?n) (elements ?n)" "older (fst ` set (elements ?n)) elts"
    using r'(1) m'(3) n by (simp_all add: T)
  from apply_all_msgs[OF this(1) m'(1,2) this(2), of ?d] obtain es' where
    all: "apply_all ?d ?n elts = Inr (?n\<lparr>elements := es'\<rparr>)" and buf: "buf_ok True es'"
    and keys: "fst ` set es' \<subseteq> fst ` set es \<union> fst ` set elts"
    and msgs: "\<And>b x. b = None \<Longrightarrow> apply_msgs ?d b (msgs_for es' x)
        = apply_msgs ?d (apply_msgs ?d b (msgs_for es x)) (msgs_for elts x)"
    unfolding n by (auto simp: n)
  let ?T = "PTree p [] es'"
  have n': "?n\<lparr>elements := es'\<rparr> = node_of ?T" by (simp add: T node_of_def)
  note add = add_messages[OF r'(1)[unfolded T], of es' elts ?d, OF _ keys _ m'(3)[unfolded T]]
  have st: "stays quiet 0 ?d (fst ` set elts) T elts s ?T (ss_store ops (ptr T) (node_of ?T) s)"
  proof (rule stays_store[OF r'(2-6)])
    show "tree_ok 0 ?T" using buf by simp
    show "same_kids T ?T" by (simp add: same_kids_def T)
    show "taken ?d elts (den ?d T) (den ?d ?T)" using add(2) buf msgs by (simp add: taken_def T)
    show "mkeys ?T \<subseteq> mkeys T \<union> fst ` set elts" "tkeys ?T \<subseteq> tkeys T \<union> key ` fst ` set elts"
      using add(3,4) buf msgs by (simp_all add: T)
    show "clean_ok (\<lambda>q. ss_is_dirty ops q s) ?T" by (simp add: clean_ok.simps)
  qed
  have r1: "ready quiet 0 U ?T (ss_store ops (ptr T) (node_of ?T) s)" by (rule stays_ready[OF r st m'(4)])
  show ?thesis
    using wp_finish_split[OF c r1 st] st
    by (auto simp: flush_leaf_def ready_node[OF r] all n' Let_def flush_result_def)
qed

subsection \<open>Flushing to a child\<close>

definition errs :: "bool \<Rightarrow> err \<Rightarrow> bool" where
  "errs quiet e \<longleftrightarrow> swap_err e \<or>
     (\<not> quiet \<and> (e = Assertion ''elt_start == elt_end'' \<or> e = Dangling_Iterator))"

definition flush_ok :: "bool \<Rightarrow> nat \<Rightarrow> 'k message_key set \<Rightarrow> 'v
    \<Rightarrow> ('p \<Rightarrow> ('k, 'v) message_map \<Rightarrow> 's \<Rightarrow> err + (('k, 'p) pivot_map \<times> 's)) \<Rightarrow> bool" where
  "flush_ok quiet d U dv rec \<longleftrightarrow> (\<forall>t ce s. ready quiet d U t s \<longrightarrow> msgs_ok quiet U t ce \<longrightarrow>
     wpE (rec (ptr t) ce s) (errs quiet) (flush_result quiet d dv (fst ` set ce) t ce s))"

lemma splitsD:
  assumes "splits quiet d dv M T elts s G s'"
  shows "G \<noteq> []" and "frep (view s') G" and "forest_ok d G" and "taken dv elts (den dv T) (fden dv G)"
    and "fmkeys G \<subseteq> mkeys T \<union> M" and "fst ` set G \<union> ftkeys G \<subseteq> tkeys T \<union> key ` M"
    and "frame s s' T (ptr T # fptrs G)" and "view s' (ptr T) = Some new_node"
    and "quiet \<longrightarrow> fclean (\<lambda>q. ss_is_dirty ops q s') G \<and> no_new_dirt s s' T"
  using assms unfolding splits_def by - (elim conjE, assumption)+

text \<open>A result seen from outside the pin that was held during the call.\<close>

lemma frame_shift:
  assumes "frame s1 s2 t ps" and "view s1 = view s" and "view s3 = view s2" and "same_pins s s3"
  shows "frame s s3 t ps"
  using assms by (simp add: frame_def)

lemma no_new_dirt_shift:
  assumes "no_new_dirt s1 s2 t" and "view s1 = view s"
    and "\<And>q. ss_is_dirty ops q s3 \<Longrightarrow> ss_is_dirty ops q s2"
    and "\<And>q. ss_is_dirty ops q s1 \<Longrightarrow> q = ptr t \<or> ss_is_dirty ops q s"
  shows "no_new_dirt s s3 t"
  using assms ptr_in_ptrs[of t] unfolding no_new_dirt_def by (metis DiffD2)

lemma flush_result_shift:
  assumes r: "flush_result quiet d dv M t ce s1 (res, s2)" and v: "view s1 = view s" "view s3 = view s2"
    and pins: "same_pins s s3" and d3: "\<And>q. ss_is_dirty ops q s3 \<Longrightarrow> ss_is_dirty ops q s2"
    and d1: "\<And>q. ss_is_dirty ops q s1 \<Longrightarrow> q = ptr t \<or> ss_is_dirty ops q s"
  shows "flush_result quiet d dv M t ce s (res, s3)"
proof -
  consider (stay) T' where "res = []" "stays quiet d dv M t ce s1 T' s2"
    | (split) G where "res = pivot_table G" "splits quiet d dv M t ce s1 G s2"
    using r by (auto simp: flush_result_def)
  then show ?thesis
  proof cases
    case stay
    note T' = staysD[OF stay(2)]
    have "quiet \<longrightarrow> clean_ok (\<lambda>q. ss_is_dirty ops q s3) T' \<and> no_new_dirt s s3 t"
      using T'(8) d3 by (auto intro: clean_ok_mono no_new_dirt_shift[OF _ v(1) d3 d1])
    then have "stays quiet d dv M t ce s T' s3"
      unfolding stays_def v(2) using T' frame_shift[OF T'(7) v pins] by blast
    then show ?thesis using stay(1) by (auto simp: flush_result_def)
  next
    case split
    note G = splitsD[OF split(2)]
    have "quiet \<longrightarrow> fclean (\<lambda>q. ss_is_dirty ops q s3) G \<and> no_new_dirt s s3 t"
      using G(9) d3 by (auto intro: fclean_mono no_new_dirt_shift[OF _ v(1) d3 d1])
    then have "splits quiet d dv M t ce s G s3"
      unfolding splits_def v(2) using G frame_shift[OF G(7) v pins] by blast
    then show ?thesis using split(1) by (auto simp: flush_result_def)
  qed
qed

lemma clean_ok_mono_kids:
  assumes "clean_ok D t" and "\<And>q. q \<in> set (fptrs (kids t)) \<Longrightarrow> D' q \<Longrightarrow> D q"
  shows "clean_ok D' t"
proof (cases t)
  case (PTree p F es)
  have "clean_ok D' (fst (snd c))" if c: "c \<in> set F" for c
  proof (rule clean_ok_mono)
    show "clean_ok D (fst (snd c))" using assms(1) c by (simp add: PTree clean_ok.simps)
    show "D q" if "q \<in> set (ptrs (fst (snd c)))" and "D' q" for q
      using that assms(2)[of q] ptrs_in_fptrs[OF c] unfolding PTree ptree.sel by blast
  qed
  moreover have "filter (for_child (fst c) B) es = []" if F: "F = A @ c # B" and D: "D' (ptr (fst (snd c)))" for A c B
  proof -
    have "c \<in> set F" using F by simp
    then have "ptr (fst (snd c)) \<in> set (fptrs F)" using ptrs_in_fptrs ptr_in_ptrs by blast
    then have "D (ptr (fst (snd c)))" using assms(2) D unfolding PTree ptree.sel by blast
    then show ?thesis using clean_okD[OF assms(1)[unfolded PTree] F] by blast
  qed
  ultimately show ?thesis unfolding PTree clean_ok.simps by blast
qed

text \<open>A tree whose root is not pinned, and the call of a flush on it.\<close>

definition resting :: "bool \<Rightarrow> nat \<Rightarrow> 'k message_key set \<Rightarrow> ('p, 'k, 'v) ptree \<Rightarrow> 's \<Rightarrow> bool" where
  "resting quiet d U t s \<longleftrightarrow> tree_ok d t \<and> sinv s \<and> rep (view s) t \<and> distinct (ptrs t) \<and>
     (\<forall>q\<in>set (ptrs t). pins s q = 0) \<and> mkeys t \<subseteq> U \<and> tkeys t \<subseteq> key ` U \<and>
     (quiet \<longrightarrow> clean_ok (\<lambda>q. ss_is_dirty ops q s) t) \<and> owned t s"

lemma restingD:
  assumes "resting quiet d U t s"
  shows "tree_ok d t" and "sinv s" and "rep (view s) t" and "distinct (ptrs t)"
    and "\<forall>q\<in>set (ptrs t). pins s q = 0" and "mkeys t \<subseteq> U" and "tkeys t \<subseteq> key ` U"
    and "quiet \<longrightarrow> clean_ok (\<lambda>q. ss_is_dirty ops q s) t" and "owned t s"
  using assms unfolding resting_def by - (elim conjE, assumption)+

lemma resting_enter:
  assumes r: "resting quiet d U t s"
    and s1: "sinv s1" "view s1 = view s" "pins s1 = (pins s)(ptr t := Suc (pins s (ptr t)))"
      "ss_is_dirty ops (ptr t) s1" "\<And>q. ss_is_dirty ops q s1 \<Longrightarrow> q = ptr t \<or> ss_is_dirty ops q s"
  shows "ready quiet d U t s1"
proof -
  note t = restingD[OF r]
  have "clean_ok (\<lambda>q. ss_is_dirty ops q s1) t" if quiet
  proof (rule clean_ok_mono_kids)
    show "clean_ok (\<lambda>q. ss_is_dirty ops q s) t" using t(8) that by blast
    have "ptr t \<notin> set (fptrs (kids t))" using t(4) by (cases t) simp
    then show "ss_is_dirty ops q s" if "q \<in> set (fptrs (kids t))" and "ss_is_dirty ops q s1" for q
      using s1(5)[OF that(2)] that(1) by blast
  qed
  then show ?thesis unfolding ready_def using t s1 owned_cong[OF t(9) s1(2)] by auto
qed

lemma roots_in_fptrs: "set (roots F) \<subseteq> set (fptrs F)"
proof
  fix q assume "q \<in> set (roots F)"
  then obtain c where "c \<in> set F" "q = ptr (fst (snd c))" by auto
  then show "q \<in> set (fptrs F)" using ptrs_in_fptrs ptr_in_ptrs by blast
qed

lemma distinct_roots: "distinct (p # a @ t @ b) \<Longrightarrow> A \<subseteq> set a \<Longrightarrow> B \<subseteq> set b \<Longrightarrow> x \<in> A \<union> B \<Longrightarrow> x \<notin> set t \<and> x \<noteq> p"
  by auto

lemma ptrs_child: "ptrs (PTree p (A @ (k, t, n) # B) es) = p # fptrs A @ ptrs t @ fptrs B"
  by simp

lemma distinct_child:
  assumes "distinct (ptrs (PTree p (A @ (k, t, n) # B) es))"
  shows "distinct (ptrs t)" and "p \<notin> set (ptrs t)"
    and "x \<in> set (roots A) \<union> set (roots B) \<Longrightarrow> x \<notin> set (ptrs t) \<and> x \<noteq> p"
proof -
  have d: "distinct (p # fptrs A @ ptrs t @ fptrs B)" using assms by simp
  then show "distinct (ptrs t)" "p \<notin> set (ptrs t)" by auto
  have "set (roots A) \<subseteq> set (fptrs A)" "set (roots B) \<subseteq> set (fptrs B)"
    by (rule roots_in_fptrs)+
  then show "x \<in> set (roots A) \<union> set (roots B) \<Longrightarrow> x \<notin> set (ptrs t) \<and> x \<noteq> p"
    using distinct_roots[OF d] by blast
qed

lemma outside_child:
  assumes r: "ready quiet (Suc d) U (PTree p (A @ (k, t, n) # B) es) s"
    and x: "x \<notin> set (ptrs t)" "x \<noteq> p" "view s x = Some m"
  shows "set (node_refs m) \<inter> set (ptrs t) = {}"
proof -
  let ?T = "PTree p (A @ (k, t, n) # B) es"
  note T = readyD[OF r]
  have d: "p \<notin> set (ptrs t)" "set (fptrs A) \<inter> set (ptrs t) = {}" "set (fptrs B) \<inter> set (ptrs t) = {}"
    using T(6) unfolding ptrs_child by (simp_all only: distinct.simps distinct_append set_append) blast+
  have sub: "set (ptrs t) \<subseteq> set (ptrs ?T)" unfolding ptrs_child set_append list.set by blast
  have reps: "frep (view s) A" "frep (view s) B" using T(5) by auto
  consider "x \<notin> set (ptrs ?T)" | "x \<in> set (fptrs A)" | "x \<in> set (fptrs B)"
    using x(1,2) unfolding ptrs_child set_append list.set by blast
  then show ?thesis
  proof cases
    case 1
    then have "set (node_refs m) \<inter> set (ptrs ?T) \<subseteq> {p}" using T(11) x(3) unfolding owned_def ptree.sel by blast
    then show ?thesis using d(1) sub by blast
  next
    case 2 then show ?thesis using frep_refs[OF reps(1) _ x(3)] d(2) by blast
  next
    case 3 then show ?thesis using frep_refs[OF reps(2) _ x(3)] d(3) by blast
  qed
qed

lemma child_resting:
  assumes r: "ready quiet (Suc d) U (PTree p (A @ (k, t, n) # B) es) s"
  shows "resting quiet d U t s"
proof -
  let ?T = "PTree p (A @ (k, t, n) # B) es"
  note T = readyD[OF r]
  have sub: "set (ptrs t) \<subseteq> set (ptrs ?T)" "p \<notin> set (ptrs t)" "distinct (ptrs t)"
    using T(6) by auto
  have "pins s q = 0" if "q \<in> set (ptrs t)" for q
  proof -
    have "q \<in> set (ptrs ?T)" and "q \<noteq> p" using sub that by blast+
    then show ?thesis using T(7) by simp
  qed
  moreover have "clean_ok (\<lambda>q. ss_is_dirty ops q s) t" if quiet
    using T(10) that by (simp add: clean_ok.simps)
  moreover have "tree_ok d t" using T(1) by (auto simp: tree_ok_Suc forest_ok_append forest_ok_Cons)
  moreover have "mkeys t \<subseteq> U" using T(8) by auto
  moreover have "tkeys t \<subseteq> key ` U" using T(9) by (auto simp: tkeys_PTree)
  moreover have "owned t s" unfolding owned_def
  proof (intro allI impI)
    fix q m assume q: "q \<notin> set (ptrs t)" "view s q = Some m"
    show "set (node_refs m) \<inter> set (ptrs t) \<subseteq> {ptr t}"
    proof (cases "q = p")
      case True
      then have "m = \<lparr>pivots = pivot_table (A @ (k, t, n) # B), elements = es\<rparr>" using T(5) q(2) by simp
      then have "set (node_refs m) = set (roots A) \<union> {ptr t} \<union> set (roots B)"
        by (simp only: node_refs_table) auto
      then show ?thesis using distinct_child(3)[OF T(6)] by blast
    qed (use outside_child[OF r q(1) _ q(2)] in blast)
  qed
  ultimately show ?thesis unfolding resting_def using T(2,5) sub(3) by simp
qed

lemma wp_call:
  assumes rec: "flush_ok quiet d U dv rec" and r: "resting quiet d U t s" and m: "msgs_ok quiet U t ce"
  shows "wpE (arrow ops True (ptr t) (rec (ptr t) ce) s) (errs quiet)
     (\<lambda>x. flush_result quiet d dv (fst ` set ce) t ce s x \<and> same_pins s (snd x))"
proof -
  note t = restingD(3)[OF r]
  show ?thesis
  proof (rule wp_arrow[where n = "node_of t"])
    show "view s (ptr t) = Some (node_of t)" using rep_iff[THEN iffD1, OF t] by simp
    show "view s r \<noteq> None" if "r \<in> set (node_refs (node_of t))" for r
      using that rep_live[OF t] node_refs_node_of[of t] by blast
    fix s1 assume s1: "sinv s1" "view s1 = view s" "pins s1 = (pins s)(ptr t := Suc (pins s (ptr t)))"
      "True \<Longrightarrow> ss_is_dirty ops (ptr t) s1"
      and d1: "\<And>q. ss_is_dirty ops q s1 \<Longrightarrow> (True \<and> q = ptr t) \<or> ss_is_dirty ops q s"
    have "ready quiet d U t s1" by (rule resting_enter[OF r]) (use s1 d1 in auto)
    then have "wpE (rec (ptr t) ce s1) (errs quiet) (flush_result quiet d dv (fst ` set ce) t ce s1)"
      using rec m by (simp add: flush_ok_def)
    then show "wpE (rec (ptr t) ce s1) (errs quiet) (\<lambda>(res, s2). same_pins s1 s2 \<and> (\<forall>s3.
        same_pins s s3 \<and> view s3 = view s2 \<and> (\<forall>q. ss_is_dirty ops q s3 \<longrightarrow> ss_is_dirty ops q s2) \<longrightarrow>
        flush_result quiet d dv (fst ` set ce) t ce s (res, s3) \<and> same_pins s (snd (res, s3))))"
    proof (rule wpE_mono)
      fix x assume x: "flush_result quiet d dv (fst ` set ce) t ce s1 x"
      obtain res s2 where x_eq: "x = (res, s2)" by (cases x)
      have "same_pins s1 s2"
        using x unfolding x_eq flush_result_def by (auto dest!: staysD(7) splitsD(7) frameD(1))
      moreover have "flush_result quiet d dv (fst ` set ce) t ce s (res, s3)"
        if "same_pins s s3" "view s3 = view s2" "\<forall>q. ss_is_dirty ops q s3 \<longrightarrow> ss_is_dirty ops q s2" for s3
        by (rule flush_result_shift[OF x[unfolded x_eq] s1(2) that(2,1)]) (use that(3) d1 in auto)
      ultimately show "case x of (res, s2) \<Rightarrow> same_pins s1 s2 \<and> (\<forall>s3.
        same_pins s s3 \<and> view s3 = view s2 \<and> (\<forall>q. ss_is_dirty ops q s3 \<longrightarrow> ss_is_dirty ops q s2) \<longrightarrow>
        flush_result quiet d dv (fst ` set ce) t ce s (res, s3) \<and> same_pins s (snd (res, s3)))"
        by (simp add: x_eq)
    qed auto
  qed (use restingD(2)[OF r] in \<open>auto simp: errs_def\<close>)
qed

lemma wp_call_child:
  assumes "flush_ok quiet d U dv rec" and "ready quiet (Suc d) U (PTree p (A @ (k, t, n) # B) es) s"
    and "msgs_ok quiet U t ce"
  shows "wpE (arrow ops True (ptr t) (rec (ptr t) ce) s) (errs quiet)
     (\<lambda>x. flush_result quiet d dv (fst ` set ce) t ce s x \<and> same_pins s (snd x))"
  by (rule wp_call[OF assms(1) child_resting[OF assms(2)] assms(3)])

text \<open>
  What the flush to the child \<open>t\<close> has left when its parent has the trees \<open>G\<close> in its place and
  the buffer \<open>es2\<close>.
\<close>

definition grafted :: "bool \<Rightarrow> 'p \<Rightarrow> ('p, 'k, 'v) forest \<Rightarrow> ('p, 'k, 'v) ptree \<Rightarrow> ('p, 'k, 'v) forest \<Rightarrow> 's
    \<Rightarrow> ('p, 'k, 'v) forest \<Rightarrow> ('k, 'v) message_map \<Rightarrow> 's \<Rightarrow> bool" where
  "grafted quiet p A t B s G es2 s' \<longleftrightarrow>
     view s' p = Some \<lparr>pivots = pivot_table (A @ G @ B), elements = es2\<rparr> \<and> frep (view s') G \<and>
     (\<forall>x\<in>dom (view s) - set (ptrs t) - {p}. view s' x = view s x) \<and>
     dom (view s') = dom (view s) - set (ptrs t) \<union> set (fptrs G) \<and>
     distinct (fptrs G) \<and> set (fptrs G) \<inter> dom (view s) \<subseteq> set (ptrs t) \<and> same_pins s s' \<and>
     (quiet \<longrightarrow> fclean (\<lambda>q. ss_is_dirty ops q s') G \<and> no_new_dirt s s' t)"

lemma graftedD:
  assumes "grafted quiet p A t B s G es2 s'"
  shows "view s' p = Some \<lparr>pivots = pivot_table (A @ G @ B), elements = es2\<rparr>" and "frep (view s') G"
    and "\<forall>x\<in>dom (view s) - set (ptrs t) - {p}. view s' x = view s x"
    and "dom (view s') = dom (view s) - set (ptrs t) \<union> set (fptrs G)"
    and "distinct (fptrs G)" and "set (fptrs G) \<inter> dom (view s) \<subseteq> set (ptrs t)" and "same_pins s s'"
    and "quiet \<longrightarrow> fclean (\<lambda>q. ss_is_dirty ops q s') G \<and> no_new_dirt s s' t"
  using assms unfolding grafted_def by - (elim conjE, assumption)+

lemma distinct_graft:
  assumes "distinct (p # a @ t @ b)" and "distinct g" and "set g \<inter> D \<subseteq> set t" and "set (p # a @ t @ b) \<subseteq> D"
  shows "distinct (p # a @ g @ b)" and "set (p # a @ g @ b) \<inter> D \<subseteq> set (p # a @ t @ b)"
    and "D - set t \<union> set g = D - set (p # a @ t @ b) \<union> set (p # a @ g @ b)"
    and "x \<in> set a \<union> set b \<Longrightarrow> x \<in> D - set t - {p}"
  using assms by auto

lemma ptrs_graft: "ptrs (PTree p (A @ G @ B) es) = p # fptrs A @ fptrs G @ fptrs B"
  by simp

lemma grafted_frame:
  assumes rep: "rep (view s) (PTree p (A @ (k, t, n) # B) es)"
    and dist: "distinct (ptrs (PTree p (A @ (k, t, n) # B) es))"
    and g: "grafted quiet p A t B s G es2 s'"
  shows "rep (view s') (PTree p (A @ G @ B) es2)"
    and "frame s s' (PTree p (A @ (k, t, n) # B) es) (ptrs (PTree p (A @ G @ B) es2))"
proof -
  let ?T = "PTree p (A @ (k, t, n) # B) es"
  note G = graftedD[OF g]
  have live: "set (ptrs ?T) \<subseteq> dom (view s)" by (rule rep_dom[OF rep])
  note ds = distinct_graft[OF dist[unfolded ptrs_child] G(5,6) live[unfolded ptrs_child]]
  have same: "view s' x = view s x" if "x \<in> set (fptrs A) \<union> set (fptrs B)" for x
    using bspec[OF G(3) ds(4)[OF that]] .
  have "frep (view s') A" "frep (view s') B"
    using rep same by (auto intro!: frep_cong[of "view s"])
  then show "rep (view s') (PTree p (A @ G @ B) es2)" using G(1,2) by simp
  show "frame s s' ?T (ptrs (PTree p (A @ G @ B) es2))"
    unfolding frame_def
  proof (intro conjI)
    show "distinct (ptrs (PTree p (A @ G @ B) es2))"
      "set (ptrs (PTree p (A @ G @ B) es2)) \<inter> dom (view s) \<subseteq> set (ptrs ?T)"
      using ds(1,2) unfolding ptrs_child ptrs_graft by blast+
    show "dom (view s') = dom (view s) - set (ptrs ?T) \<union> set (ptrs (PTree p (A @ G @ B) es2))"
      using ds(3) G(4) unfolding ptrs_child ptrs_graft by simp
    show "\<forall>x\<in>dom (view s) - set (ptrs ?T). view s' x = view s x"
      using G(3) unfolding ptrs_child set_append list.set by blast
  qed (rule G(7))
qed

text \<open>
  The state \<open>sA\<close> in which the parent goes on after the call to the child has ended in \<open>s3\<close>: the
  parent may have changed its own buffer.
\<close>

definition resumed :: "'p \<Rightarrow> ('p, 'k, 'v) node \<Rightarrow> 's \<Rightarrow> 's \<Rightarrow> 's \<Rightarrow> bool" where
  "resumed p m s s3 sA \<longleftrightarrow> view sA = (view s3)(p \<mapsto> m) \<and> same_pins s sA \<and>
     (\<forall>q. ss_is_dirty ops q sA = ss_is_dirty ops q s3)"

lemma pivot_table_same: "ptr t' = ptr t \<Longrightarrow> pivot_table (A @ (k, t', n) # B) = pivot_table (A @ (k, t, n) # B)"
  by simp

lemma no_new_dirt_cong: "(\<And>q. ss_is_dirty ops q s2 \<Longrightarrow> q = ptr t \<or> ss_is_dirty ops q s1) \<Longrightarrow> no_new_dirt s s1 t \<Longrightarrow> no_new_dirt s s2 t"
  using ptr_in_ptrs[of t] unfolding no_new_dirt_def by blast

lemma stays_grafted:
  assumes rep: "rep (view s) (PTree p (A @ (k, t, n) # B) es)"
    and dist: "distinct (ptrs (PTree p (A @ (k, t, n) # B) es))"
    and st: "stays quiet d dv M t ce s t' s3"
    and sA: "resumed p \<lparr>pivots = pivot_table (A @ (k, t, n) # B), elements = es2\<rparr> s s3 sA"
    and s4: "view s4 = view sA" "keeps {ptr t} sA s4"
  shows "grafted quiet p A t B s [(k, t', n)] es2 s4"
proof -
  note t' = staysD[OF st] and f = frameD[OF staysD(7)[OF st]] and dc = distinct_child[OF dist]
  have v: "view s4 = (view s3)(p \<mapsto> \<lparr>pivots = pivot_table (A @ (k, t, n) # B), elements = es2\<rparr>)"
    using sA s4(1) by (simp add: resumed_def)
  have p: "p \<in> dom (view s)" "p \<notin> set (ptrs t)" using rep dc(2) by auto
  then have p3: "p \<in> dom (view s3)" "p \<notin> set (ptrs t')" using f(3,5) by blast+
  have d4: "q = ptr t \<or> ss_is_dirty ops q s3" if "ss_is_dirty ops q s4" for q
    using keepsD(4)[OF s4(2) that] sA by (auto simp: resumed_def)
  have "clean_ok (\<lambda>q. ss_is_dirty ops q s4) t'" if quiet
  proof -
    have clean: "clean_ok (\<lambda>q. ss_is_dirty ops q s3) t'" using t'(8) that by blast
    have "ptr t \<notin> set (fptrs (kids t'))" using f(2) t'(1) by (cases t') simp
    with d4 show ?thesis by (intro clean_ok_mono_kids[OF clean]) metis
  qed
  moreover have "no_new_dirt s s4 t" if quiet using t'(8) that no_new_dirt_cong[OF d4] by blast
  moreover have "rep (view s4) t'" unfolding v by (rule rep_cong[OF t'(2)]) (use p3 in auto)
  moreover have "\<forall>x\<in>dom (view s) - set (ptrs t) - {p}. view s4 x = view s x" using f(4) by (simp add: v)
  moreover have "dom (view s4) = dom (view s) - set (ptrs t) \<union> set (ptrs t')" using f(5) p3 by (auto simp: v)
  moreover have "same_pins s s4"
    using sA s4(2) same_pins_trans by (auto simp: resumed_def keeps_def)
  ultimately show ?thesis
    unfolding grafted_def using f(2,3) t'(1) by (simp add: v fclean_def)
qed

lemma splits_grafted:
  assumes rep: "rep (view s) (PTree p (A @ (k, t, n) # B) es)"
    and dist: "distinct (ptrs (PTree p (A @ (k, t, n) # B) es))"
    and sp: "splits quiet d dv M t ce s G s3"
    and v: "view s4 = (view s3)(p \<mapsto> \<lparr>pivots = pivot_table (A @ G @ B), elements = es2\<rparr>, ptr t := None)"
    and s4: "same_pins s s4" "\<And>q. ss_is_dirty ops q s4 \<Longrightarrow> ss_is_dirty ops q s3"
  shows "grafted quiet p A t B s G es2 s4"
proof -
  note G = splitsD[OF sp] and f = frameD[OF splitsD(7)[OF sp]] and dc = distinct_child[OF dist]
  have p: "p \<in> dom (view s)" "p \<notin> set (ptrs t)" using rep dc(2) by auto
  have pt: "p \<noteq> ptr t" using p(2) ptr_in_ptrs[of t] by blast
  have p3: "p \<in> dom (view s3)" "p \<notin> set (fptrs G)" using f(3,5) p unfolding list.set by blast+
  have t3: "ptr t \<notin> set (fptrs G)" "distinct (fptrs G)" using f(2) unfolding distinct.simps by blast+
  have "frep (view s4) G" by (rule frep_cong[OF G(2)]) (use p3 t3 v in auto)
  moreover have "dom (view s4) = dom (view s) - set (ptrs t) \<union> set (fptrs G)"
    using f(5) p3(1) t3(1) pt ptr_in_ptrs[of t] unfolding v list.set by auto
  moreover have "\<forall>x\<in>dom (view s) - set (ptrs t) - {p}. view s4 x = view s x"
    using f(4) ptr_in_ptrs[of t] by (auto simp: v)
  moreover have "set (fptrs G) \<inter> dom (view s) \<subseteq> set (ptrs t)" using f(3) unfolding list.set by blast
  moreover have "fclean (\<lambda>q. ss_is_dirty ops q s4) G \<and> no_new_dirt s s4 t" if quiet
    using G(9) that s4(2) by (auto intro: fclean_mono no_new_dirt_cong)
  ultimately show ?thesis
    unfolding grafted_def using t3(2) s4(1) pt by (simp add: v)
qed

lemma wp_replace_child:
  assumes r: "ready quiet (Suc d) U (PTree p (A @ (k, t, n) # B) es) s"
    and sp: "splits quiet d dv M t ce s G s3"
    and sA: "resumed p \<lparr>pivots = pivot_table (A @ (k, t, n) # B), elements = es2\<rparr> s s3 sA"
    and fit: "node_fit \<lparr>pivots = pivot_table (A @ G @ B), elements = es2\<rparr>"
  shows "wpE (replace_child ops p (length A) (pivot_table G) sA) swap_err (grafted quiet p A t B s G es2)"
proof -
  let ?n = "\<lambda>F. \<lparr>pivots = pivot_table F, elements = es2\<rparr>"
  note T = readyD[OF r] and G = splitsD[OF sp] and f = frameD[OF splitsD(7)[OF sp]]
  note dc = distinct_child[OF T(6)]
  have v: "view sA = (view s3)(p \<mapsto> ?n (A @ (k, t, n) # B))" and dA: "\<And>q. ss_is_dirty ops q sA = ss_is_dirty ops q s3"
    and sA': "same_pins s sA" "sinv sA" "pins sA = pins s" "pins sA p > 0" "ss_is_dirty ops p sA"
    using sA T(3,4) by (auto simp: resumed_def same_pins_def)
  have pt: "p \<noteq> ptr t" using dc(2) ptr_in_ptrs[of t] by blast
  have "ptr t \<in> set (ptrs (PTree p (A @ (k, t, n) # B) es))" using ptr_in_ptrs[of t] by simp
  then have tp: "pins s (ptr t) = 0" using T(7) pt by simp
  have live: "view s3 q \<noteq> None \<and> q \<noteq> ptr t" if "q \<in> set (roots A) \<union> set (roots B)" for q
  proof -
    have "q \<in> set (ptrs (PTree p (A @ (k, t, n) # B) es))"
      using that roots_in_fptrs[of A] roots_in_fptrs[of B] unfolding ptrs_child set_append list.set by blast
    then have "q \<in> dom (view s) - set (ptrs t)" using dc(3)[OF that] rep_dom[OF T(5)] by blast
    then show ?thesis using f(5) ptr_in_ptrs[of t] by blast
  qed
  have live_G: "view s3 q \<noteq> None \<and> q \<noteq> ptr t" if "q \<in> set (roots G)" for q
    using that roots_in_fptrs[of G] f(2,5) unfolding list.set distinct.simps by blast
  have unref: "ptr t \<notin> set (node_refs m)" if x: "((view s3)(p \<mapsto> ?n (A @ B))) x = Some m" for x m
  proof (cases "x = p")
    case True
    then have "m = ?n (A @ B)" using x by simp
    then have "set (node_refs m) = set (roots A) \<union> set (roots B)" by (simp only: node_refs_table) auto
    then show ?thesis using live by blast
  next
    case False
    then have m: "view s3 x = Some m" using x by simp
    then have "x \<in> dom (view s3)" by blast
    then consider "x = ptr t" | "x \<in> set (fptrs G)" | "x \<in> dom (view s) - set (ptrs t)" using f(5) unfolding list.set by blast
    then show ?thesis
    proof cases
      case 1 then show ?thesis using G(8) m by (simp add: node_refs_new_node)
    next
      case 2 then show ?thesis using frep_refs[OF G(2) _ m] f(2) unfolding distinct.simps by blast
    next
      case 3
      then have "view s x = Some m" using f(4) m by simp
      then show ?thesis using outside_child[OF r _ False] 3 ptr_in_ptrs[of t] by blast
    qed
  qed
  have mok: "map_ok (pivot_table A @ pivot_table G @ pivot_table B)" using fit by (simp add: node_fit_def)
  have e: "erase_range (pivot_table (A @ (k, t, n) # B)) (length A) (Suc (length A)) = pivot_table (A @ B)"
    by (simp add: erase_range_def)
  have i: "insert_range (pivot_table (A @ B)) (pivot_table G) = pivot_table (A @ G @ B)"
    using insert_range_middle[OF mok] by simp
  have c: "child (snd (pivot_table (A @ (k, t, n) # B) ! length A)) = ptr t" by (simp add: nth_append)
  have fit1: "node_fit (?n (A @ B))" using fit by (auto simp: node_fit_def map_ok_append)
  have n0: "this_node ops p sA = Inr (?n (A @ (k, t, n) # B))" using sA'(2,4) v by (simp add: this_node_eq)
  let ?ins = "\<lambda>s2. assign ops p (\<lambda>m. m\<lparr>pivots := insert_range (pivots m) (pivot_table G)\<rparr>) s2"
  have ins: "wpE (bindE (?ins s2) (\<lambda>(_, s3). Inr s3)) swap_err (grafted quiet p A t B s G es2)"
    if v2: "view s2 = (view s3)(p \<mapsto> ?n (A @ B), ptr t := None)" and k2: "keeps {} sA s2" for s2
    unfolding wpE_bindE
  proof (rule wp_assign[where n = "?n (A @ B)"])
    show "sinv s2" "pins s2 p > 0" "ss_is_dirty ops p s2" using keepsD[OF k2] sA' by simp_all
    show "view s2 p = Some (?n (A @ B))" using v2 pt by simp
    show "storable (?n (A @ B)\<lparr>pivots := insert_range (pivots (?n (A @ B))) (pivot_table G)\<rparr>)"
      using storable_node[OF fit] i by simp
    fix q assume "q \<in> set (node_refs (?n (A @ B)\<lparr>pivots := insert_range (pivots (?n (A @ B))) (pivot_table G)\<rparr>))"
    then have "q \<in> set (roots A) \<union> set (roots B) \<union> set (roots G)" using i by (simp add: node_refs_table del: pivot_table_simps) auto
    then show "view s2 q \<noteq> None" using live[of q] live_G[of q] v2 by auto
  next
    fix s4 assume s4: "view s4 = (view s2)(p \<mapsto> ?n (A @ B)\<lparr>pivots := insert_range (pivots (?n (A @ B))) (pivot_table G)\<rparr>)"
      "same_pins s2 s4" "\<And>q. ss_is_dirty ops q s4 = ss_is_dirty ops q s2"
    have "grafted quiet p A t B s G es2 s4"
    proof (rule splits_grafted[OF T(5,6) sp])
      show "view s4 = (view s3)(p \<mapsto> ?n (A @ G @ B), ptr t := None)" using s4(1) v2 i pt by (simp add: fun_upd_twist)
      show "same_pins s s4" using same_pins_trans[OF sA'(1)] k2 s4(2) same_pins_trans by (auto simp: keeps_def)
      show "ss_is_dirty ops q s3" if "ss_is_dirty ops q s4" for q using keepsD(4)[OF k2] that s4(3) dA by auto
    qed
    then show "wpE (case ((), s4) of (_, s3) \<Rightarrow> Inr s3) swap_err (grafted quiet p A t B s G es2)" by simp
  qed
  show ?thesis
    unfolding replace_child_def n0 bindE_simps Let_def c node.simps wpE_bindE
  proof (rule wp_assign[where n = "?n (A @ (k, t, n) # B)"], goal_cases)
    case (7 s1)
    have "wpE (ss_depoint ops (ptr t) s1) swap_err (\<lambda>s2. wpE (bindE (?ins s2) (\<lambda>(_, s3). Inr s3)) swap_err (grafted quiet p A t B s G es2))"
    proof (rule wp_depoint[where n = new_node])
      show "sinv s1" "pins s1 (ptr t) = 0" using 7 sA' tp by (simp_all add: same_pins_def)
      show "view s1 (ptr t) = Some new_node" using 7(2) v pt G(8) by simp
      show "ptr t \<notin> set (node_refs m)" if "view s1 x = Some m" for x m
        using that 7(2) v e by (intro unref[of x]) (auto simp: fun_upd_def split: if_splits)
      fix s2 assume "view s2 = (view s1)(ptr t := None)" and k: "keeps {} s1 s2"
      then show "wpE (bindE (?ins s2) (\<lambda>(_, s3). Inr s3)) swap_err (grafted quiet p A t B s G es2)"
        using 7 v e by (intro ins) (auto simp: keeps_def intro: same_pins_trans)
    qed (rule node_refs_new_node)
    then show ?case by (simp only: prod.case wpE_bindE)
  qed (use sA' v live storable_node[OF fit1] e in \<open>auto simp: node_refs_table simp del: pivot_table_simps\<close>)
qed

end

end
