(* ===== verification/Betree_Flush_Internal.thy ===== *)
theory Betree_Flush_Internal
  imports Betree_Flush
begin

text \<open>
  \<open>node::flush\<close> of a node with children: the messages that go straight to one dirty child, the
  loop that flushes batches down, and the recursion over the tree.
\<close>

context node_store
begin

subsection \<open>The parent of a child that has taken messages\<close>

definition becomes :: "nat \<Rightarrow> 'v \<Rightarrow> 'k \<Rightarrow> ('p, 'k, 'v) ptree \<Rightarrow> ('k, 'v) message_map \<Rightarrow> ('p, 'k, 'v) forest \<Rightarrow> bool" where
  "becomes d dv k t ce G \<longleftrightarrow> G \<noteq> [] \<and> forest_ok d G \<and> taken dv ce (den dv t) (fden dv G) \<and>
     fmkeys G \<subseteq> mkeys t \<union> fst ` set ce \<and> fst ` set G \<union> ftkeys G \<subseteq> insert k (tkeys t \<union> key ` fst ` set ce)"

lemma splits_becomes: "splits quiet d dv (fst ` set ce) t ce s G s' \<Longrightarrow> becomes d dv k t ce G"
  using splitsD(1,3-6)[of quiet d dv "fst ` set ce" t ce s G s'] unfolding becomes_def by blast

lemma stays_becomes:
  assumes st: "stays quiet d dv (fst ` set ce) t ce s t' s'" and F: "forest_ok d (A @ (k, t, n) # B)"
    and ce: "in_child k B (key ` fst ` set ce)"
  shows "becomes d dv k t ce [(k, t', n)]"
proof -
  note t' = staysD[OF st]
  have "in_child k B (tkeys t \<union> key ` fst ` set ce)" using forest_middle(4)[OF F] ce by (simp add: in_child_Un)
  then have ge: "\<forall>x\<in>tkeys t'. k \<le> x" using t'(6) by (auto simp: in_child_def)
  have "n < 2 ^ 64" using F by (simp add: forest_ok_def in_range_def)
  then have "forest_ok d [(k, t', n)]" using t'(3) ge by (simp add: forest_ok_def in_range_def)
  moreover have "fden dv [(k, t', n)] = den dv t'"
  proof
    fix x
    have "den dv t' x = None" if "\<not> k \<le> x"
      using that ge by (intro den_outside) (unfold tkeys_def, blast)
    then show "fden dv [(k, t', n)] x = den dv t' x" by (simp add: fden_single)
  qed
  ultimately show ?thesis using t'(4-6) unfolding becomes_def by auto
qed

lemma keys_graft:
  "mkeys (PTree p (A @ G @ B) es) = fst ` set es \<union> fmkeys A \<union> fmkeys G \<union> fmkeys B"
  "tkeys (PTree p (A @ G @ B) es) = key ` fst ` set es \<union> (fst ` set A \<union> ftkeys A) \<union> (fst ` set G \<union> ftkeys G) \<union> (fst ` set B \<union> ftkeys B)"
  by (auto simp: tkeys_PTree)

lemma keys_child:
  "mkeys (PTree p (A @ (k, t, n) # B) es) = fst ` set es \<union> fmkeys A \<union> mkeys t \<union> fmkeys B"
  "tkeys (PTree p (A @ (k, t, n) # B) es) = key ` fst ` set es \<union> (fst ` set A \<union> ftkeys A) \<union> insert k (tkeys t) \<union> (fst ` set B \<union> ftkeys B)"
  by (auto simp: tkeys_PTree)

lemma Un_graft:
  "G \<subseteq> insert k (t \<union> C) \<Longrightarrow> C \<subseteq> E \<union> M \<Longrightarrow> E2 \<subseteq> E \<Longrightarrow> E2 \<union> A \<union> G \<union> B \<subseteq> E \<union> A \<union> insert k t \<union> B \<union> M"
  by blast

lemma graft_clean:
  assumes r: "ready True (Suc d) U (PTree p (A @ (k, t, n) # B) es) s"
    and g: "grafted True p A t B s G es s'"
    and ok: "map_ok (A @ G @ B)" and none: "filter (for_child k B) es = []" and keys: "in_child k B (fst ` set G)"
  shows "clean_ok (\<lambda>q. ss_is_dirty ops q s') (PTree p (A @ G @ B) es)"
    and "no_new_dirt s s' (PTree p (A @ (k, t, n) # B) es)"
proof -
  let ?T = "PTree p (A @ (k, t, n) # B) es" and ?D = "\<lambda>q. ss_is_dirty ops q s" and ?D' = "\<lambda>q. ss_is_dirty ops q s'"
  note T = readyD[OF r] and gd = graftedD[OF g]
  have nd: "no_new_dirt s s' t" and Gc: "fclean ?D' G" using gd(8) by blast+
  have F: "map_ok (A @ (k, t, n) # B)" using T(1) forest_map_ok by (auto simp: tree_ok_Suc)
  have cl: "clean_ok ?D ?T" using T(10) by blast
  have undirty: "?D q" if "q \<in> set (fptrs A) \<union> set (fptrs B)" and "?D' q" for q
  proof -
    have "q \<in> dom (view s) - set (ptrs t)" 
      using distinct_graft(4)[OF T(6)[unfolded ptrs_child] gd(5,6) rep_dom[OF T(5), unfolded ptrs_child] that(1)] by blast
    then show ?thesis using nd that(2) unfolding no_new_dirt_def by blast
  qed
  have sub: "fclean ?D A" "fclean ?D B" using cl by (auto simp: clean_ok.simps fclean_def)
  show "clean_ok ?D' (PTree p (A @ G @ B) es)"
  proof (rule clean_replaced[OF F ok _ none keys])
    show "fclean ?D' A" by (rule fclean_mono[OF sub(1)]) (use undirty in blast)
    show "fclean ?D' B" by (rule fclean_mono[OF sub(2)]) (use undirty in blast)
    fix e c assume e: "e \<in> set es" "c \<in> set A \<union> set B" "owns (A @ (k, t, n) # B) c (key (fst e))"
    have "ptr (fst (snd c)) \<in> set (fptrs A) \<union> set (fptrs B)"
      using e(2) ptrs_in_fptrs ptr_in_ptrs by blast
    moreover have "\<not> ?D (ptr (fst (snd c)))" using cl e unfolding clean_ok_owns[OF F] by auto
    ultimately show "\<not> ?D' (ptr (fst (snd c)))" using undirty by blast
  qed (rule Gc)
  show "no_new_dirt s s' ?T"
    using nd unfolding no_new_dirt_def ptrs_child set_append list.set by blast
qed

lemma graft_stays:
  assumes r: "ready quiet (Suc d) U (PTree p (A @ (k, t, n) # B) es) s"
    and g: "grafted quiet p A t B s G es2 s'" and G: "becomes d dv k t ce G"
    and ok2: "tree_ok (Suc d) (PTree p (A @ (k, t, n) # B) es2)" and none: "filter (for_child k B) es2 = []"
    and ce: "in_child k B (key ` fst ` set ce)" and M: "fst ` set ce \<subseteq> fst ` set es \<union> M"
    and tk: "taken dv elts (den dv (PTree p (A @ (k, t, n) # B) es))
       (\<lambda>x. apply_msgs dv (den dv (PTree p (A @ (k, t, n) # B) es2) x) (msgs_for ce x))"
    and es2: "fst ` set es2 \<subseteq> fst ` set es" and q: "quiet \<Longrightarrow> es2 = es"
  shows "stays quiet (Suc d) dv M (PTree p (A @ (k, t, n) # B) es) elts s (PTree p (A @ G @ B) es2) s'"
proof -
  let ?T = "PTree p (A @ (k, t, n) # B) es" and ?T' = "PTree p (A @ G @ B) es2"
  note T = readyD[OF r] and fr = grafted_frame[OF T(5,6) g]
  have G': "forest_ok d G" "G \<noteq> []" "\<And>x. fden dv G x = apply_msgs dv (den dv t x) (msgs_for ce x)"
    "fst ` set G \<union> ftkeys G \<subseteq> insert k (tkeys t \<union> key ` fst ` set ce)" "fmkeys G \<subseteq> mkeys t \<union> fst ` set ce"
    using G unfolding becomes_def taken_def by blast+
  note cr = child_replaced[OF ok2 none G' ce]
  have "den dv ?T' = (\<lambda>x. apply_msgs dv (den dv (PTree p (A @ (k, t, n) # B) es2) x) (msgs_for ce x))"
    using cr(3) by blast
  moreover have "mkeys ?T' \<subseteq> mkeys ?T \<union> M"
    using G'(5) M es2 unfolding keys_graft keys_child by blast
  moreover have "tkeys ?T' \<subseteq> tkeys ?T \<union> key ` M"
  proof -
    have "key ` fst ` set ce \<subseteq> key ` fst ` set es \<union> key ` M" "key ` fst ` set es2 \<subseteq> key ` fst ` set es"
      using image_mono[OF M, of key] image_mono[OF es2, of key] unfolding image_Un by - assumption+
    then show ?thesis unfolding keys_graft keys_child by (rule Un_graft[OF G'(4)])
  qed
  moreover have "clean_ok (\<lambda>q. ss_is_dirty ops q s') ?T' \<and> no_new_dirt s s' ?T" if quiet
    using that r g q[OF that] graft_clean[of d U p A k t n B es s G s'] cr none forest_map_ok
    by (auto simp: tree_ok_Suc in_child_Un)
  ultimately show ?thesis unfolding stays_def using fr cr(1) tk by simp
qed

subsection \<open>Recording the size of a child\<close>

definition set_size :: "'k \<Rightarrow> nat \<Rightarrow> ('p, 'k, 'v) forest \<Rightarrow> ('p, 'k, 'v) forest" where
  "set_size k sz F = map (\<lambda>(k', t, n). (k', t, if k' = k then sz else n)) F"

lemma set_size_same:
  "fden dv (set_size k sz F) = fden dv F" "fmkeys (set_size k sz F) = fmkeys F" "ftkeys (set_size k sz F) = ftkeys F"
  "fst ` set (set_size k sz F) = fst ` set F" "fclean D (set_size k sz F) = fclean D F"
  "map fst (set_size k sz F) = map fst F" "map (fst \<circ> snd) (set_size k sz F) = map (fst \<circ> snd) F"
  "set_size k sz F = [] \<longleftrightarrow> F = []"
proof -
  show "fden dv (set_size k sz F) = fden dv F" by (rule ext) (simp add: fden_def set_size_def split_def comp_def)
qed (simp_all add: set_size_def split_def comp_def image_image fclean_def)

lemma pivot_table_set_size:
  "pivot_table (set_size k sz F) = map (\<lambda>(k', ci). (k', if k' = k then set_child_size sz ci else ci)) (pivot_table F)"
  by (auto simp: pivot_table_def set_size_def set_child_size_def)

lemma pivot_table_update:
  assumes "map_ok (A @ (k, t, n) # B)"
  shows "(pivot_table (A @ (k, t, n) # B))[length A := map_prod id (set_child_size sz) (pivot_table (A @ (k, t, n) # B) ! length A)]
    = pivot_table (set_size k sz (A @ (k, t, n) # B))"
proof -
  have "k \<notin> fst ` set A" "k \<notin> fst ` set B" using map_ok_distinct[OF assms] by auto
  then have "set_size k sz A = A" "set_size k sz B = B"
    unfolding set_size_def by (auto intro!: map_idI) (metis fst_conv image_eqI)+
  then have "set_size k sz (A @ (k, t, n) # B) = A @ (k, t, sz) # B" by (simp add: set_size_def)
  then show ?thesis by (simp add: list_update_append nth_append set_child_size_def)
qed

lemma forest_ok_set_size:
  assumes "forest_ok d F" and "sz < 2 ^ 64"
  shows "forest_ok d (set_size k sz F)"
proof -
  have "sorted_wrt before (set_size k sz F)"
    using assms(1) by (auto simp: forest_ok_def set_size_def sorted_wrt_map before_def split_def elim!: sorted_wrt_mono_rel[rotated])
  then show ?thesis using assms by (auto simp: forest_ok_def set_size_def in_range_def)
qed

lemma set_size_tree:
  fixes k :: 'k
  assumes ok: "tree_ok (Suc d) (PTree p F es)" and sz: "sz < 2 ^ 64"
  defines "T' \<equiv> PTree p (set_size k sz F) es"
  shows "tree_ok (Suc d) T'" and "den dv T' = den dv (PTree p F es)" and "mkeys T' = mkeys (PTree p F es)"
    and "tkeys T' = tkeys (PTree p F es)" and "clean_ok D T' = clean_ok D (PTree p F es)"
    and "same_kids (PTree p F es) T'"
proof -
  note ss = set_size_same[where k = k and sz = sz and F = F]
  have F: "forest_ok d F" using ok by (simp add: tree_ok_Suc)
  have mok: "map_ok F" "map_ok (set_size k sz F)"
    using forest_map_ok[OF F] forest_map_ok[OF forest_ok_set_size[OF F sz]] by auto
  have hd: "fst (hd (set_size k sz F)) = fst (hd F)" by (cases F) (auto simp: set_size_def)
  show "tree_ok (Suc d) T'"
    using ok forest_ok_set_size[OF F sz, of k] ss(2,8) by (simp add: T'_def tree_ok_Suc hd)
  show "den dv T' = den dv (PTree p F es)" by (rule ext) (simp only: T'_def den_PTree ss(1))
  show "mkeys T' = mkeys (PTree p F es)" using ss(2) by (simp add: T'_def)
  show "tkeys T' = tkeys (PTree p F es)" using ss(3,4) by (simp add: T'_def tkeys_PTree)
  show "same_kids (PTree p F es) T'" using ss(7) by (simp add: T'_def same_kids_def)
  show "clean_ok D T' = clean_ok D (PTree p F es)"
    unfolding T'_def clean_ok_owns[OF mok(1)] clean_ok_owns[OF mok(2)] ss(5)
    by (simp add: set_size_def owns_def split_def)
qed

text \<open>
  The parent hands the messages \<open>ce\<close> to the child \<open>t\<close> and keeps the buffer \<open>es2\<close>; \<open>elts\<close> are those
  of the messages that are new to the parent.
\<close>

definition hands_down :: "bool \<Rightarrow> nat \<Rightarrow> 'v \<Rightarrow> 'k message_key set \<Rightarrow> 'p \<Rightarrow> ('p, 'k, 'v) forest \<Rightarrow> 'k \<Rightarrow> ('p, 'k, 'v) ptree
    \<Rightarrow> nat \<Rightarrow> ('p, 'k, 'v) forest \<Rightarrow> ('k, 'v) message_map \<Rightarrow> ('k, 'v) message_map \<Rightarrow> ('k, 'v) message_map
    \<Rightarrow> ('k, 'v) message_map \<Rightarrow> bool" where
  "hands_down quiet d dv M p A k t n B es elts es2 ce \<longleftrightarrow>
     tree_ok (Suc d) (PTree p (A @ (k, t, n) # B) es2) \<and> filter (for_child k B) es2 = [] \<and>
     in_child k B (key ` fst ` set ce) \<and> fst ` set ce \<subseteq> fst ` set es \<union> M \<and>
     taken dv elts (den dv (PTree p (A @ (k, t, n) # B) es))
       (\<lambda>x. apply_msgs dv (den dv (PTree p (A @ (k, t, n) # B) es2) x) (msgs_for ce x)) \<and>
     fst ` set es2 \<subseteq> fst ` set es \<and> (quiet \<longrightarrow> es2 = es)"

lemma hands_downD:
  assumes "hands_down quiet d dv M p A k t n B es elts es2 ce"
  shows "tree_ok (Suc d) (PTree p (A @ (k, t, n) # B) es2)" and "filter (for_child k B) es2 = []"
     and "in_child k B (key ` fst ` set ce)" and "fst ` set ce \<subseteq> fst ` set es \<union> M"
     and "taken dv elts (den dv (PTree p (A @ (k, t, n) # B) es))
       (\<lambda>x. apply_msgs dv (den dv (PTree p (A @ (k, t, n) # B) es2) x) (msgs_for ce x))"
     and "fst ` set es2 \<subseteq> fst ` set es" and "quiet \<Longrightarrow> es2 = es"
  using assms unfolding hands_down_def by - ((elim conjE, assumption) | (elim conjE, erule mp, assumption))+

lemma hands_down_graft:
  assumes r: "ready quiet (Suc d) U (PTree p (A @ (k, t, n) # B) es) s"
    and h: "hands_down quiet d dv M p A k t n B es elts es2 ce"
    and g: "grafted quiet p A t B s G es2 s'" and G: "becomes d dv k t ce G"
  shows "stays quiet (Suc d) dv M (PTree p (A @ (k, t, n) # B) es) elts s (PTree p (A @ G @ B) es2) s'"
  by (rule graft_stays[OF r g G hands_downD[OF h]])

lemma wp_after_split:
  assumes r: "ready quiet (Suc d) U (PTree p (A @ (k, t, n) # B) es) s"
    and h: "hands_down quiet d dv M p A k t n B es elts es2 ce"
    and sp: "splits quiet d dv (fst ` set ce) t ce s G s3"
    and sA: "resumed p \<lparr>pivots = pivot_table (A @ (k, t, n) # B), elements = es2\<rparr> s s3 sA"
  shows "wpE (replace_child ops p (length A) (pivot_table G) sA) swap_err
     (\<lambda>s'. stays quiet (Suc d) dv M (PTree p (A @ (k, t, n) # B) es) elts s (PTree p (A @ G @ B) es2) s')"
proof -
  note b = splits_becomes[OF sp, of k]
  have "tree_ok (Suc d) (PTree p (A @ G @ B) es2)"
    using b unfolding becomes_def taken_def by (intro child_replaced(1)[OF hands_downD(1,2)[OF h] _ _ _ _ _ hands_downD(3)[OF h]]) blast+
  then have fit: "node_fit \<lparr>pivots = pivot_table (A @ G @ B), elements = es2\<rparr>"
    using node_fit_node_of by (fastforce simp: node_of_def)
  show ?thesis
    by (rule wpE_mono[OF wp_replace_child[OF r sp sA fit]]) (auto intro: hands_down_graft[OF r h _ b])
qed

lemma wp_after_stay:
  assumes r: "ready quiet (Suc d) U (PTree p (A @ (k, t, n) # B) es) s"
    and h: "hands_down quiet d dv M p A k t n B es elts es2 ce"
    and st: "stays quiet d dv (fst ` set ce) t ce s t' s3" 
    and sA: "resumed p \<lparr>pivots = pivot_table (A @ (k, t, n) # B), elements = es2\<rparr> s s3 sA"
    and U: "finite U" "card U < 2 ^ 29" and M: "M \<subseteq> U"
  shows "wpE (sizes ops (ptr t) sA) swap_err (\<lambda>(sz, s4). sz < 2 ^ 64 \<and>
      stays quiet (Suc d) dv M (PTree p (A @ (k, t, n) # B) es) elts s (PTree p (A @ (k, t', n) # B) es2) s4)"
proof -
  let ?T = "PTree p (A @ (k, t, n) # B) es"
  note T = readyD[OF r] and t' = staysD[OF st] and dc = distinct_child[OF readyD(6)[OF r]]
  have F: "forest_ok d (A @ (k, t, n) # B)" using T(1) by (simp add: tree_ok_Suc)
  have p': "p \<notin> set (ptrs t')" "view sA = (view s3)(p \<mapsto> \<lparr>pivots = pivot_table (A @ (k, t, n) # B), elements = es2\<rparr>)"
    "sinv sA"
    using dc(2) rep_dom[OF T(5)] frameD(3)[OF t'(7)] sA unfolding ptrs_child list.set resumed_def same_pins_def by blast+
  have rep: "rep (view sA) t'" unfolding p'(2) by (rule rep_cong[OF t'(2)]) (use p'(1) in auto)
  have ce: "fst ` set ce \<subseteq> U" using hands_downD(4)[OF h] M T(8) unfolding keys_child by blast
  have "tkeys t \<subseteq> key ` U" using T(9) unfolding keys_child by blast
  then have sub: "mkeys t' \<subseteq> U" "tkeys t' \<subseteq> key ` U"
    using t'(5,6) ce T(8) image_mono[OF ce, of key] unfolding keys_child by blast+
  show ?thesis
  proof (rule wp_sizes[where n = "node_of t'"])
    show "view sA (ptr t) = Some (node_of t')" using rep_iff[THEN iffD1, OF rep] t'(1) by simp
    show "view sA q \<noteq> None" if "q \<in> set (node_refs (node_of t'))" for q
      using that rep_live[OF rep] node_refs_node_of[of t'] by blast
    fix s4 assume s4: "view s4 = view sA" "keeps {ptr t} sA s4"
    have "stays quiet (Suc d) dv M ?T elts s (PTree p (A @ [(k, t', n)] @ B) es2) s4"
      by (rule hands_down_graft[OF r h stays_grafted[OF T(5,6) st sA s4] stays_becomes[OF st F hands_downD(3)[OF h]]])
    then show "case (node_size (node_of t'), s4) of (sz, s4) \<Rightarrow> sz < 2 ^ 64 \<and>
      stays quiet (Suc d) dv M ?T elts s (PTree p (A @ (k, t', n) # B) es2) s4"
      using tree_small(2)[OF t'(3) sub U(1)] U(2) by simp
  qed (rule p'(3))
qed

lemma wp_set_size:
  assumes r: "ready quiet (Suc d) U (PTree p F es) s" and sz: "sz < 2 ^ 64"
    and f: "f (node_of (PTree p F es)) = node_of (PTree p (set_size k sz F) es)"
  shows "wpE (assign ops p f s) E (\<lambda>(_, s'). stays quiet (Suc d) dv M (PTree p F es) [] s (PTree p (set_size k sz F) es) s')"
proof -
  note T = readyD[OF r] and z = set_size_tree[OF readyD(1)[OF r] sz, where k = k]
  have "stays quiet (Suc d) dv M (PTree p F es) [] s (PTree p (set_size k sz F) es)
      (ss_store ops (ptr (PTree p F es)) (node_of (PTree p (set_size k sz F) es)) s)"
  proof (rule stays_store[OF T(2-6) z(1,6)])
    show "taken dv [] (den dv (PTree p F es)) (den dv (PTree p (set_size k sz F) es))" by (simp add: taken_def z(2))
    show "clean_ok (\<lambda>q. ss_is_dirty ops q s) (PTree p (set_size k sz F) es)" if quiet using T(10) that z(5) by simp
  qed (use z(3,4) in auto)
  then show ?thesis using ready_node[OF r] f by (simp add: assign_def)
qed

subsection \<open>Messages for one dirty child\<close>

lemma resumed_self:
  assumes rep: "rep (view s) (PTree p (A @ (k, t, n) # B) es)"
    and dist: "distinct (ptrs (PTree p (A @ (k, t, n) # B) es))"
    and f: "frame s s3 t ps"
  shows "resumed p \<lparr>pivots = pivot_table (A @ (k, t, n) # B), elements = es\<rparr> s s3 s3"
proof -
  have "p \<in> dom (view s) - set (ptrs t)" using rep_dom[OF rep] distinct_child(2)[OF dist] by auto
  then have "view s3 p = view s p" using frameD(4)[OF f] by blast
  also have "\<dots> = Some \<lparr>pivots = pivot_table (A @ (k, t, n) # B), elements = es\<rparr>" using rep by simp
  finally show ?thesis using frameD(1)[OF f] by (simp add: resumed_def fun_upd_idem)
qed

lemma msgs_ok_child:
  assumes "msgs_ok quiet U (PTree p (A @ (k, t, n) # B) es) elts"
  shows "msgs_ok quiet U t elts"
  using assms older_mono[of "mkeys (PTree p (A @ (k, t, n) # B) es)" elts "mkeys t"]
  by (auto simp: msgs_ok_def)

lemma for_child_table: "for_child k (pivot_table B) = for_child k B"
  by (rule ext) (cases B; auto simp: for_child_def)

lemma wp_flush_direct:
  assumes rec: "flush_ok quiet d U dv rec" and r: "ready quiet (Suc d) U (PTree p (A @ (k, t, n) # B) es) s"
    and m: "msgs_ok quiet U (PTree p (A @ (k, t, n) # B) es) elts" and inch: "in_child k B (key ` fst ` set elts)"
    and dirty: "ss_is_dirty ops (ptr t) s" and U: "finite U" "card U < 2 ^ 29"
  shows "wpE (flush_direct rec ops p (length A) elts s) (errs quiet)
     (\<lambda>s'. \<exists>T'. stays quiet (Suc d) dv (fst ` set elts) (PTree p (A @ (k, t, n) # B) es) elts s T' s')"
    (is "wpE _ _ ?Q")
proof -
  let ?T = "PTree p (A @ (k, t, n) # B) es" and ?n = "\<lparr>pivots = pivot_table (A @ (k, t, n) # B), elements = es\<rparr>"
  note T = readyD[OF r]
  have M: "fst ` set elts \<subseteq> U" using m by (simp add: msgs_ok_def)
  have n: "this_node ops p s = Inr ?n" using ready_node[OF r] by (simp add: node_of_def)
  have nf: "map_ok (elements ?n)" "map_ok (pivots ?n)"
    using node_fit_node_of[OF T(1)] by (simp_all add: node_fit_def node_of_def del: pivot_table_simps)
  have piv: "pivots ?n = pivot_table A @ (k, \<lparr>child = ptr t, child_size = n\<rparr>) # pivot_table B" by simp
  note er = element_range[OF nf(1) piv nf(2)]
  note fc = for_child_table[of k B]
  show ?thesis
  proof (cases "filter (for_child k B) es = []")
    case False
    then have "\<not> quiet" using T(10) clean_okD dirty by fastforce
    moreover have "get_element_begin_it ?n (length A) \<noteq> get_element_begin_it ?n (Suc (length A))"
      using er(3,4) False by (auto simp: fc)
    ultimately show ?thesis by (simp add: flush_direct_def n wp_rules errs_def)
  next
    case True
    have eq: "get_element_begin_it ?n (length A) = get_element_begin_it ?n (Suc (length A))"
      using er(3,4) True by (simp add: fc)
    have h: "hands_down quiet d dv (fst ` set elts) p A k t n B es elts es elts"
      using T(1) True inch by (simp add: hands_down_def taken_def)
    let ?after = "\<lambda>(new_children, s1). if new_children \<noteq> [] then replace_child ops p (length A) new_children s1
      else bindE (sizes ops (ptr t) s1) (\<lambda>(sz, s2). bindE (assign ops p (\<lambda>m. m\<lparr>pivots :=
         (pivots m)[length A := map_prod id (set_child_size sz) (pivots m ! length A)]\<rparr>) s2) (\<lambda>(_, s3). Inr s3))"
    have "wpE (arrow ops True (ptr t) (rec (ptr t) elts) s) (errs quiet) (\<lambda>x. wpE (?after x) (errs quiet) ?Q)"
    proof (rule wpE_mono[OF wp_call_child[OF rec r msgs_ok_child[OF m]]])
      fix x assume x: "flush_result quiet d dv (fst ` set elts) t elts s x \<and> same_pins s (snd x)"
      then consider (stay) t' s3 where "x = ([], s3)" "stays quiet d dv (fst ` set elts) t elts s t' s3"
        | (split) G s3 where "x = (pivot_table G, s3)" "splits quiet d dv (fst ` set elts) t elts s G s3"
        by (cases x) (auto simp: flush_result_def)
      then show "wpE (?after x) (errs quiet) ?Q"
      proof cases
        case split
        note sp = wp_after_split[OF r h split(2) resumed_self[OF T(5,6) splitsD(7)[OF split(2)]]]
        have "G \<noteq> []" by (rule splitsD(1)[OF split(2)])
        then show ?thesis unfolding split(1) using sp by (auto elim!: wpE_mono simp: errs_def)
      next
        case stay
        note st = wp_after_stay[OF r h stay(2) resumed_self[OF T(5,6) staysD(7)[OF stay(2)]] U M]
        have "wpE (assign ops p (\<lambda>m. m\<lparr>pivots := (pivots m)[length A := map_prod id (set_child_size sz) (pivots m ! length A)]\<rparr>) s4)
            (errs quiet) (\<lambda>(_, s3). ?Q s3)"
          if sz: "sz < 2 ^ 64" and st4: "stays quiet (Suc d) dv (fst ` set elts) ?T elts s (PTree p (A @ (k, t', n) # B) es) s4" for sz s4
        proof -
          note r4 = stays_ready[OF r st4 M]
          have F: "map_ok (A @ (k, t', n) # B)" using readyD(1)[OF r4] forest_map_ok by (auto simp: tree_ok_Suc)
          show ?thesis
            by (rule wpE_mono[OF wp_set_size[OF r4 sz]])
              (use pivot_table_update[OF F] stays_trans[OF st4] in \<open>fastforce simp: node_of_def simp del: pivot_table_simps\<close>)+
        qed
        then show ?thesis unfolding stay(1) using st
          by (auto simp: wp_rules split_def elim!: wpE_mono simp: errs_def)
      qed
    qed simp
    moreover have c: "child (snd (pivots ?n ! length A)) = ptr t" by (simp add: nth_append)
    ultimately show ?thesis
      unfolding flush_direct_def n bindE_simps eq Let_def c wpE_bindE wpE_assertE by simp
  qed
qed

subsection \<open>The loop that flushes batches down\<close>

lemma stays_refl:
  assumes r: "ready quiet d U T s"
  shows "stays quiet d dv M T [] s T s"
proof -
  note T = readyD[OF r]
  have "frame s s T (ptrs T)" using T(2,6) rep_dom[OF T(5)] unfolding frame_def by (auto simp: same_pins_refl)
  then show ?thesis using T by (auto simp: stays_def taken_def no_new_dirt_def)
qed

lemma batch_hands_down:
  fixes t :: "('p, 'k, 'v) ptree"
  assumes ok: "tree_ok (Suc d) (PTree p (A @ (k, t, n) # B) es)"
  shows "hands_down False d dv {} p A k t n B es [] (filter (\<lambda>e. \<not> for_child k B e) es) (filter (for_child k B) es)"
  using take_out(1,3,4)[OF ok] take_out(2)[OF ok, of dv] unfolding hands_down_def taken_def by auto

lemma batch_msgs_ok:
  assumes r: "ready False (Suc d) U (PTree p (A @ (k, t, n) # B) es) s"
  shows "msgs_ok False U t (filter (for_child k B) es)"
proof -
  have "fst ` set es \<subseteq> U" using readyD(8)[OF r] unfolding keys_child by blast
  then show ?thesis using take_out(5-7)[OF readyD(1)[OF r]] unfolding msgs_ok_def by auto
qed

lemma frame_roots:
  assumes rep: "rep (view s) (PTree p (A @ (k, t, n) # B) es)"
    and dist: "distinct (ptrs (PTree p (A @ (k, t, n) # B) es))"
    and f: "frame s s3 t ps" and t: "ptr t \<in> set ps" and q: "q \<in> set (roots (A @ (k, t, n) # B))"
  shows "view s3 q \<noteq> None"
proof -
  have "q \<in> set (roots A) \<union> set (roots B) \<or> q = ptr t" using q by auto
  then show ?thesis
  proof
    assume q: "q \<in> set (roots A) \<union> set (roots B)"
    then have "q \<in> set (ptrs (PTree p (A @ (k, t, n) # B) es))"
      using roots_in_fptrs[of A] roots_in_fptrs[of B] unfolding ptrs_child set_append list.set by blast
    then have "q \<in> dom (view s) - set (ptrs t)" using distinct_child(3)[OF dist q] rep_dom[OF rep] by blast
    then show ?thesis using frameD(5)[OF f] by blast
  next
    assume "q = ptr t"
    then show ?thesis using frameD(5)[OF f] t by blast
  qed
qed

lemma wp_erase_batch:
  assumes r: "ready quiet (Suc d) U (PTree p (A @ (k, t, n) # B) es) s"
    and f: "frame s s3 t ps" and t: "ptr t \<in> set ps"
    and fit: "node_fit \<lparr>pivots = pivot_table (A @ (k, t, n) # B), elements = es2\<rparr>"
    and g: "g \<lparr>pivots = pivot_table (A @ (k, t, n) # B), elements = es\<rparr> = \<lparr>pivots = pivot_table (A @ (k, t, n) # B), elements = es2\<rparr>"
    and Q: "\<And>sA. resumed p \<lparr>pivots = pivot_table (A @ (k, t, n) # B), elements = es2\<rparr> s s3 sA \<Longrightarrow> Q ((), sA)"
  shows "wpE (assign ops p g s3) E Q"
proof -
  let ?n = "\<lambda>es. \<lparr>pivots = pivot_table (A @ (k, t, n) # B), elements = es\<rparr>"
  note T = readyD[OF r]
  have v3: "view s3 = (view s3)(p \<mapsto> ?n es)" and p3: "same_pins s s3"
    using resumed_self[OF T(5,6) f] by (simp_all add: resumed_def)
  show ?thesis
  proof (rule wp_assign[where n = "?n es"])
    show "sinv s3" "pins s3 p > 0" "ss_is_dirty ops p s3" using p3 T(3,4) by (simp_all add: same_pins_def)
    show "view s3 p = Some (?n es)" using fun_cong[OF v3, of p] by simp
    show "storable (g (?n es))" unfolding g by (rule storable_node[OF fit])
    show "view s3 q \<noteq> None" if "q \<in> set (node_refs (g (?n es)))" for q
      using that frame_roots[OF T(5,6) f t] unfolding g node_refs_table by blast
    fix sA assume "view sA = (view s3)(p \<mapsto> g (?n es))" "same_pins s3 sA" "\<And>q. ss_is_dirty ops q sA = ss_is_dirty ops q s3"
    then show "Q ((), sA)" unfolding g by (intro Q) (auto simp: resumed_def intro: same_pins_trans[OF p3])
  qed
qed

text \<open>One round: what the loop goes on with after a batch has been taken by a child.\<close>

lemma wp_round:
  assumes rec: "flush_ok False d U dv rec" and U: "finite U" "card U < 2 ^ 29"
    and r: "ready False (Suc d) U (PTree p (A @ (k, t, n) # B) es) s"
    and g: "g \<lparr>pivots = pivot_table (A @ (k, t, n) # B), elements = es\<rparr>
          = \<lparr>pivots = pivot_table (A @ (k, t, n) # B), elements = filter (\<lambda>e. \<not> for_child k B e) es\<rparr>"
    and E: "\<And>e. errs False e \<Longrightarrow> E e"
    and K1: "\<And>F' s'. stays False (Suc d) dv {} (PTree p (A @ (k, t, n) # B) es) [] s
        (PTree p F' (filter (\<lambda>e. \<not> for_child k B e) es)) s' \<Longrightarrow> wpE (K1 s') E Q"
    and K2: "\<And>F' s' sz. stays False (Suc d) dv {} (PTree p (A @ (k, t, n) # B) es) [] s
        (PTree p F' (filter (\<lambda>e. \<not> for_child k B e) es)) s' \<Longrightarrow> sz < 2 ^ 64 \<Longrightarrow> wpE (K2 (sz, s')) E Q"
  shows "wpE (bindE (arrow ops True (ptr t) (rec (ptr t) (filter (for_child k B) es)) s) (\<lambda>(new_children, s1).
      bindE (assign ops p g s1) (\<lambda>(_, s2).
      if new_children \<noteq> [] then bindE (replace_child ops p (length A) new_children s2) K1
      else bindE (sizes ops (ptr t) s2) K2))) E Q"
proof -
  let ?T = "PTree p (A @ (k, t, n) # B) es" and ?es2 = "filter (\<lambda>e. \<not> for_child k B e) es"
    and ?ce = "filter (for_child k B) es"
  note T = readyD[OF r]
  note h = batch_hands_down[OF T(1), of dv] and m = batch_msgs_ok[OF r]
  have fit: "node_fit \<lparr>pivots = pivot_table (A @ (k, t, n) # B), elements = ?es2\<rparr>"
    using node_fit_node_of[OF hands_downD(1)[OF h]] by (simp add: node_of_def)
  let ?after = "\<lambda>(new_children, s1). bindE (assign ops p g s1) (\<lambda>(_, s2).
      if new_children \<noteq> [] then bindE (replace_child ops p (length A) new_children s2) K1
      else bindE (sizes ops (ptr t) s2) K2)"
  have "wpE (arrow ops True (ptr t) (rec (ptr t) ?ce) s) E (\<lambda>x. wpE (?after x) E Q)"
  proof (rule wpE_mono[OF wp_call_child[OF rec r m]])
    fix x assume "flush_result False d dv (fst ` set ?ce) t ?ce s x \<and> same_pins s (snd x)"
    then consider (stay) t' s3 where "x = ([], s3)" "stays False d dv (fst ` set ?ce) t ?ce s t' s3"
      | (split) G s3 where "x = (pivot_table G, s3)" "splits False d dv (fst ` set ?ce) t ?ce s G s3"
      by (cases x) (auto simp: flush_result_def)
    then show "wpE (?after x) E Q"
    proof cases
      case split
      have G: "pivot_table G \<noteq> []" using splitsD(1)[OF split(2)] by simp
      have "wpE (assign ops p g s3) E (\<lambda>(_, s2). wpE (replace_child ops p (length A) (pivot_table G) s2) E (\<lambda>s'. wpE (K1 s') E Q))"
      proof (rule wp_erase_batch[where g = g, OF r splitsD(7)[OF split(2)] _ fit g])
        fix sA assume sA: "resumed p \<lparr>pivots = pivot_table (A @ (k, t, n) # B), elements = ?es2\<rparr> s s3 sA"
        show "case ((), sA) of (_, s2) \<Rightarrow> wpE (replace_child ops p (length A) (pivot_table G) s2) E (\<lambda>s'. wpE (K1 s') E Q)"
          unfolding prod.case by (rule wpE_mono[OF wp_after_split[OF r h split(2) sA]]) (auto intro: K1 E simp: errs_def)
      qed simp
      then show ?thesis unfolding split(1) prod.case wpE_bindE using G by (simp add: split_def wp_rules)
    next
      case stay
      have "ptr t \<in> set (ptrs t')" using staysD(1)[OF stay(2)] ptr_in_ptrs[of t'] by simp
      then have "wpE (assign ops p g s3) E (\<lambda>(_, s2). wpE (sizes ops (ptr t) s2) E (\<lambda>x. wpE (K2 x) E Q))"
      proof (rule wp_erase_batch[where g = g, OF r staysD(7)[OF stay(2)] _ fit g])
        fix sA assume sA: "resumed p \<lparr>pivots = pivot_table (A @ (k, t, n) # B), elements = ?es2\<rparr> s s3 sA"
        show "case ((), sA) of (_, s2) \<Rightarrow> wpE (sizes ops (ptr t) s2) E (\<lambda>x. wpE (K2 x) E Q)"
          unfolding prod.case by (rule wpE_mono[OF wp_after_stay[OF r h stay(2) sA U]]) (auto intro: K2 E simp: errs_def)
      qed
      then show ?thesis unfolding stay(1) prod.case wpE_bindE by (simp add: split_def wp_rules)
    qed
  qed (use E in auto)
  then show ?thesis unfolding wpE_bindE by (simp add: split_def)
qed

lemma quiet_no_batch:
  assumes c: "config_ok True U bet" and r: "ready True d U T s" and fl: "find_largest (node_of T) = (cp, np, ms)"
  shows "\<not> ms > min_flush_size bet div 2" and "\<not> ms > min_flush_size bet"
proof -
  have "ms \<le> length (elements (node_of T))"
  proof (cases "ms > 0")
    case True
    then have cp: "cp < length (pivots (node_of T))" "ms = child_dist (node_of T) cp" using find_largest(2)[OF fl] by auto
    have nf: "map_ok (elements (node_of T))" "map_ok (pivots (node_of T))"
      using node_fit_node_of[OF readyD(1)[OF r]] by (simp_all add: node_fit_def)
    have "pivots (node_of T) = take cp (pivots (node_of T)) @ pivots (node_of T) ! cp # drop (Suc cp) (pivots (node_of T))"
      using cp(1) by (rule id_take_nth_drop)
    note er = element_range(5)[OF nf(1) this nf(2)]
    have "length (take cp (pivots (node_of T))) = cp" using cp(1) by simp
    then have "child_dist (node_of T) cp \<le> length (elements (node_of T))"
      using er by (auto simp: child_dist_def intro: order_trans[OF mod_less_eq_dividend])
    then show ?thesis using cp(2) by simp
  qed simp
  also have "\<dots> \<le> card U" using node_small(1)[OF r] c by (simp add: node_of_def config_ok_def)
  finally have "ms \<le> card U" .
  moreover have "2 * card U \<le> min_flush_size bet" using c by (simp add: config_ok_def)
  ultimately show "\<not> ms > min_flush_size bet div 2" "\<not> ms > min_flush_size bet" by linarith+
qed

lemma wp_flush_loop:
  assumes rec: "flush_ok quiet d U dv rec" and c: "config_ok quiet U bet"
  shows "ready quiet (Suc d) U T s \<Longrightarrow> length (buf T) < fuel \<Longrightarrow>
    wpE (flush_loop fuel rec ops bet (ptr T) fpi s) (errs quiet) (\<lambda>s'. \<exists>T'. stays quiet (Suc d) dv {} T [] s T' s')"
proof (induction fuel arbitrary: T s fpi)
  case (Suc fuel)
  note r = Suc.prems(1)
  have U: "finite U" "card U < 2 ^ 29" using c by (simp_all add: config_ok_def)
  obtain p F es where T: "T = PTree p F es" by (cases T)
  let ?n = "node_of T"
  have n: "this_node ops p s = Inr ?n" using ready_node[OF r] by (simp add: T)
  obtain cp np ms where fl: "find_largest ?n = (cp, np, ms)" by (cases "find_largest ?n")
  show ?case
  proof (cases "node_size ?n \<ge> max_node_size bet \<and> (ms > min_flush_size bet \<or>
      (ms > min_flush_size bet div 2 \<and> ss_is_in_memory ops (child (snd (pivots ?n ! cp))) s))")
    case False
    then have "flush_loop (Suc fuel) rec ops bet p fpi s = Inr s" by (auto simp: n fl)
    then show ?thesis using stays_refl[OF r] by (auto simp: T)
  next
    case True
    have nq: "\<not> quiet" using True quiet_no_batch[of U bet "Suc d" T s cp np ms] c r fl by auto
    have ms: "ms > 0" using True by auto
    then have cp: "cp < length F" "np = Suc cp" "ms = child_dist ?n cp" using find_largest(2)[OF fl] by (auto simp: T node_of_def)
    obtain A k t m B where F: "F = A @ (k, t, m) # B" and A: "length A = cp"
      using id_take_nth_drop[OF cp(1)] cp(1) by (cases "F ! cp") (metis length_take min.absorb4)
    let ?es2 = "filter (\<lambda>e. \<not> for_child k B e) es" and ?ce = "filter (for_child k B) es"
    have piv: "pivots ?n = pivot_table A @ (k, \<lparr>child = ptr t, child_size = m\<rparr>) # pivot_table B" by (simp add: T F node_of_def)
    have nf: "map_ok (elements ?n)" "map_ok (pivots ?n)"
      using node_fit_node_of[OF readyD(1)[OF r]] by (simp_all add: node_fit_def)
    have els: "elements ?n = es" by (simp add: T node_of_def)
    note er = element_range(1-3)[OF nf(1) piv nf(2), unfolded for_child_table length_pivot_table fst_conv A els]
    have "length ?ce > 0" using ms er(3) cp(3) by (auto simp: child_dist_def)
    then have less: "length ?es2 < length es" using sum_length_filter_compl[of "for_child k B" es] by linarith
    let ?g = "\<lambda>m. m\<lparr>elements := erase_range (elements m) (get_element_begin_it ?n cp) (get_element_begin_it ?n (Suc cp))\<rparr>"
    let ?K1 = "flush_loop fuel rec ops bet p (if fpi = Some k then None else fpi)"
    let ?K2 = "\<lambda>(sz, s3). case fpi of None \<Rightarrow> Inl Dangling_Iterator | Some k0 \<Rightarrow>
        bindE (assign ops p (\<lambda>m. m\<lparr>pivots := map (\<lambda>(k', ci). (k', if k' = k0 then set_child_size sz ci else ci)) (pivots m)\<rparr>) s3)
          (\<lambda>(_, s4). flush_loop fuel rec ops bet p fpi s4)"
    let ?Q = "\<lambda>s'. \<exists>T'. stays False (Suc d) dv {} T [] s T' s'"
    have go: "wpE (flush_loop fuel rec ops bet p fpi' s') (errs False) ?Q"
      if st: "stays False (Suc d) dv {} T [] s (PTree p F' ?es2) s'" for F' s' fpi'
    proof -
      have "ready False (Suc d) U (PTree p F' ?es2) s'" using stays_ready[OF _ st] r nq by simp
      from Suc.IH[of "PTree p F' ?es2" s' fpi'] this less Suc.prems(2) nq
      have "wpE (flush_loop fuel rec ops bet p fpi' s') (errs False) (\<lambda>s2. \<exists>T'. stays False (Suc d) dv {} (PTree p F' ?es2) [] s' T' s2)"
        by (simp add: T)
      then show ?thesis by (rule wpE_mono) (use stays_trans[OF st] in auto)
    qed
    have "wpE (bindE (arrow ops True (ptr t) (rec (ptr t) ?ce) s) (\<lambda>(new_children, s1).
      bindE (assign ops p ?g s1) (\<lambda>(_, s2).
      if new_children \<noteq> [] then bindE (replace_child ops p (length A) new_children s2) ?K1
      else bindE (sizes ops (ptr t) s2) ?K2))) (errs False) ?Q"
    proof (rule wp_round[where g = ?g and dv = dv, OF _ U, where n = m and es = es])
      show "flush_ok False d U dv rec" "ready False (Suc d) U (PTree p (A @ (k, t, m) # B) es) s" using rec r nq by (simp_all add: T F)
      show "?g \<lparr>pivots = pivot_table (A @ (k, t, m) # B), elements = es\<rparr> = \<lparr>pivots = pivot_table (A @ (k, t, m) # B), elements = ?es2\<rparr>"
        using er(2) by (simp add: T F node_of_def)
    next
      fix F' s' assume "stays False (Suc d) dv {} (PTree p (A @ (k, t, m) # B) es) [] s (PTree p F' ?es2) s'"
      then show "wpE (?K1 s') (errs False) ?Q" by (intro go) (simp add: T F)
    next
      fix F' s' and sz :: nat assume st: "stays False (Suc d) dv {} (PTree p (A @ (k, t, m) # B) es) [] s (PTree p F' ?es2) s'" and sz: "sz < 2 ^ 64"
      show "wpE (?K2 (sz, s')) (errs False) ?Q"
      proof (cases fpi)
        case (Some k0)
        have st': "stays False (Suc d) dv {} T [] s (PTree p F' ?es2) s'" using st by (simp add: T F)
        have r': "ready False (Suc d) U (PTree p F' ?es2) s'" using stays_ready[OF _ st'] r nq by simp
        have "wpE (assign ops p (\<lambda>m. m\<lparr>pivots := map (\<lambda>(k', ci). (k', if k' = k0 then set_child_size sz ci else ci)) (pivots m)\<rparr>) s')
            (errs False) (\<lambda>x. wpE (case x of (_, s4) \<Rightarrow> flush_loop fuel rec ops bet p fpi s4) (errs False) ?Q)"
          by (rule wpE_mono[OF wp_set_size[OF r' sz, where k = k0 and dv = dv and M = "{}"]])
            (auto simp: node_of_def pivot_table_set_size intro!: go[OF stays_trans[OF st', where ?e2.0 = "[]", unfolded append_Nil]])
        then show ?thesis unfolding Some prod.case option.case wpE_bindE .
      qed (simp add: errs_def)
    qed (auto simp: errs_def)
    moreover have "flush_loop (Suc fuel) rec ops bet p fpi s = bindE (arrow ops True (ptr t) (rec (ptr t) ?ce) s) (\<lambda>(new_children, s1).
      bindE (assign ops p ?g s1) (\<lambda>(_, s2).
      if new_children \<noteq> [] then bindE (replace_child ops p (length A) new_children s2) ?K1
      else bindE (sizes ops (ptr t) s2) ?K2))"
    proof -
      have c: "child (snd (pivots ?n ! cp)) = ptr t" "fst (pivots ?n ! cp) = k" by (simp_all add: piv nth_append A[symmetric])
      have C: "max_node_size bet \<le> node_size ?n" "(min_flush_size bet < ms \<or> min_flush_size bet div 2 < ms \<and> ss_is_in_memory ops (ptr t) s) = True"
        using True c by auto
      show ?thesis
        by (simp only: flush_loop.simps n bindE_simps fl prod.case Let_def c C cp(2) er(1) els if_True not_True_eq_False if_False A)
    qed
    ultimately show ?thesis using nq by (simp add: T)
  qed
qed simp

subsection \<open>The buffered case\<close>

lemma stays_weaken: "stays quiet d dv {} T elts s T' s' \<Longrightarrow> stays quiet d dv M T elts s T' s'"
  unfolding stays_def by blast

lemma apply_clean:
  fixes es elts :: "('k, 'v) message_map" and F :: "('p, 'k, 'v) forest"
  assumes F: "map_ok F" and old: "clean_ok D (PTree p F es)" and keys: "fst ` set es' \<subseteq> fst ` set es \<union> fst ` set elts"
    and new: "\<And>e c. e \<in> set elts \<Longrightarrow> c \<in> set F \<Longrightarrow> owns F c (key (fst e)) \<Longrightarrow> \<not> D (ptr (fst (snd c)))"
  shows "clean_ok D (PTree p F es')"
  unfolding clean_ok_owns[OF F]
proof (intro conjI ballI impI)
  fix e c assume e: "e \<in> set es'" "c \<in> set F" "owns F c (key (fst e))"
  have "fst e \<in> fst ` set es \<union> fst ` set elts" using keys e(1) by blast
  then obtain e' where "e' \<in> set es \<or> e' \<in> set elts" "fst e' = fst e" by (elim UnE imageE) metis+
  then show "\<not> D (ptr (fst (snd c)))" using e new[of e' c] old unfolding clean_ok_owns[OF F] by metis
qed (use old in \<open>simp add: clean_ok_owns[OF F]\<close>)

lemma apply_stays:
  fixes T :: "('p, 'k, 'v) ptree"
  assumes r: "ready quiet (Suc d) U T s" and m: "msgs_ok quiet U T elts" and T: "T = PTree p F es"
    and first: "\<forall>e\<in>set elts. fst (hd F) \<le> key (fst e)"
    and new: "\<And>e c. quiet \<Longrightarrow> e \<in> set elts \<Longrightarrow> c \<in> set F \<Longrightarrow> owns F c (key (fst e)) \<Longrightarrow> \<not> ss_is_dirty ops (ptr (fst (snd c))) s"
  obtains es' where "apply_all dv (node_of T) elts = Inr (node_of (PTree p F es'))"
    and "stays quiet (Suc d) dv (fst ` set elts) T elts s (PTree p F es') (ss_store ops p (node_of (PTree p F es')) s)"
proof -
  let ?n = "node_of T"
  note r' = readyD[OF r]
  have F: "F \<noteq> []" "map_ok F" using r'(1) forest_map_ok by (auto simp: T tree_ok_Suc)
  have n: "\<not> is_leaf ?n" "elements ?n = es" using F(1) by (simp_all add: T node_of_def is_leaf_def)
  have m': "map_ok elts" "\<forall>e\<in>set elts. known_opcode (snd e)" "older (mkeys T) elts"
    using m by (simp_all add: msgs_ok_def)
  have "older (fst ` set es) elts" by (rule older_mono[OF m'(3)]) (simp_all add: T)
  then have "buf_ok (is_leaf ?n) (elements ?n)" "older (fst ` set (elements ?n)) elts"
    using r'(1) n by (simp_all add: T tree_ok_Suc)
  from apply_all_msgs[OF this(1) m'(1,2) this(2), of dv] obtain es' where
    all: "apply_all dv ?n elts = Inr (?n\<lparr>elements := es'\<rparr>)" and buf: "buf_ok False es'"
    and keys: "fst ` set es' \<subseteq> fst ` set es \<union> fst ` set elts"
    and msgs: "\<And>b x. apply_msgs dv b (msgs_for es' x)
        = apply_msgs dv (apply_msgs dv b (msgs_for es x)) (msgs_for elts x)"
    unfolding n by (auto simp: n)
  let ?T = "PTree p F es'"
  have n': "?n\<lparr>elements := es'\<rparr> = node_of ?T" by (simp add: T node_of_def)
  note add = add_messages[OF r'(1)[unfolded T], of es' elts dv, OF _ keys _ m'(3)[unfolded T] first]
  have "stays quiet (Suc d) dv (fst ` set elts) T elts s ?T (ss_store ops (ptr T) (node_of ?T) s)"
  proof (rule stays_store[OF r'(2-6)])
    show "tree_ok (Suc d) ?T" using add(1) buf msgs F(1) by simp
    show "same_kids T ?T" by (simp add: same_kids_def T)
    show "taken dv elts (den dv T) (den dv ?T)" using add(2) buf msgs F(1) by (simp add: taken_def T)
    show "mkeys ?T \<subseteq> mkeys T \<union> fst ` set elts" "tkeys ?T \<subseteq> tkeys T \<union> key ` fst ` set elts"
      using add(3,4) buf msgs F(1) by (simp_all add: T)
    show "clean_ok (\<lambda>q. ss_is_dirty ops q s) ?T" if quiet
      by (rule apply_clean[OF F(2) _ keys]) (use r'(10) that T new in auto)
  qed
  with all n' show ?thesis by (intro that) (simp_all add: T)
qed

lemma wp_flush_buffered:
  fixes T :: "('p, 'k, 'v) ptree"
  assumes rec: "flush_ok quiet d U (default_value bet) rec" and c: "config_ok quiet U bet"
    and r: "ready quiet (Suc d) U T s" and m: "msgs_ok quiet U T elts" and T: "T = PTree p F es"
    and first: "\<forall>e\<in>set elts. fst (hd F) \<le> key (fst e)"
    and new: "\<And>e c. quiet \<Longrightarrow> e \<in> set elts \<Longrightarrow> c \<in> set F \<Longrightarrow> owns F c (key (fst e)) \<Longrightarrow> \<not> ss_is_dirty ops (ptr (fst (snd c))) s"
  shows "wpE (flush_buffered rec ops bet p k elts s) (errs quiet)
     (flush_result quiet (Suc d) (default_value bet) (fst ` set elts) T elts s)"
proof -
  let ?d = "default_value bet" and ?M = "fst ` set elts"
  obtain es' where all: "apply_all ?d (node_of T) elts = Inr (node_of (PTree p F es'))"
    and st: "stays quiet (Suc d) ?d ?M T elts s (PTree p F es') (ss_store ops p (node_of (PTree p F es')) s)"
    by (rule apply_stays[OF r m T first new])
  let ?T1 = "PTree p F es'" and ?s1 = "ss_store ops p (node_of (PTree p F es')) s"
  have M: "?M \<subseteq> U" using m by (simp add: msgs_ok_def)
  have r1: "ready quiet (Suc d) U ?T1 ?s1" by (rule stays_ready[OF r st M])
  have "wpE (flush_loop (Suc (length es')) rec ops bet p (Some k) ?s1) (errs quiet) (\<lambda>s2.
      wpE (bindE (this_node ops p s2) (\<lambda>n1. if node_size n1 > max_node_size bet then node_split ops bet p s2 else Inr ([], s2)))
        (errs quiet) (flush_result quiet (Suc d) ?d ?M T elts s))"
  proof (rule wpE_mono[OF wp_flush_loop[OF rec c r1, unfolded ptree.sel]])
    fix s2 assume "\<exists>T'. stays quiet (Suc d) ?d {} ?T1 [] ?s1 T' s2"
    then obtain T2 where "stays quiet (Suc d) ?d ?M ?T1 [] ?s1 T2 s2" using stays_weaken by blast
    from stays_trans[OF st this] have st2: "stays quiet (Suc d) ?d ?M T elts s T2 s2" by simp
    have r2: "ready quiet (Suc d) U T2 s2" by (rule stays_ready[OF r st2 M])
    have p2: "ptr T2 = p" using staysD(1)[OF st2] by (simp add: T)
    show "wpE (bindE (this_node ops p s2) (\<lambda>n1. if node_size n1 > max_node_size bet then node_split ops bet p s2 else Inr ([], s2)))
        (errs quiet) (flush_result quiet (Suc d) ?d ?M T elts s)"
      using wpE_mono[OF wp_finish_split[OF c r2 st2]] ready_node[OF r2] st2 p2
      by (auto simp: T flush_result_def errs_def)
  qed simp_all
  moreover have "this_node ops p s = Inr (node_of T)" "elements (node_of ?T1) = es'"
    using ready_node[OF r] by (simp_all add: T node_of_def)
  ultimately show ?thesis by (simp only: flush_buffered_def bindE_simps all wpE_bindE)
qed

subsection \<open>A node with children\<close>

lemma map_ok_between:
  fixes elts :: "('k, 'v) message_map"
  assumes ok: "map_ok elts" and e: "e \<in> set elts"
  shows "key (fst (hd elts)) \<le> key (fst e)" and "key (fst e) \<le> key (fst (last elts))"
proof -
  have "fst (hd elts) \<le> fst e" using ok e by (cases elts) (auto simp: map_ok_Cons intro: less_imp_le)
  then show "key (fst (hd elts)) \<le> key (fst e)" by (rule key_mono)
  have "elts \<noteq> []" using e by auto
  then obtain xs x where x: "elts = xs @ [x]" by (metis rev_exhaust)
  then have "fst e \<le> fst (last elts)" using ok e by (auto simp: map_ok_append intro: less_imp_le)
  then show "key (fst e) \<le> key (fst (last elts))" by (rule key_mono)
qed

lemma wp_lower_first:
  assumes r: "ready quiet (Suc d) U (PTree p ((k, t, n) # F) es) s" and mk: "mk \<in> M"
    and Q: "\<And>s1. stays quiet (Suc d) dv M (PTree p ((k, t, n) # F) es) [] s (PTree p ((min (key mk) k, t, n) # F) es) s1 \<Longrightarrow> Q ((), s1)"
  shows "wpE (assign ops p (\<lambda>n. lower_first_pivot n mk) s) E Q"
proof -
  let ?T = "PTree p ((k, t, n) # F) es" and ?T' = "PTree p ((min (key mk) k, t, n) # F) es"
  note T = readyD[OF r] and low = lower_first[OF readyD(1)[OF r], where k' = "key mk"]
  have "stays quiet (Suc d) dv M ?T [] s ?T' (ss_store ops (ptr ?T) (node_of ?T') s)"
  proof (rule stays_store[OF T(2-6) low(1)])
    show "same_kids ?T ?T'" by (simp add: same_kids_def)
    show "taken dv [] (den dv ?T) (den dv ?T')" by (simp only: taken_def low(2) msgs_for_Nil) simp
    show "tkeys ?T' \<subseteq> tkeys ?T \<union> key ` M" using low(3) mk by blast
    show "clean_ok (\<lambda>q. ss_is_dirty ops q s) ?T'" if quiet using T(10) that by (intro low(4)) blast
  qed simp
  moreover have "map_ok (pivots (node_of ?T))" using node_fit_node_of[OF T(1)] by (simp add: node_fit_def)
  then have "lower_first_pivot (node_of ?T) mk = node_of ?T'"
    by (subst lower_first_pivot_pivots) (auto simp: node_of_def)
  ultimately show ?thesis using ready_node[OF r] Q by (simp add: assign_def)
qed

lemma flush_result_trans:
  assumes st: "stays quiet d dv M T [] s T1 s1" and f: "flush_result quiet d dv M T1 elts s1 r"
  shows "flush_result quiet d dv M T elts s r"
proof -
  consider (stay) T' s' where "r = ([], s')" "stays quiet d dv M T1 elts s1 T' s'"
    | (split) G s' where "r = (pivot_table G, s')" "splits quiet d dv M T1 elts s1 G s'"
    using f by (cases r) (auto simp: flush_result_def)
  then show ?thesis
    using stays_trans[OF st] stays_splits[OF st] by cases (fastforce simp: flush_result_def)+
qed

lemma pivot_unique:
  assumes "map_ok F" and "F = A @ c # B" and "c' \<in> set F" and "owns F c' x" and "fst c \<le> x" and "\<And>b. b \<in> set B \<Longrightarrow> x < fst b"
  shows "c' = c"
proof -
  have "fst c \<le> fst c'" "fst c' \<le> x" using assms(2,4,5) by (auto simp: owns_def)
  moreover have "\<forall>a\<in>set A. fst a < fst c" using assms(1,2) by (auto simp: map_ok_append)
  ultimately show ?thesis using assms(2,3,6) by fastforce
qed

lemma get_pivot_table:
  assumes "map_ok (A @ c # B)" and "fst c \<le> k" and "\<And>b. b \<in> set B \<Longrightarrow> k < fst b"
  shows "get_pivot (pivot_table (A @ c # B)) k = Inr (Some (length A))"
proof -
  obtain k' t n where c: "c = (k', t, n)" by (cases c)
  have "k < fst b" if "b \<in> set (pivot_table B)" for b
    using that assms(3) by (auto simp: pivot_table_def)
  then show ?thesis
    using get_pivot_position[of "pivot_table A" "(k', \<lparr>child = ptr t, child_size = n\<rparr>)" "pivot_table B" k]
      map_ok_pivot_table[of "A @ c # B"] assms(1,2) by (auto simp: c simp del: map_ok_pivot_table)
qed

lemma wp_flush_internal:
  fixes T :: "('p, 'k, 'v) ptree"
  assumes rec: "flush_ok quiet d U (default_value bet) rec" and c: "config_ok quiet U bet"
    and r: "ready quiet (Suc d) U T s" and m: "msgs_ok quiet U T elts" and ne: "elts \<noteq> []"
  shows "wpE (flush_internal rec ops bet (ptr T) elts s) (errs quiet)
     (flush_result quiet (Suc d) (default_value bet) (fst ` set elts) T elts s)"
proof -
  let ?d = "default_value bet" and ?M = "fst ` set elts" and ?k1 = "key (fst (hd elts))" and ?k2 = "key (fst (last elts))"
  obtain p k0 t0 n0 F0 es where T: "T = PTree p ((k0, t0, n0) # F0) es"
    using readyD(1)[OF r] by (cases T; cases "kids T") (auto simp: tree_ok_Suc)
  let ?F = "(min ?k1 k0, t0, n0) # F0"
  let ?T1 = "PTree p ?F es"
  have mM: "?M \<subseteq> U" "map_ok elts" using m by (simp_all add: msgs_ok_def)
  note btw = map_ok_between[OF mM(2)]
  have "fst (hd elts) \<in> ?M" using ne by simp
  then show ?thesis
    unfolding flush_internal_def wpE_bindE T ptree.sel
  proof (rule wp_lower_first[OF r[unfolded T], where dv = ?d])
    fix s1 assume st1: "stays quiet (Suc d) ?d ?M (PTree p ((k0, t0, n0) # F0) es) [] s ?T1 s1"
    have r1: "ready quiet (Suc d) U ?T1 s1" by (rule stays_ready[OF r[unfolded T] st1 mM(1)])
    have m1: "msgs_ok quiet U ?T1 elts" using m by (simp add: msgs_ok_def T)
    have F: "map_ok ?F" using readyD(1)[OF r1] forest_map_ok by (auto simp: tree_ok_Suc)
    have low: "fst (hd ?F) \<le> ?k1" by simp
    have low2: "fst (hd ?F) \<le> ?k2" using low btw(1)[OF last_in_set[OF ne]] by (rule order_trans)
    obtain A x B where A: "?F = A @ x # B" "fst x \<le> ?k1" "\<And>b. b \<in> set B \<Longrightarrow> ?k1 < fst b"
      using pivot_split[OF F _ low] by blast
    obtain A' x' B' where A': "?F = A' @ x' # B'" "fst x' \<le> ?k2" "\<And>b. b \<in> set B' \<Longrightarrow> ?k2 < fst b"
      using pivot_split[OF F _ low2] by blast
    obtain k t n where x: "x = (k, t, n)" by (cases x)
    have n1: "this_node ops p s1 = Inr (node_of ?T1)" using ready_node[OF r1] by simp
    have g1: "get_pivot (pivots (node_of ?T1)) ?k1 = Inr (Some (length A))"
      using get_pivot_table[OF F[unfolded A(1)] A(2,3)] A(1) by (simp add: node_of_def)
    have g2: "get_pivot (pivots (node_of ?T1)) ?k2 = Inr (Some (length A'))"
      using get_pivot_table[OF F[unfolded A'(1)] A'(2,3)] A'(1) by (simp add: node_of_def)
    have pv: "pivots (node_of ?T1) ! length A = (k, \<lparr>child = ptr t, child_size = n\<rparr>)"
      using A(1) by (simp add: node_of_def x nth_append del: pivot_table_simps(2)) simp
    have "wpE (if length A = length A' \<and> ss_is_dirty ops (ptr t) s1
      then bindE (flush_direct rec ops p (length A) elts s1) (\<lambda>s2. Inr ([], s2))
      else flush_buffered rec ops bet p k elts s1) (errs quiet) (flush_result quiet (Suc d) ?d ?M ?T1 elts s1)"
    proof (cases "length A = length A' \<and> ss_is_dirty ops (ptr t) s1")
      case True
      have "B = B'" using True A(1) A'(1) by auto
      then have inch: "in_child k B (key ` ?M)"
        using A(2) A'(3) btw by (auto simp: in_child_def x intro: order_trans) (meson order.strict_trans1)
      have U: "finite U" "card U < 2 ^ 29" using c by (simp_all add: config_ok_def)
      show ?thesis
        using wp_flush_direct[OF rec r1[unfolded A(1) x] m1[unfolded A(1) x] inch _ U] True A(1)
        by (auto simp: wp_rules flush_result_def x elim!: wpE_mono)
    next
      case False
      have "wpE (flush_buffered rec ops bet p k elts s1) (errs quiet) (flush_result quiet (Suc d) ?d ?M ?T1 elts s1)"
      proof (rule wp_flush_buffered[OF rec c r1 m1 refl])
        show "\<forall>e\<in>set elts. fst (hd ?F) \<le> key (fst e)" using low btw(1) order_trans by blast
        fix e y assume q: quiet and e: "e \<in> set elts" and y: "y \<in> set ?F" "owns ?F y (key (fst e))"
        have "length elts = 1" using m q ne by (cases elts) (auto simp: msgs_ok_def)
        then have one: "elts = [e]" using e by (cases elts) auto
        then have "length A = length A'" using g1 g2 by simp
        then have "\<not> ss_is_dirty ops (ptr t) s1" using False by blast
        moreover have "y = x" by (rule pivot_unique[OF F A(1) y]) (use A(2,3) one in auto)
        ultimately show "\<not> ss_is_dirty ops (ptr (fst (snd y))) s1" by (simp add: x)
      qed
      then show ?thesis unfolding if_not_P[OF False] .
    qed
    then have "wpE (if length A = length A' \<and> ss_is_dirty ops (ptr t) s1
      then bindE (flush_direct rec ops p (length A) elts s1) (\<lambda>s2. Inr ([], s2))
      else flush_buffered rec ops bet p k elts s1) (errs quiet)
      (flush_result quiet (Suc d) ?d ?M (PTree p ((k0, t0, n0) # F0) es) elts s)"
      by (rule wpE_mono) (auto intro: flush_result_trans[OF st1])
    then show "wpE (case ((), s1) of (uu_, s1) \<Rightarrow> bindE (this_node ops p s1) (\<lambda>n.
      bindE (the_pivot (get_pivot (pivots n) ?k1)) (\<lambda>first_pivot_idx.
      bindE (the_pivot (get_pivot (pivots n) ?k2)) (\<lambda>last_pivot_idx.
      if first_pivot_idx = last_pivot_idx \<and> ss_is_dirty ops (child (snd (pivots n ! first_pivot_idx))) s1
      then bindE (flush_direct rec ops p first_pivot_idx elts s1) (\<lambda>s2. Inr ([], s2))
      else flush_buffered rec ops bet p (fst (pivots n ! first_pivot_idx)) elts s1)))) (errs quiet)
      (flush_result quiet (Suc d) ?d ?M (PTree p ((k0, t0, n0) # F0) es) elts s)"
      by (simp only: prod.case n1 bindE_simps g1 g2 the_pivot_def option.case pv fst_conv snd_conv child_info.simps)
  qed
qed

theorem wp_flush:
  assumes c: "config_ok quiet U bet" and fuel: "d < fuel"
  shows "flush_ok quiet d U (default_value bet) (flush fuel ops bet)"
  using fuel
proof (induction d arbitrary: fuel)
  case 0
  then obtain f where fuel: "fuel = Suc f" by (cases fuel) auto
  show ?case
    unfolding flush_ok_def
  proof (intro allI impI)
    fix t :: "('p, 'k, 'v) ptree" and ce s
    assume r: "ready quiet 0 U t s" and m: "msgs_ok quiet U t ce"
    have leaf: "is_leaf (node_of t)" using readyD(1)[OF r] by (cases t) (auto simp: node_of_def is_leaf_def)
    have "flush_result quiet 0 (default_value bet) (fst ` set ce) t [] s ([], s)"
      using stays_refl[OF r] by (auto simp: flush_result_def)
    then show "wpE (flush fuel ops bet (ptr t) ce s) (errs quiet) (flush_result quiet 0 (default_value bet) (fst ` set ce) t ce s)"
      using wp_flush_leaf[OF c r m] leaf by (auto simp: fuel ready_node[OF r] errs_def elim!: wpE_mono)
  qed
next
  case (Suc d)
  then obtain f where fuel: "fuel = Suc f" "d < f" by (cases fuel) auto
  show ?case
    unfolding flush_ok_def
  proof (intro allI impI)
    fix t :: "('p, 'k, 'v) ptree" and ce s
    assume r: "ready quiet (Suc d) U t s" and m: "msgs_ok quiet U t ce"
    have inner: "\<not> is_leaf (node_of t)" using readyD(1)[OF r] by (cases t) (auto simp: node_of_def is_leaf_def tree_ok_Suc)
    have "flush_result quiet (Suc d) (default_value bet) (fst ` set ce) t [] s ([], s)"
      using stays_refl[OF r] by (auto simp: flush_result_def)
    then show "wpE (flush fuel ops bet (ptr t) ce s) (errs quiet) (flush_result quiet (Suc d) (default_value bet) (fst ` set ce) t ce s)"
      using wp_flush_internal[OF Suc.IH[OF fuel(2)] c r m] inner by (auto simp: fuel(1) ready_node[OF r])
  qed
qed

end

end
