(* ===== verification/Betree_Query.thy ===== *)
theory Betree_Query
  imports Betree_Flush_Internal
begin

text \<open>
  \<open>node::query\<close>: a query returns the value the map of the tree has for the key, or reports that
  it has none, and changes no node.
\<close>

subsection \<open>The messages of one key in a buffer\<close>

lemma key_block:
  assumes ok: "map_ok es"
  obtains ks rest where "drop (get_element_begin es k) es = ks @ rest" and "\<And>e. e \<in> set ks \<Longrightarrow> key (fst e) = k"
    and "\<And>e. e \<in> set rest \<Longrightarrow> k < key (fst e)" and "map snd ks = msgs_for es k"
    and "get_element_begin es k \<le> length es"
proof -
  let ?m = "filter (\<lambda>p. range_start k \<le> fst p) es" and ?e = "range_end k"
  have d: "drop (get_element_begin es k) es = ?m"
    using drop_lower_bound[OF ok] by (simp add: get_element_begin_def)
  have sp: "?m = filter (\<lambda>p. fst p \<le> ?e) ?m @ filter (\<lambda>p. ?e < fst p) ?m"
    using map_ok_split_less[OF map_ok_filter[OF ok], of ?e] by metis
  have ms: "map snd (filter (\<lambda>p. fst p \<le> ?e) ?m) = msgs_for es k"
    unfolding msgs_for_def by (auto intro!: arg_cong[of _ _ "map snd"] filter_cong simp: range_iffs)
  show ?thesis
    by (rule that[OF trans[OF d sp] _ _ ms]) (auto simp: range_iffs get_element_begin_def)
qed

lemma query_updates_block:
  fixes ks rest :: "('k :: linorder, 'v :: plus) message_map"
  assumes "\<And>e. e \<in> set ks \<Longrightarrow> key (fst e) = k \<and> opcode (snd e) = UPDATE" and "\<And>e. e \<in> set rest \<Longrightarrow> k < key (fst e)"
  shows "query_updates k v (ks @ rest) = Inr (the (apply_msgs d (Some v) (map snd ks)))"
  using assms
proof (induction ks arbitrary: v)
  case Nil
  show ?case
  proof (cases rest)
    case (Cons e r)
    then have "key (fst e) \<noteq> k" using Nil(2)[of e] by auto
    then show ?thesis using Cons by (cases e) simp
  qed simp
next
  case (Cons e ks)
  obtain mk m where e: "e = (mk, m)" by (cases e)
  have "apply_msg d (Some v) m = Some (v + val m)" using Cons.prems(1)[of e] by (simp add: e apply_msg_def)
  moreover have "query_updates k (v + val m) (ks @ rest) = Inr (the (apply_msgs d (Some (v + val m)) (map snd ks)))"
    by (rule Cons.IH) (use Cons.prems in auto)
  ultimately show ?case using Cons.prems(1)[of e] by (simp add: e)
qed

lemma updates_Some: "\<forall>m\<in>set ms. opcode m = UPDATE \<Longrightarrow> \<exists>w. apply_msgs d (Some v) ms = Some w"
  by (induction ms arbitrary: v) (auto simp: apply_msg_def)

lemma query_leaf_eq:
  fixes es :: "('k :: linorder, 'v :: plus) message_map"
  assumes ok: "buf_ok True es"
  shows "query_leaf es k = Inr (apply_msgs d None (msgs_for es k))"
proof -
  have m: "map_ok es" and sh: "leaf_shape (msgs_for es k)" using ok by (auto simp: buf_ok_def)
  obtain ks rest where b: "drop (get_element_begin es k) es = ks @ rest" "\<And>e. e \<in> set ks \<Longrightarrow> key (fst e) = k"
    "\<And>e. e \<in> set rest \<Longrightarrow> k < key (fst e)" "map snd ks = msgs_for es k" "get_element_begin es k \<le> length es"
    by (rule key_block[OF m, of k], rule that)
  let ?i = "lower_bound es (range_start k)"
  have d: "drop ?i es = ks @ rest" "?i \<le> length es" using b(1,5) by (simp_all add: get_element_begin_def)
  show ?thesis
  proof (cases ks)
    case Nil
    have "\<not> (?i \<noteq> length es \<and> key (fst (es ! ?i)) = k)"
    proof (cases rest)
      case (Cons e r)
      then have "es ! ?i = e" using d Nil by (metis append_Nil nth_via_drop)
      then show ?thesis using b(3)[of e] Cons by auto
    qed (use d Nil in auto)
    then show ?thesis using Nil b(4) by (auto simp: query_leaf_def Let_def)
  next
    case (Cons e ks')
    then obtain v where v: "msgs_for es k = [Message INSERT v]" "snd e = Message INSERT v"
      using sh b(4) by (auto simp: leaf_shape_def)
    have "es ! ?i = e" "?i \<noteq> length es" using d Cons by (auto simp: nth_via_drop)
    then show ?thesis using b(2)[of e] Cons v by (simp add: query_leaf_def Let_def assertE_def)
  qed
qed

subsection \<open>The nodes with children\<close>

text \<open>\<open>query_internal\<close> when the search in the child is known to find \<open>below\<close>.\<close>

context node_store
begin

lemma query_internal_cases:
  fixes n :: "('p, 'k, 'v) node"
  assumes ok: "buf_ok False (elements n)"
    and child: "wpE (query_child qr ops n k s) swap_err (\<lambda>(r, s'). r = below \<and> P s')" and P: "P s"
  shows "wpE (query_internal qr ops d n k s) swap_err (\<lambda>(r, s'). r = apply_msgs d below (msgs_for (elements n) k) \<and> P s')"
proof -
  let ?es = "elements n"
  let ?i = "get_element_begin ?es k"
  have m: "map_ok ?es" and sh: "msg_shape (msgs_for ?es k)" using ok by (auto simp: buf_ok_def)
  obtain ks rest where b: "drop ?i ?es = ks @ rest" "\<And>e. e \<in> set ks \<Longrightarrow> key (fst e) = k"
    "\<And>e. e \<in> set rest \<Longrightarrow> k < key (fst e)" "map snd ks = msgs_for ?es k" "?i \<le> length ?es"
    by (rule key_block[OF m, of k], rule that)
  show ?thesis
  proof (cases ks)
    case Nil
    have "?i = length ?es \<or> key_less_mkey k (fst (?es ! ?i))"
    proof (cases rest)
      case (Cons e r)
      then have "?es ! ?i = e" using b(1) Nil by (metis append_Nil nth_via_drop)
      then show ?thesis using b(3)[of e] Cons by (auto simp: key_less_mkey_def)
    qed (use b(1,5) Nil in auto)
    moreover have "query_updates k v (drop ?i ?es) = Inr v" for v
      using query_updates_block[of "[]" k rest v] b(1,3) Nil by simp
    ultimately show ?thesis
      unfolding query_internal_def Let_def using Nil b(4) child
      by (auto simp: wp_rules elim!: wpE_mono split: option.splits)
  next
    case (Cons e ks')
    have at: "?es ! ?i = e" "?i \<noteq> length ?es" using b(1) Cons by (auto simp: nth_via_drop)
    have e: "key (fst e) = k" using b(2) Cons by simp
    have ms: "msgs_for ?es k = snd e # map snd ks'" using b(4) Cons by simp
    have ups: "\<And>x. x \<in> set ks' \<Longrightarrow> key (fst x) = k \<and> opcode (snd x) = UPDATE" "known_opcode (snd e)"
      using sh b(2) Cons by (auto simp: ms msg_shape_def)
    have d1: "drop (Suc ?i) ?es = ks' @ rest" using b(1) Cons by (metis append_Cons drop_Suc list.sel(3) tl_drop)
    have u1: "query_updates k v (drop (Suc ?i) ?es) = Inr (the (apply_msgs d (Some v) (map snd ks')))" for v
      unfolding d1 by (rule query_updates_block[OF ups(1) b(3)])
    have nl: "\<not> (?i = length ?es \<or> key_less_mkey k (fst (?es ! ?i)))" using at e by (simp add: key_less_mkey_def)
    have some: "Some (the (apply_msgs d (Some v) (map snd ks'))) = apply_msgs d (Some v) (map snd ks')" for v
      using updates_Some[of "map snd ks'" d v] ups(1) by auto
    from ups(2) consider (ins) "opcode (snd e) = INSERT" | (del) "opcode (snd e) = DELETE" | (upd) "opcode (snd e) = UPDATE"
      by (auto simp: known_opcode_def)
    then show ?thesis
    proof cases
      case ins
      then show ?thesis
        using P nl u1[of "val (snd e)"] some[of "val (snd e)"] at
        by (simp add: query_internal_def Let_def ms apply_msg_def)
    next
      case del
      show ?thesis
      proof (cases ks')
        case Nil
        have "Suc ?i = length ?es \<or> key_less_mkey k (fst (?es ! Suc ?i))"
        proof (cases rest)
          case (Cons x r)
          then have "?es ! Suc ?i = x" using d1 Nil by (metis append_Nil nth_via_drop)
          then show ?thesis using b(3)[of x] Cons by (auto simp: key_less_mkey_def)
        next
          case Nil
          then have "length ?es \<le> Suc ?i" using d1 \<open>ks' = []\<close> by simp
          then show ?thesis using b(5) at(2) by simp
        qed
        then show ?thesis
          using P nl at del Nil by (auto simp: query_internal_def Let_def ms apply_msg_def)
      next
        case (Cons x xs)
        have "?es ! Suc ?i = x" "Suc ?i \<noteq> length ?es" using d1 Cons by (auto simp: nth_via_drop)
        then have "\<not> (Suc ?i = length ?es \<or> key_less_mkey k (fst (?es ! Suc ?i)))"
          using ups(1)[of x] Cons by (simp add: key_less_mkey_def)
        moreover have "apply_msgs d None (map snd ks') = apply_msgs d (Some d) (map snd ks')"
          using ups(1)[of x] Cons by (simp add: apply_msg_def)
        ultimately show ?thesis
          using P nl at del u1[of d] some[of d] by (simp add: query_internal_def Let_def ms apply_msg_def)
      qed
    next
      case upd
      have u0: "query_updates k v (drop ?i ?es) = Inr (the (apply_msgs d (Some v) (msgs_for ?es k)))" for v
        unfolding b(1) b(4)[symmetric] by (rule query_updates_block[OF _ b(3)]) (use ups(1) upd e Cons in auto)
      have s0: "Some (the (apply_msgs d (Some v) (msgs_for ?es k))) = apply_msgs d (Some v) (msgs_for ?es k)" for v
        using updates_Some[of "msgs_for ?es k" d v] ups(1) upd by (auto simp: ms)
      have n0: "apply_msgs d None (msgs_for ?es k) = apply_msgs d (Some d) (msgs_for ?es k)"
        using upd by (simp add: ms apply_msg_def)
      show ?thesis
        using child nl at upd u0 s0 n0
        by (auto simp: query_internal_def Let_def wp_rules elim!: wpE_mono split: option.splits)
    qed
  qed
qed

lemma fden_child:
  assumes "fst c \<le> x" and "\<And>b. b \<in> set B \<Longrightarrow> x < fst b"
  shows "fden dv (A @ c # B) x = den dv (fst (snd c)) x"
proof (cases c)
  case (fields k t n)
  have "\<not> (\<exists>b\<in>set B. fst b \<le> x)" using assms(2) by (auto simp: not_le)
  then show ?thesis using assms(1) by (simp add: fields fden_append fden_Cons)
qed

lemma hd_pivot_table: "F \<noteq> [] \<Longrightarrow> fst (hd (pivot_table F)) = fst (hd F)"
  by (cases F) (auto simp: pivot_table_def)

lemma wp_query_child:
  assumes ok: "tree_ok (Suc d) (PTree p F es)" and s: "sinv s" and rep: "rep (view s) (PTree p F es)"
    and rec: "\<And>t s. tree_ok d t \<Longrightarrow> sinv s \<Longrightarrow> pins s (ptr t) > 0 \<Longrightarrow> rep (view s) t \<Longrightarrow>
       wpE (qr (ptr t) s) swap_err (\<lambda>(r, s'). r = den dv t k \<and> view s' = view s \<and> keeps {} s s')"
  shows "wpE (query_child qr ops (node_of (PTree p F es)) k s) swap_err
     (\<lambda>(r, s'). r = fden dv F k \<and> view s' = view s \<and> keeps {} s s')"
proof -
  have F: "F \<noteq> []" "map_ok F" "forest_ok d F" using ok forest_map_ok by (auto simp: tree_ok_Suc)
  show ?thesis
  proof (cases "k < fst (hd F)")
    case True
    then have "get_pivot (pivot_table F) k = Inr None"
      using F(1,2) by (intro get_pivot_below) (simp_all add: hd_pivot_table)
    moreover have "fden dv F k = None"
    proof (rule fden_not_routed)
      show "k < fst c" if "c \<in> set F" for c using True map_ok_hd_le[OF F(2) that] by simp
    qed
    ultimately show ?thesis using s by (simp add: query_child_def node_of_def keeps_refl)
  next
    case False
    then obtain A c B where c: "F = A @ c # B" "fst c \<le> k" "\<And>b. b \<in> set B \<Longrightarrow> k < fst b"
      using pivot_split[OF F(2,1), of k] unfolding not_less by blast
    obtain kc t n where ct: "c = (kc, t, n)" by (cases c)
    have g: "get_pivot (pivot_table F) k = Inr (Some (length A))"
      unfolding c(1) by (rule get_pivot_table) (use F(2) c in auto)
    have t: "tree_ok d t" "rep (view s) t"
      using F(3) rep by (auto simp: c(1) ct forest_ok_append forest_ok_Cons)
    have ch: "child (snd (pivot_table F ! length A)) = ptr t" by (simp add: c(1) ct nth_append)
    have "wpE (arrow ops False (ptr t) (qr (ptr t)) s) swap_err (\<lambda>(r, s'). r = fden dv F k \<and> view s' = view s \<and> keeps {} s s')"
    proof (rule wp_arrow_read[where X = "{}" and R = "\<lambda>r. r = fden dv F k" and n = "node_of t"])
      show "view s (ptr t) = Some (node_of t)" using rep_iff[THEN iffD1, OF t(2)] by simp
      show "view s q \<noteq> None" if "q \<in> set (node_refs (node_of t))" for q
        using that rep_live[OF t(2)] node_refs_node_of[of t] by blast
      fix s1 assume s1: "sinv s1" "view s1 = view s" "pins s1 (ptr t) > 0"
      show "wpE (qr (ptr t) s1) swap_err (\<lambda>(r, s2). view s2 = view s \<and> keeps {} s1 s2 \<and> r = fden dv F k)"
        by (rule wpE_mono[OF rec[OF t(1) s1(1,3)]])
          (use t(2) s1(2) fden_child[of c k B dv A] c(2,3) in \<open>auto simp: c(1) ct\<close>)
    qed (use s in auto)
    then show ?thesis by (simp add: query_child_def node_of_def g ch Let_def)
  qed
qed

theorem wp_query:
  assumes "tree_ok d t" and "d < fuel" and "sinv s" and "pins s (ptr t) > 0" and "rep (view s) t"
  shows "wpE (query fuel ops dv k (ptr t) s) swap_err (\<lambda>(r, s'). r = den dv t k \<and> view s' = view s \<and> keeps {} s s')"
  using assms
proof (induction d arbitrary: t fuel s)
  case 0
  obtain p es where t: "t = PTree p [] es" using 0(1) by (cases t) auto
  obtain f where fuel: "fuel = Suc f" using 0(2) by (cases fuel) auto
  have "buf_ok True es" using 0(1) by (simp add: t)
  from query_leaf_eq[OF this, of k dv] show ?case
    using 0(3-5) by (simp add: fuel t this_node_eq is_leaf_def den_PTree keeps_refl)
next
  case (Suc d)
  obtain p F es where t: "t = PTree p F es" by (cases t)
  obtain f where fuel: "fuel = Suc f" "d < f" using Suc.prems(2) by (cases fuel) auto
  let ?n = "node_of t"
  have F: "F \<noteq> []" "buf_ok False es" using Suc.prems(1) by (auto simp: t tree_ok_Suc)
  have n: "this_node ops p s = Inr ?n" "\<not> is_leaf ?n" "elements ?n = es"
    using Suc.prems(3-5) F(1) by (simp_all add: t this_node_eq is_leaf_def node_of_def)
  have "wpE (query_child (query f ops dv k) ops ?n k s) swap_err (\<lambda>(r, s'). r = fden dv F k \<and> view s' = view s \<and> keeps {} s s')"
    unfolding t by (rule wp_query_child) (use Suc fuel(2) t in auto)
  from query_internal_cases[OF _ this, where d = dv] show ?case
    using F(2) n Suc.prems(3) by (simp add: fuel t den_PTree keeps_refl)
qed

end

end
