(* ===== verification/Betree_Next.thy ===== *)
theory Betree_Next
  imports Betree_Query
begin

text \<open>
  \<open>node::get_next_message\<close>: the least message of a tree above a given message key, over the buffers
  of all its nodes, or the report that there is none.
\<close>

subsection \<open>All messages of a tree\<close>

fun tmsgs :: "('p, 'k, 'v) ptree \<Rightarrow> ('k message_key \<times> 'v message) set" where
  "tmsgs (PTree p F es) = set es \<union> \<Union> (set (map (\<lambda>(k, t, n). tmsgs t) F))"

abbreviation fmsgs :: "('p, 'k, 'v) forest \<Rightarrow> ('k message_key \<times> 'v message) set" where
  "fmsgs F \<equiv> \<Union> (set (map (\<lambda>(k, t, n). tmsgs t) F))"

lemma fst_tmsgs: "fst ` tmsgs t = mkeys t"
proof (induction t rule: ptree_induct)
  case (PTree p F es)
  have "fst ` tmsgs (fst (snd c)) = mkeys (fst (snd c))" if "c \<in> set F" for c
    using PTree[of "fst c" "fst (snd c)" "snd (snd c)"] that by simp
  then have "fst ` fmsgs F = fmkeys F" by (simp add: image_UN split_def cong: SUP_cong)
  then show ?case by (simp add: image_Un)
qed

lemma fst_fmsgs: "fst ` fmsgs F = fmkeys F"
  by (simp add: image_UN split_def fst_tmsgs)

definition beyond :: "'k :: linorder message_key option \<Rightarrow> 'k message_key \<times> 'v message \<Rightarrow> bool" where
  "beyond mkey m \<longleftrightarrow> (case mkey of None \<Rightarrow> True | Some mk \<Rightarrow> mk < fst m)"

definition next_in :: "('k :: linorder message_key \<times> 'v message) set \<Rightarrow> 'k message_key option
    \<Rightarrow> ('k message_key \<times> 'v message) option \<Rightarrow> bool" where
  "next_in S mkey r \<longleftrightarrow> (case r of None \<Rightarrow> \<forall>m\<in>S. \<not> beyond mkey m
     | Some m \<Rightarrow> m \<in> S \<and> beyond mkey m \<and> (\<forall>m'\<in>S. beyond mkey m' \<longrightarrow> fst m \<le> fst m'))"

lemma next_in_simps [simp]:
  "next_in S mkey None \<longleftrightarrow> (\<forall>m\<in>S. \<not> beyond mkey m)"
  "next_in S mkey (Some m) \<longleftrightarrow> m \<in> S \<and> beyond mkey m \<and> (\<forall>m'\<in>S. beyond mkey m' \<longrightarrow> fst m \<le> fst m')"
  by (simp_all add: next_in_def)

lemma beyond_simps [simp]: "beyond None = (\<lambda>m. True)" "beyond (Some mk) = (\<lambda>m. mk < fst m)"
  by (auto simp: beyond_def)

lemma next_in_buffer:
  fixes es :: "('k :: linorder, 'v) message_map" and mkey :: "'k message_key option"
  assumes ok: "map_ok es"
  defines "it \<equiv> (case mkey of Some mk \<Rightarrow> upper_bound es mk | None \<Rightarrow> 0)"
  shows "next_in (set es) mkey (if it = length es then None else Some (es ! it))" and "it \<le> length es"
proof -
  show le: "it \<le> length es" by (auto simp: it_def split: option.splits)
  have d: "drop it es = filter (beyond mkey) es"
    using drop_upper_bound[OF ok] by (auto simp: it_def above_def filter_all_True split: option.splits)
  show "next_in (set es) mkey (if it = length es then None else Some (es ! it))"
  proof (cases "drop it es")
    case Nil
    then have "it = length es" using le by simp
    moreover have "filter (beyond mkey) es = []" using d Nil by simp
    ultimately show ?thesis unfolding filter_empty_conv by simp
  next
    case (Cons m ms)
    have "map_ok (m # ms)" using map_ok_drop[OF ok, of it] Cons by simp
    then have "\<forall>m'\<in>set (drop it es). fst m \<le> fst m'" using Cons by (auto simp: map_ok_Cons intro: less_imp_le)
    moreover have "es ! it = m" "it \<noteq> length es" using Cons by (auto simp: nth_via_drop)
    moreover have "m \<in> set (filter (beyond mkey) es)" unfolding d[symmetric] Cons by simp
    ultimately show ?thesis unfolding d by auto
  qed
qed

lemma next_in_Un:
  assumes "next_in S mkey r1" and "next_in R mkey r2"
  shows "next_in (S \<union> R) mkey (case r1 of None \<Rightarrow> r2 | Some m \<Rightarrow> (case r2 of None \<Rightarrow> r1
     | Some m' \<Rightarrow> Some (if fst m < fst m' then m else m')))"
proof (cases r1)
  case (Some m)
  show ?thesis
  proof (cases r2)
    case (Some m')
    have "fst m \<le> fst x" if "x \<in> R" "beyond mkey x" "fst m < fst m'" for x
      using that assms(2) Some by (meson less_imp_le next_in_simps(2) order_trans)
    moreover have "fst m' \<le> fst x" if "x \<in> S" "beyond mkey x" "\<not> fst m < fst m'" for x
      using that assms(1) \<open>r1 = Some m\<close> by (meson next_in_simps(2) not_less order_trans)
    ultimately show ?thesis using assms Some \<open>r1 = Some m\<close> by (simp add: ball_Un)
  qed (use assms Some in \<open>simp add: ball_Un\<close>)
qed (use assms in \<open>cases r2; simp add: ball_Un\<close>)

lemma next_in_first:
  assumes "next_in S mkey r" and "\<And>m m'. m \<in> S \<Longrightarrow> m' \<in> R \<Longrightarrow> fst m \<le> fst m'"
  shows "r \<noteq> None \<Longrightarrow> next_in (S \<union> R) mkey r" and "r = None \<Longrightarrow> next_in R mkey r' \<Longrightarrow> next_in (S \<union> R) mkey r'"
  using assms by (auto split: option.splits simp: next_in_def)

lemma next_in_none_below:
  assumes "\<And>m. m \<in> S \<Longrightarrow> \<not> beyond mkey m" and "next_in R mkey r"
  shows "next_in (S \<union> R) mkey r"
  using assms by (auto split: option.splits simp: next_in_def)

lemma next_in_mono_key:
  assumes "next_in S None r" and "\<And>m. m \<in> S \<Longrightarrow> mk < fst m"
  shows "next_in S (Some mk) r"
  using assms by (cases r) auto

subsection \<open>The children\<close>

lemma fmsgs_keys:
  assumes "forest_ok d F" and "m \<in> fmsgs F" and "F \<noteq> []"
  shows "fst (hd F) \<le> key (fst m)"
proof -
  obtain c where c: "c \<in> set F" "m \<in> tmsgs (fst (snd c))" using assms(2) by auto
  have "fst m \<in> mkeys (fst (snd c))" using c(2) fst_tmsgs by blast
  then have "fst c \<le> key (fst m)" using assms(1) c(1) by (auto simp: forest_ok_def in_range_def tkeys_def)
  moreover have "fst (hd F) \<le> fst c" by (rule map_ok_hd_le[OF forest_map_ok[OF assms(1)] c(1)])
  ultimately show ?thesis by simp
qed

lemma fmsgs_before:
  assumes "forest_ok d (A @ c # B)" and "m \<in> fmsgs A"
  shows "key (fst m) < fst c"
proof -
  obtain a where a: "a \<in> set A" "m \<in> tmsgs (fst (snd a))" using assms(2) by auto
  have "fst m \<in> mkeys (fst (snd a))" using a(2) fst_tmsgs by blast
  then show ?thesis using assms(1) a(1) by (auto simp: forest_ok_def before_def tkeys_def sorted_wrt_append)
qed

lemma key_less_imp: "key a < key b \<Longrightarrow> a < (b :: 'k :: linorder message_key)"
  by (simp add: less_message_key_def)

context node_store
begin

definition next_ok :: "nat \<Rightarrow> ('k message_key option \<Rightarrow> 'p \<Rightarrow> 's \<Rightarrow> err + (('k message_key \<times> 'v message) option \<times> 's)) \<Rightarrow> bool" where
  "next_ok d rec \<longleftrightarrow> (\<forall>t mkey s. tree_ok d t \<longrightarrow> sinv s \<longrightarrow> pins s (ptr t) > 0 \<longrightarrow> rep (view s) t \<longrightarrow>
     wpE (rec mkey (ptr t) s) swap_err (\<lambda>(r, s'). next_in (tmsgs t) mkey r \<and> view s' = view s \<and> keeps {} s s'))"

lemma next_okD:
  assumes "next_ok d rec" and "tree_ok d t" and "sinv s" and "pins s (ptr t) > 0" and "rep (view s) t"
  shows "wpE (rec mkey (ptr t) s) swap_err (\<lambda>(r, s'). next_in (tmsgs t) mkey r \<and> view s' = view s \<and> keeps {} s s')"
  using assms unfolding next_ok_def by blast

lemma wp_first_message:
  assumes rec: "next_ok d rec"
  shows "forest_ok d F \<Longrightarrow> sinv s \<Longrightarrow> frep (view s) F \<Longrightarrow>
    wpE (first_message (rec mkey) ops (pivot_table F) s) swap_err
      (\<lambda>(r, s'). next_in (fmsgs F) mkey r \<and> view s' = view s \<and> keeps {} s s')"
proof (induction F arbitrary: s)
  case Nil
  then show ?case by (simp add: keeps_refl)
next
  case (Cons c F)
  obtain k t n where c: "c = (k, t, n)" by (cases c)
  have t: "tree_ok d t" "rep (view s) t" "forest_ok d F" using Cons.prems by (auto simp: c forest_ok_Cons)
  have order: "fst m \<le> fst m'" if m: "m \<in> tmsgs t" and m': "m' \<in> fmsgs F" for m m'
  proof -
    have "F \<noteq> []" using m' by auto
    moreover have "key (fst m) < fst (hd F)" if "F \<noteq> []"
      using fmsgs_before[of d "[c]" "hd F" "tl F" m] Cons.prems(1) m that by (simp add: c)
    ultimately have "key (fst m) < key (fst m')" using fmsgs_keys[OF t(3) m'] by auto
    then show ?thesis using key_less_imp less_imp_le by blast
  qed
  have "wpE (arrow ops False (ptr t) (rec mkey (ptr t)) s) swap_err (\<lambda>(r, s1).
      wpE (case r of Some m \<Rightarrow> Inr (Some m, s1) | None \<Rightarrow> first_message (rec mkey) ops (pivot_table F) s1) swap_err
       (\<lambda>(r, s'). next_in (tmsgs t \<union> fmsgs F) mkey r \<and> view s' = view s \<and> keeps {} s s'))"
  proof (rule wp_arrow_read[where X = "{}" and R = "next_in (tmsgs t) mkey" and n = "node_of t"])
    show "view s (ptr t) = Some (node_of t)" using rep_iff[THEN iffD1, OF t(2)] by simp
    show "view s q \<noteq> None" if "q \<in> set (node_refs (node_of t))" for q
      using that rep_live[OF t(2)] node_refs_node_of[of t] by blast
    show "wpE (rec mkey (ptr t) s1) swap_err (\<lambda>(r, s2). view s2 = view s \<and> keeps {} s1 s2 \<and> next_in (tmsgs t) mkey r)"
      if s1: "sinv s1" "view s1 = view s" "pins s1 (ptr t) > 0" for s1
    proof -
      have "wpE (rec mkey (ptr t) s1) swap_err (\<lambda>(r, s'). next_in (tmsgs t) mkey r \<and> view s' = view s1 \<and> keeps {} s1 s')"
        using t(2) by (intro next_okD[OF rec t(1) s1(1,3)]) (simp add: s1(2))
      then show ?thesis by (rule wpE_mono) (auto simp: s1(2))
    qed
    fix r s1 assume s1: "view s1 = view s" "keeps ((if False then {ptr t} else {}) \<union> {}) s s1" and r: "next_in (tmsgs t) mkey r"
    have k1: "keeps {} s s1" using s1(2) by simp
    note first = next_in_first[OF r, of "fmsgs F", OF order]
    show "case (r, s1) of (r, s1) \<Rightarrow> wpE (case r of Some m \<Rightarrow> Inr (Some m, s1) | None \<Rightarrow> first_message (rec mkey) ops (pivot_table F) s1) swap_err
       (\<lambda>(r, s'). next_in (tmsgs t \<union> fmsgs F) mkey r \<and> view s' = view s \<and> keeps {} s s')"
    proof (cases r)
      case None
      have "frep (view s1) F" using Cons.prems(3) by (simp add: c s1(1))
      from Cons.IH[OF t(3) keepsD(1)[OF k1] this] show ?thesis
        unfolding None prod.case option.case
        by (rule wpE_mono) (use first(2)[OF _ _ None] keeps_trans[OF k1] s1(1) in auto)
    next
      case (Some m)
      then show ?thesis using first(1) s1(1) k1 by simp
    qed
  qed (use Cons.prems in auto)
  then show ?case by (simp add: c wp_rules split_def)
qed

lemma drop_pivot_table: "drop (length A) (pivot_table (A @ B)) = pivot_table B"
  by simp

lemma wp_from_children:
  assumes rec: "next_ok d rec" and ok: "tree_ok (Suc d) (PTree p F es)" and s: "sinv s" and rep: "frep (view s) F"
  shows "wpE (get_next_message_from_children rec ops (node_of (PTree p F es)) mkey s) swap_err
      (\<lambda>(r, s'). next_in (fmsgs F) mkey r \<and> view s' = view s \<and> keeps {} s s')"
proof -
  have F: "F \<noteq> []" "map_ok F" "forest_ok d F" using ok forest_map_ok by (auto simp: tree_ok_Suc)
  have hd: "fst (pivot_table F ! 0) = fst (hd F)"
    using F(1) by (cases F) auto
  have piv: "pivots (node_of (PTree p F es)) = pivot_table F" by (simp add: node_of_def)
  show ?thesis
  proof (cases "\<exists>mk. mkey = Some mk \<and> fst (hd F) \<le> key mk")
    case False
    have "wpE (first_message (rec None) ops (pivot_table F) s) swap_err
      (\<lambda>(r, s'). next_in (fmsgs F) mkey r \<and> view s' = view s \<and> keeps {} s s')"
    proof (rule wpE_mono[OF wp_first_message[OF rec F(3) s rep]])
      fix x assume x: "case x of (r, s') \<Rightarrow> next_in (fmsgs F) None r \<and> view s' = view s \<and> keeps {} s s'"
      have "next_in (fmsgs F) mkey r" if r: "next_in (fmsgs F) None r" for r
      proof (cases mkey)
        case (Some mk)
        have "mk < fst m" if "m \<in> fmsgs F" for m
          using fmsgs_keys[OF F(3) that F(1)] False Some by (intro key_less_imp) auto
        from next_in_mono_key[OF r this] show ?thesis by (simp add: Some)
      qed (use r in simp)
      with x show "case x of (r, s') \<Rightarrow> next_in (fmsgs F) mkey r \<and> view s' = view s \<and> keeps {} s s'" by auto
    qed simp
    then show ?thesis
      using False F(1) unfolding get_next_message_from_children_def Let_def piv hd
      by (auto simp: mkey_less_key_def not_le split: option.splits)
  next
    case True
    then obtain mk where mk: "mkey = Some mk" "fst (hd F) \<le> key mk" by blast
    obtain A c B where c: "F = A @ c # B" "fst c \<le> key mk" "\<And>b. b \<in> set B \<Longrightarrow> key mk < fst b"
      using pivot_split[OF F(2,1) mk(2)] by blast
    have g: "get_pivot (pivot_table F) (key mk) = Inr (Some (length A))"
      unfolding c(1) by (rule get_pivot_table) (use F(2) c in auto)
    have B: "forest_ok d (c # B)" "frep (view s) (c # B)"
      using F(3) rep by (simp_all add: c(1) forest_ok_append)
    have "\<not> beyond mkey m" if "m \<in> fmsgs A" for m
    proof -
      have "key (fst m) < key mk" using fmsgs_before[OF F(3)[unfolded c(1)] that] c(2) by simp
      then show ?thesis using key_less_imp by (fastforce simp: mk(1))
    qed
    note below = next_in_none_below[of "fmsgs A" mkey "fmsgs (c # B)", OF this]
    have "wpE (first_message (rec mkey) ops (pivot_table (c # B)) s) swap_err
      (\<lambda>(r, s'). next_in (fmsgs F) mkey r \<and> view s' = view s \<and> keeps {} s s')"
      by (rule wpE_mono[OF wp_first_message[OF rec B(1) s B(2)]]) (use below in \<open>auto simp: c(1) Un_left_commute\<close>)
    moreover have "drop (length A) (pivot_table F) = pivot_table (c # B)" by (simp add: c(1))
    ultimately show ?thesis
      using mk F(1) unfolding get_next_message_from_children_def Let_def piv hd
      by (simp add: g mkey_less_key_def leD)
  qed
qed

theorem wp_get_next_message:
  assumes "d < fuel"
  shows "next_ok d (get_next_message fuel ops)"
  using assms
proof (induction d arbitrary: fuel)
  case 0
  then obtain f where fuel: "fuel = Suc f" by (cases fuel) auto
  show ?case
    unfolding next_ok_def
  proof (intro allI impI)
    fix t mkey s assume ok: "tree_ok 0 t" and s: "sinv s" "pins s (ptr t) > 0" "rep (view s) t"
    obtain p es where t: "t = PTree p [] es" using ok by (cases t) auto
    have "map_ok es" using ok by (simp add: t buf_ok_def)
    have n: "this_node ops p s = Inr (node_of t)" "is_leaf (node_of t)" "elements (node_of t) = es"
      using s by (simp_all add: t this_node_eq is_leaf_def node_of_def)
    have "get_next_message fuel ops mkey p s = Inr (let it = (case mkey of Some mk \<Rightarrow> upper_bound es mk | None \<Rightarrow> 0) in
        if it = length es then None else Some (es ! it), s)"
      unfolding fuel get_next_message.simps n bindE_simps Let_def using n(2) by simp
    with next_in_buffer(1)[OF \<open>map_ok es\<close>, of mkey] show "wpE (get_next_message fuel ops mkey (ptr t) s) swap_err
        (\<lambda>(r, s'). next_in (tmsgs t) mkey r \<and> view s' = view s \<and> keeps {} s s')"
      using s(1) by (simp add: t keeps_refl Let_def)
  qed
next
  case (Suc d)
  then obtain f where fuel: "fuel = Suc f" "d < f" by (cases fuel) auto
  show ?case
    unfolding next_ok_def
  proof (intro allI impI)
    fix t mkey s assume ok: "tree_ok (Suc d) t" and s: "sinv s" "pins s (ptr t) > 0" "rep (view s) t"
    obtain p F es where t: "t = PTree p F es" by (cases t)
    let ?n = "node_of (PTree p F es)" and ?it = "case mkey of Some mk \<Rightarrow> upper_bound es mk | None \<Rightarrow> 0"
    let ?kids = "get_next_message_from_children (get_next_message f ops) ops ?n mkey s"
    have F: "F \<noteq> []" "map_ok es" using ok by (auto simp: t tree_ok_Suc buf_ok_def)
    have n: "this_node ops p s = Inr ?n" "\<not> is_leaf ?n" "elements ?n = es"
      using s F(1) by (simp_all add: t this_node_eq is_leaf_def node_of_def)
    note buf = next_in_buffer[OF F(2), of mkey]
    have kids: "wpE ?kids swap_err (\<lambda>(r, s'). next_in (fmsgs F) mkey r \<and> view s' = view s \<and> keeps {} s s')"
      by (rule wp_from_children[OF Suc.IH[OF fuel(2)]]) (use ok s in \<open>auto simp: t\<close>)
    have un: "next_in (tmsgs t) mkey (case r of None \<Rightarrow> r2 | Some m \<Rightarrow> (case r2 of None \<Rightarrow> r
       | Some m' \<Rightarrow> Some (if fst m < fst m' then m else m')))"
      if "next_in (fmsgs F) mkey r" and "next_in (set es) mkey r2" for r r2
      using next_in_Un[OF that] by (simp add: t Un_commute)
    show "wpE (get_next_message fuel ops mkey (ptr t) s) swap_err
        (\<lambda>(r, s'). next_in (tmsgs t) mkey r \<and> view s' = view s \<and> keeps {} s s')"
    proof (cases "?it = length es")
      case True
      then have b: "next_in (set es) mkey None" using buf(1) by simp
      have "next_in (tmsgs t) mkey r" if "next_in (fmsgs F) mkey r" for r
        using un[OF that b] by (cases r) simp_all
      then have "wpE ?kids swap_err (\<lambda>(r, s'). next_in (tmsgs t) mkey r \<and> view s' = view s \<and> keeps {} s s')"
        by (intro wpE_mono[OF kids]) auto
      then show ?thesis unfolding fuel(1) t ptree.sel get_next_message.simps n(1,3) bindE_simps Let_def using n(2) True by simp
    next
      case False
      then have b: "next_in (set es) mkey (Some (es ! ?it))" using buf(1) by simp
      have "wpE ?kids swap_err (\<lambda>(r, s'). wpE (case r of Some m \<Rightarrow> Inr (Some (if fst m < fst (es ! ?it) then m else es ! ?it), s')
          | None \<Rightarrow> Inr (Some (es ! ?it), s')) swap_err (\<lambda>(r, s'). next_in (tmsgs t) mkey r \<and> view s' = view s \<and> keeps {} s s'))"
      proof (rule wpE_mono[OF kids])
        fix x assume x: "case x of (r, s') \<Rightarrow> next_in (fmsgs F) mkey r \<and> view s' = view s \<and> keeps {} s s'"
        obtain r s' where rs: "x = (r, s')" by (cases x)
        from un[OF _ b, of r] x show "case x of (r, s') \<Rightarrow> wpE (case r of Some m \<Rightarrow> Inr (Some (if fst m < fst (es ! ?it) then m else es ! ?it), s')
          | None \<Rightarrow> Inr (Some (es ! ?it), s')) swap_err (\<lambda>(r, s'). next_in (tmsgs t) mkey r \<and> view s' = view s \<and> keeps {} s s')"
          unfolding rs prod.case by (cases r) (simp_all only: option.case wpE_simps prod.case)
      qed simp
      then show ?thesis
        unfolding fuel(1) t ptree.sel get_next_message.simps n(1,3) bindE_simps Let_def using n(2) False
        by (simp add: wp_rules split_def)
    qed
  qed
qed

end

end
