(* ===== verification/Betree_Api.thy ===== *)
theory Betree_Api
  imports Betree_Node
begin

text \<open>
  The public interface of the tree (client/betree.hpp, class \<open>betree\<close> and its \<open>iterator\<close>): the
  constructor, the upserts, the queries, the dump and the iterators.

  A call of a recursive member function on the root gets \<open>next_timestamp\<close> as the depth its call
  stack may have, and a loop over the messages gets it as the number of its rounds: the tree grows
  by at most one level and one message with each upsert, and each upsert takes one timestamp.
\<close>

definition DEFAULT_MAX_NODE_SIZE :: nat where
  "DEFAULT_MAX_NODE_SIZE = 2 ^ 18"

definition DEFAULT_MIN_FLUSH_SIZE :: nat where
  "DEFAULT_MIN_FLUSH_SIZE = DEFAULT_MAX_NODE_SIZE div 16"

definition fuel_of :: "('p, 'v) betree \<Rightarrow> nat" where
  "fuel_of bet = unat (next_timestamp bet)"

definition betree_new ::
  "('s, 'p, ('p, 'k, 'v) node) swap_ops \<Rightarrow> nat \<Rightarrow> nat \<Rightarrow> nat \<Rightarrow> 'v \<Rightarrow> 's \<Rightarrow> err + (('p, 'v) betree \<times> 's)" where
  "betree_new ops maxnodesize minnodesize minflushsize value0 s =
     bindE (ss_allocate ops new_node s) (\<lambda>(p, s').
     Inr (\<lparr>min_flush_size = minflushsize, max_node_size = maxnodesize, min_node_size = minnodesize,
           root = p, next_timestamp = 1, default_value = value0\<rparr>, s'))"

subsection \<open>Upserts\<close>

text \<open>A root that has been split is replaced: the old root, empty by now, loses its last pointer.\<close>

definition grow_root ::
  "('s, 'p, ('p, 'k, 'v) node) swap_ops \<Rightarrow> ('p, 'v) betree \<Rightarrow> ('k, 'p) pivot_map \<Rightarrow> 's
   \<Rightarrow> err + (('p, 'v) betree \<times> 's)" where
  "grow_root ops bet new_nodes s =
     bindE (ss_allocate ops new_node s) (\<lambda>(p, s1).
     bindE (ss_depoint ops (root bet) s1) (\<lambda>s2.
     bindE (arrow ops True p (assign ops p (\<lambda>n. n\<lparr>pivots := new_nodes\<rparr>)) s2) (\<lambda>(_, s3).
     Inr (bet\<lparr>root := p\<rparr>, s3))))"

definition upsert ::
  "('s, 'p, ('p, 'k :: linorder, 'v :: plus) node) swap_ops \<Rightarrow> int \<Rightarrow> 'k \<Rightarrow> 'v \<Rightarrow> ('p, 'v) betree \<Rightarrow> 's
   \<Rightarrow> err + (('p, 'v) betree \<times> 's)" where
  "upsert ops opc k v bet s =
     (let tmp = put [] (MessageKey k (next_timestamp bet)) (Message opc v);
          bet' = bet\<lparr>next_timestamp := next_timestamp bet + 1\<rparr> in
      bindE (arrow ops True (root bet') (flush (fuel_of bet') ops bet' (root bet') tmp) s) (\<lambda>(new_nodes, s1).
      if length new_nodes > 0 then grow_root ops bet' new_nodes s1 else Inr (bet', s1)))"

definition insert_key ::
  "('s, 'p, ('p, 'k :: linorder, 'v :: plus) node) swap_ops \<Rightarrow> 'k \<Rightarrow> 'v \<Rightarrow> ('p, 'v) betree \<Rightarrow> 's
   \<Rightarrow> err + (('p, 'v) betree \<times> 's)" where
  "insert_key ops k v bet s = upsert ops INSERT k v bet s"

definition update_key ::
  "('s, 'p, ('p, 'k :: linorder, 'v :: plus) node) swap_ops \<Rightarrow> 'k \<Rightarrow> 'v \<Rightarrow> ('p, 'v) betree \<Rightarrow> 's
   \<Rightarrow> err + (('p, 'v) betree \<times> 's)" where
  "update_key ops k v bet s = upsert ops UPDATE k v bet s"

definition erase ::
  "('s, 'p, ('p, 'k :: linorder, 'v :: plus) node) swap_ops \<Rightarrow> 'k \<Rightarrow> ('p, 'v) betree \<Rightarrow> 's
   \<Rightarrow> err + (('p, 'v) betree \<times> 's)" where
  "erase ops k bet s = upsert ops DELETE k (default_value bet) bet s"

subsection \<open>Reading\<close>

definition query_key ::
  "('s, 'p, ('p, 'k :: linorder, 'v :: plus) node) swap_ops \<Rightarrow> 'k \<Rightarrow> ('p, 'v) betree \<Rightarrow> 's
   \<Rightarrow> err + ('v option \<times> 's)" where
  "query_key ops k bet s =
     arrow ops False (root bet) (query (fuel_of bet) ops (default_value bet) k (root bet)) s"

definition root_next ::
  "('s, 'p, ('p, 'k :: linorder, 'v) node) swap_ops \<Rightarrow> ('p, 'v) betree \<Rightarrow> 'k message_key option \<Rightarrow> 's
   \<Rightarrow> err + (('k message_key \<times> 'v message) option \<times> 's)" where
  "root_next ops bet mkey s =
     arrow ops False (root bet) (get_next_message (fuel_of bet) ops mkey (root bet)) s"

text \<open>The lines \<open>dump_messages\<close> prints: one per message, in the order of the message keys.\<close>

fun dump_loop ::
  "nat \<Rightarrow> ('s, 'p, ('p, 'k :: linorder, 'v) node) swap_ops \<Rightarrow> ('p, 'v) betree
   \<Rightarrow> 'k message_key \<times> 'v message \<Rightarrow> 's \<Rightarrow> err + (('k message_key \<times> 'v message) list \<times> 's)" where
  "dump_loop 0 ops bet current s = Inl Out_Of_Fuel"
| "dump_loop (Suc fuel) ops bet current s =
     bindE (root_next ops bet (Some (fst current)) s) (\<lambda>(r, s1). case r of
       None \<Rightarrow> Inr ([current], s1)
     | Some m \<Rightarrow> bindE (dump_loop fuel ops bet m s1) (\<lambda>(out, s2). Inr (current # out, s2)))"

definition dump_messages ::
  "('s, 'p, ('p, 'k :: linorder, 'v) node) swap_ops \<Rightarrow> ('p, 'v) betree \<Rightarrow> 's
   \<Rightarrow> err + (('k message_key \<times> 'v message) list \<times> 's)" where
  "dump_messages ops bet s =
     bindE (root_next ops bet None s) (\<lambda>(r, s1). case r of
       None \<Rightarrow> Inr ([], s1)
     | Some m \<Rightarrow> dump_loop (fuel_of bet) ops bet m s1)"

subsection \<open>Iterators\<close>

text \<open>
  \<open>first\<close> and \<open>second\<close> are the current entry, \<open>position\<close> is the message after those of the current
  key.  The default values of keys and values are parameters.
\<close>

record ('k, 'v) betree_iterator =
  position :: "'k message_key \<times> 'v message"
  is_valid :: bool
  pos_is_valid :: bool
  first :: 'k
  second :: 'v

definition iterator_end :: "'k \<Rightarrow> 'v \<Rightarrow> ('k, 'v) betree_iterator" where
  "iterator_end key0 value0 =
     \<lparr>position = (MessageKey key0 0, Message INSERT value0), is_valid = False, pos_is_valid = False,
      first = key0, second = value0\<rparr>"

definition it_apply ::
  "'v :: plus \<Rightarrow> 'k message_key \<Rightarrow> 'v message \<Rightarrow> ('k, 'v) betree_iterator \<Rightarrow> err + ('k, 'v) betree_iterator" where
  "it_apply dflt msgkey msg it =
     (if opcode msg = INSERT then
        Inr (it\<lparr>first := key msgkey, second := val msg, is_valid := True\<rparr>)
      else if opcode msg = UPDATE then
        Inr (it\<lparr>first := key msgkey,
                second := (if is_valid it then second it else dflt) + val msg, is_valid := True\<rparr>)
      else if opcode msg = DELETE then Inr (it\<lparr>is_valid := False\<rparr>)
      else Inl (Panic ''abort''))"

fun setup_loop ::
  "nat \<Rightarrow> ('s, 'p, ('p, 'k :: linorder, 'v :: plus) node) swap_ops \<Rightarrow> ('p, 'v) betree
   \<Rightarrow> ('k, 'v) betree_iterator \<Rightarrow> 's \<Rightarrow> err + (('k, 'v) betree_iterator \<times> 's)" where
  "setup_loop 0 ops bet it s = Inl Out_Of_Fuel"
| "setup_loop (Suc fuel) ops bet it s =
     (if pos_is_valid it \<and> (\<not> is_valid it \<or> key (fst (position it)) = first it) then
        bindE (it_apply (default_value bet) (fst (position it)) (snd (position it)) it) (\<lambda>it1.
        bindE (root_next ops bet (Some (fst (position it))) s) (\<lambda>(r, s1).
        setup_loop fuel ops bet (case r of
            Some m \<Rightarrow> it1\<lparr>position := m\<rparr>
          | None \<Rightarrow> it1\<lparr>pos_is_valid := False\<rparr>) s1))
      else Inr (it, s))"

definition setup_next_element ::
  "('s, 'p, ('p, 'k :: linorder, 'v :: plus) node) swap_ops \<Rightarrow> ('p, 'v) betree
   \<Rightarrow> ('k, 'v) betree_iterator \<Rightarrow> 's \<Rightarrow> err + (('k, 'v) betree_iterator \<times> 's)" where
  "setup_next_element ops bet it s = setup_loop (Suc (fuel_of bet)) ops bet (it\<lparr>is_valid := False\<rparr>) s"

definition iterator_at ::
  "('s, 'p, ('p, 'k :: linorder, 'v :: plus) node) swap_ops \<Rightarrow> 'k \<Rightarrow> 'v \<Rightarrow> ('p, 'v) betree
   \<Rightarrow> 'k message_key option \<Rightarrow> 's \<Rightarrow> err + (('k, 'v) betree_iterator \<times> 's)" where
  "iterator_at ops key0 value0 bet mkey s =
     bindE (root_next ops bet mkey s) (\<lambda>(r, s1). case r of
       None \<Rightarrow> Inr (iterator_end key0 value0, s1)
     | Some m \<Rightarrow> setup_next_element ops bet
         ((iterator_end key0 value0)\<lparr>position := m, pos_is_valid := True\<rparr>) s1)"

text \<open>Both iterators belong to the same tree.\<close>

definition iterator_eq :: "('k, 'v) betree_iterator \<Rightarrow> ('k, 'v) betree_iterator \<Rightarrow> bool" where
  "iterator_eq it other \<longleftrightarrow>
     is_valid it = is_valid other \<and> pos_is_valid it = pos_is_valid other \<and>
     (\<not> pos_is_valid it \<or> position it = position other) \<and>
     (\<not> is_valid it \<or> (first it = first other \<and> second it = second other))"

definition iterator_next ::
  "('s, 'p, ('p, 'k :: linorder, 'v :: plus) node) swap_ops \<Rightarrow> ('p, 'v) betree
   \<Rightarrow> ('k, 'v) betree_iterator \<Rightarrow> 's \<Rightarrow> err + (('k, 'v) betree_iterator \<times> 's)" where
  "iterator_next ops bet it s = setup_next_element ops bet it s"

definition begin_it ::
  "('s, 'p, ('p, 'k :: linorder, 'v :: plus) node) swap_ops \<Rightarrow> 'k \<Rightarrow> 'v \<Rightarrow> ('p, 'v) betree \<Rightarrow> 's
   \<Rightarrow> err + (('k, 'v) betree_iterator \<times> 's)" where
  "begin_it ops key0 value0 bet s = iterator_at ops key0 value0 bet None s"

definition lower_bound_it ::
  "('s, 'p, ('p, 'k :: linorder, 'v :: plus) node) swap_ops \<Rightarrow> 'k \<Rightarrow> 'v \<Rightarrow> ('p, 'v) betree \<Rightarrow> 'k \<Rightarrow> 's
   \<Rightarrow> err + (('k, 'v) betree_iterator \<times> 's)" where
  "lower_bound_it ops key0 value0 bet k s = iterator_at ops key0 value0 bet (Some (range_start k)) s"

definition upper_bound_it ::
  "('s, 'p, ('p, 'k :: linorder, 'v :: plus) node) swap_ops \<Rightarrow> 'k \<Rightarrow> 'v \<Rightarrow> ('p, 'v) betree \<Rightarrow> 'k \<Rightarrow> 's
   \<Rightarrow> err + (('k, 'v) betree_iterator \<times> 's)" where
  "upper_bound_it ops key0 value0 bet k s = iterator_at ops key0 value0 bet (Some (range_end k)) s"

end
