(* ===== verification/Betree_Map.thy ===== *)
theory Betree_Map
  imports Betree_Next Betree_Api
begin

text \<open>
  The tree as a map: \<open>holds\<close> relates the tree and its swap space to the map from keys to values it
  stands for, and every operation of the interface does to that map what its name says.  The swap
  space holds the nodes of the tree and nothing else.
\<close>

context node_store
begin

definition tree_inv :: "bool \<Rightarrow> ('p, 'v) betree \<Rightarrow> 's \<Rightarrow> ('p, 'k, 'v) ptree \<Rightarrow> 'k message_key set \<Rightarrow> nat \<Rightarrow> bool" where
  "tree_inv quiet bet s T M d \<longleftrightarrow> root bet = ptr T \<and> resting quiet d M T s \<and> dom (view s) = set (ptrs T) \<and>
     finite M \<and> card M < unat (next_timestamp bet) \<and> (\<forall>mk\<in>M. 0 < timestamp mk \<and> timestamp mk < next_timestamp bet) \<and>
     d < unat (next_timestamp bet) \<and> 3 \<le> max_node_size bet \<and> 10 * max_node_size bet < 2 ^ 64"

definition holds :: "bool \<Rightarrow> ('p, 'v) betree \<Rightarrow> 's \<Rightarrow> ('k \<Rightarrow> 'v option) \<Rightarrow> bool" where
  "holds quiet bet s f \<longleftrightarrow> (\<exists>T M d. tree_inv quiet bet s T M d \<and> f = den (default_value bet) T)"

lemma tree_invD:
  assumes "tree_inv quiet bet s T M d"
  shows "root bet = ptr T" and "resting quiet d M T s" and "dom (view s) = set (ptrs T)"
    and "finite M" and "card M < unat (next_timestamp bet)" and "\<forall>mk\<in>M. 0 < timestamp mk \<and> timestamp mk < next_timestamp bet"
    and "d < unat (next_timestamp bet)" and "3 \<le> max_node_size bet" and "10 * max_node_size bet < 2 ^ 64"
  using assms unfolding tree_inv_def by - (elim conjE, assumption)+

subsection \<open>A new tree\<close>

lemma wp_betree_new:
  assumes s: "sinv s" "view s = Map.empty" and size: "3 \<le> maxn" "10 * maxn < 2 ^ 64"
  shows "wpE (betree_new ops maxn minn minf dv s) swap_err (\<lambda>(bet, s'). holds quiet bet s' (\<lambda>_. None) \<and>
     next_timestamp bet = 1 \<and> min_flush_size bet = minf \<and> max_node_size bet = maxn \<and> default_value bet = dv)"
  unfolding betree_new_def wpE_bindE
proof (rule wp_allocate[OF s(1) storable_node[OF node_fit_new_node] node_refs_new_node])
  fix p s' assume s': "view s p = None" "view s' = (view s)(p \<mapsto> new_node)" "keeps {p} s s'"
  let ?T = "PTree p [] [] :: ('p, 'k, 'v) ptree"
  have "pins s' q = 0" for q using unpinned[OF s(1), of q] s(2) keepsD(2)[OF s'(3)] by simp
  then have "resting quiet 0 {} ?T s'"
    using keepsD(1)[OF s'(3)] s'(2) s(2)
    by (auto simp: resting_def owned_def buf_ok_def leaf_shape_def new_node_def tkeys_def clean_ok.simps split: if_splits)
  then have "tree_inv quiet \<lparr>min_flush_size = minf, max_node_size = maxn, min_node_size = minn,
      root = p, next_timestamp = 1, default_value = dv\<rparr> s' ?T {} 0"
    using size s'(2) s(2) by (simp add: tree_inv_def)
  moreover have "den dv ?T = (\<lambda>_. None)" by (rule ext) (simp add: den_PTree)
  ultimately show "wpE (case (p, s') of (p, s') \<Rightarrow> Inr (\<lparr>min_flush_size = minf, max_node_size = maxn, min_node_size = minn,
      root = p, next_timestamp = 1, default_value = dv\<rparr>, s')) swap_err (\<lambda>(bet, s'). holds quiet bet s' (\<lambda>_. None) \<and>
     next_timestamp bet = 1 \<and> min_flush_size bet = minf \<and> max_node_size bet = maxn \<and> default_value bet = dv)"
    by (force simp: holds_def)
qed

subsection \<open>Upserts\<close>

lemma resting_stays:
  assumes r: "resting quiet d U T s" and st: "stays quiet d dv M T elts s T' s'" and M: "M \<subseteq> U" "U \<subseteq> U'"
  shows "resting quiet d U' T' s'"
proof -
  note t = restingD[OF r] and t' = staysD[OF st] and f = frameD[OF staysD(7)[OF st]]
  have s': "sinv s'" "pins s' = pins s" using f(1) by (simp_all add: same_pins_def)
  have "pins s q = 0" if "q \<in> set (ptrs T')" for q
    using that f(3) t(5) unpinned[OF t(2), of q] by (cases "q \<in> dom (view s)") (auto simp: domIff)
  moreover have "mkeys T' \<subseteq> U'" "tkeys T' \<subseteq> key ` U'" using t'(5,6) t(6,7) M by blast+
  ultimately show ?thesis unfolding resting_def using t' f(2) s' owned_frame[OF t(9,2) t'(7,1)] by simp
qed

lemma wp_grow_root:
  assumes r: "resting quiet d U T s" and dom: "dom (view s) = set (ptrs T)"
    and sp: "splits quiet d dv U T elts s G s1" and root: "root bet = ptr T"
  shows "wpE (grow_root ops bet (pivot_table G) s1) swap_err (\<lambda>(bet', s'). \<exists>p. bet' = bet\<lparr>root := p\<rparr> \<and>
     resting quiet (Suc d) U (PTree p G []) s' \<and> dom (view s') = set (ptrs (PTree p G [])))"
proof -
  note t = restingD[OF r] and G = splitsD[OF sp] and f = frameD[OF splitsD(7)[OF sp]]
  have s1: "sinv s1" "\<And>q. pins s1 q = 0"
  proof -
    have "pins s q = 0" for q using t(5) dom unpinned[OF t(2), of q] by (cases "q \<in> dom (view s)") (auto simp: domIff)
    then show "sinv s1" "\<And>q. pins s1 q = 0" using f(1) by (simp_all add: same_pins_def)
  qed
  have dom1: "dom (view s1) = insert (ptr T) (set (fptrs G))" using f(5) dom by simp
  have dist: "ptr T \<notin> set (fptrs G)" "distinct (fptrs G)" using f(2) unfolding distinct.simps by blast+
  have unref: "ptr T \<notin> set (node_refs m)" if x: "view s1 x = Some m" for x m
  proof -
    have "x \<in> dom (view s1)" using x by blast
    then consider "x = ptr T" | "x \<in> set (fptrs G)" unfolding dom1 by blast
    then show ?thesis
    proof cases
      case 1 then show ?thesis using G(8) x by (simp add: node_refs_new_node)
    next
      case 2 then show ?thesis using frep_refs[OF G(2) _ x] dist(1) by blast
    qed
  qed
  have ok: "tree_ok (Suc d) (PTree p G [])" for p
    using G(1,3) by (simp add: tree_ok_Suc buf_ok_def msg_shape_def older_def)
  have fit: "node_fit (\<lparr>pivots = pivot_table G, elements = []\<rparr> :: ('p, 'k, 'v) node)"
    using node_fit_node_of[OF ok[of "ptr T"]] by (simp add: node_of_def)
  show ?thesis
    unfolding grow_root_def wpE_bindE
  proof (rule wp_allocate[OF s1(1) storable_node[OF node_fit_new_node] node_refs_new_node])
    fix p s2 assume s2: "view s1 p = None" "view s2 = (view s1)(p \<mapsto> new_node)" "keeps {p} s1 s2"
    have "p \<notin> dom (view s1)" using s2(1) by blast
    then have p: "p \<noteq> ptr T" "p \<notin> set (fptrs G)" unfolding dom1 by blast+
    let ?Q = "\<lambda>(bet', s'). \<exists>p. bet' = bet\<lparr>root := p\<rparr> \<and>
       resting quiet (Suc d) U (PTree p G []) s' \<and> dom (view s') = set (ptrs (PTree p G []))"
    have "wpE (ss_depoint ops (root bet) s2) swap_err (\<lambda>s3. wpE (arrow ops True p (assign ops p (\<lambda>n. n\<lparr>pivots := pivot_table G\<rparr>)) s3)
        swap_err (\<lambda>x. wpE (case x of (_, s3) \<Rightarrow> Inr (bet\<lparr>root := p\<rparr>, s3)) swap_err ?Q))"
    proof (rule wp_depoint[where n = new_node])
      show "sinv s2" "view s2 (root bet) = Some new_node" "pins s2 (root bet) = 0"
        using keepsD[OF s2(3)] s1 s2(2) G(8) p(1) root by simp_all
      show "root bet \<notin> set (node_refs m)" if x: "view s2 x = Some m" for x m
        using x unref[of x m] s2(2) root by (auto simp: node_refs_new_node split: if_splits)
      fix s3 assume s3: "view s3 = (view s2)(root bet := None)" "keeps {} s2 s3"
      show "wpE (arrow ops True p (assign ops p (\<lambda>n. n\<lparr>pivots := pivot_table G\<rparr>)) s3)
        swap_err (\<lambda>x. wpE (case x of (_, s3) \<Rightarrow> Inr (bet\<lparr>root := p\<rparr>, s3)) swap_err ?Q)"
      proof (rule wp_arrow_assign[where n = new_node])
        show "sinv s3" "view s3 p = Some new_node" using keepsD[OF s3(2)] s3(1) s2(2) p(1) root by simp_all
        show "storable (new_node\<lparr>pivots := pivot_table G\<rparr>)" using storable_node[OF fit] by (simp add: new_node_def)
        show "view s3 q \<noteq> None" if "q \<in> set (node_refs (new_node :: ('p, 'k, 'v) node))" for q
          using that by (simp add: node_refs_new_node)
        show "view s3 q \<noteq> None" if "q \<in> set (node_refs (new_node\<lparr>pivots := pivot_table G\<rparr>))" for q
        proof -
          have "q \<in> set (roots G)" using that by (simp add: new_node_def node_refs_table)
          then have "q \<in> set (fptrs G)" using roots_in_fptrs[of G] by blast
          then have "q \<in> dom (view s1)" "q \<noteq> ptr T" using dom1 dist(1) by blast+
          then show ?thesis using s3(1) s2(2) root by auto
        qed
        fix s4 assume s4: "view s4 = (view s3)(p \<mapsto> new_node\<lparr>pivots := pivot_table G\<rparr>)" "keeps {p} s3 s4"
        have v: "view s4 = (view s1)(ptr T := None, p \<mapsto> \<lparr>pivots = pivot_table G, elements = []\<rparr>)"
          using s4(1) s3(1) s2(2) p(1) root by (auto simp: new_node_def)
        have "frep (view s4) G" by (rule frep_cong[OF G(2)]) (use v p(2) dist(1) in auto)
        moreover have "fclean (\<lambda>q. ss_is_dirty ops q s4) G" if quiet
        proof (rule fclean_mono)
          show "fclean (\<lambda>q. ss_is_dirty ops q s1) G" using G(9) that by blast
          show "ss_is_dirty ops q s1" if "q \<in> set (fptrs G)" "ss_is_dirty ops q s4" for q
            using keepsD(4)[OF s4(2) that(2)] keepsD(4)[OF s3(2)] keepsD(4)[OF s2(3)] that(1) p(2) by blast
        qed
        moreover have "fmkeys G \<subseteq> U" "fst ` set G \<union> ftkeys G \<subseteq> key ` U" using G(5,6) t(6,7) by blast+
        moreover have "dom (view s4) = insert p (dom (view s1) - {ptr T})" by (auto simp: v)
        then have dom4: "dom (view s4) = set (ptrs (PTree p G []))" using dist(1) unfolding dom1 ptrs.simps list.set by blast
        moreover have "owned (PTree p G []) s4" using dom4 unfolding owned_def by blast
        ultimately have "resting quiet (Suc d) U (PTree p G []) s4"
          unfolding resting_def using keepsD(1,2)[OF s4(2)] keepsD(2)[OF s3(2)] keepsD(2)[OF s2(3)] s1(2) v p(2) dist(2) ok
          by (simp add: tkeys_PTree clean_ok.simps fclean_def)
        moreover note dom4
        ultimately show "wpE (case ((), s4) of (_, s3) \<Rightarrow> Inr (bet\<lparr>root := p\<rparr>, s3)) swap_err ?Q" by auto
      qed
    qed (rule node_refs_new_node)
    then show "wpE (case (p, s2) of (p, s1) \<Rightarrow> bindE (ss_depoint ops (root bet) s1) (\<lambda>s2.
       bindE (arrow ops True p (assign ops p (\<lambda>n. n\<lparr>pivots := pivot_table G\<rparr>)) s2) (\<lambda>(_, s3).
       Inr (bet\<lparr>root := p\<rparr>, s3)))) swap_err ?Q" by (simp only: prod.case wpE_bindE)
  qed
qed

lemma splits_weaken: "splits quiet d dv M T elts s G s' \<Longrightarrow> M \<subseteq> U \<Longrightarrow> splits quiet d dv U T elts s G s'"
  unfolding splits_def by blast

lemma taken_single:
  "taken dv [(MessageKey k ts, m)] f g \<Longrightarrow> g = f(k := apply_msg dv (f k) m)"
  by (auto simp: taken_def msgs_for_def)

lemma next_timestamp_step:
  fixes ts :: u64
  assumes "unat ts < 2 ^ 29"
  shows "unat (ts + 1) = Suc (unat ts)" and "ts < ts + 1" and "\<And>u. u < ts \<Longrightarrow> u < ts + 1"
proof -
  show eq: "unat (ts + 1) = Suc (unat ts)" using assms by (simp add: unat_word_ariths)
  then show "ts < ts + 1" by (simp add: word_less_nat_alt)
  then show "\<And>u. u < ts \<Longrightarrow> u < ts + 1" by (meson less_trans)
qed

definition capacity_ok :: "bool \<Rightarrow> ('p, 'v) betree \<Rightarrow> bool" where
  "capacity_ok quiet bet \<longleftrightarrow> unat (next_timestamp bet) < 2 ^ 29 \<and>
     (quiet \<longrightarrow> 2 * unat (next_timestamp bet) \<le> min_flush_size bet)"

lemma wp_upsert:
  assumes h: "holds quiet bet s f" and cap: "capacity_ok quiet bet" and known: "known_opcode (Message opc v)"
  shows "wpE (upsert ops opc k v bet s) (errs quiet) (\<lambda>(bet', s').
     holds quiet bet' s' (f(k := apply_msg (default_value bet) (f k) (Message opc v))) \<and>
     bet' = bet\<lparr>next_timestamp := next_timestamp bet + 1, root := root bet'\<rparr>)" (is "wpE _ _ ?Q")
proof -
  obtain T M d where inv: "tree_inv quiet bet s T M d" and f: "f = den (default_value bet) T"
    using h by (auto simp: holds_def)
  note I = tree_invD[OF inv]
  let ?dv = "default_value bet" and ?ts = "next_timestamp bet" and ?mk = "MessageKey k (next_timestamp bet)"
  let ?U = "insert ?mk M" and ?tmp = "[(?mk, Message opc v)]" and ?bet = "bet\<lparr>next_timestamp := ?ts + 1\<rparr>"
  note ts = next_timestamp_step[OF cap[unfolded capacity_ok_def, THEN conjunct1]]
  have card: "card ?U \<le> unat ?ts" using I(4,5) card_insert_le_m1[of "unat ?ts" M ?mk] by (simp add: card_insert_if)
  have conf: "config_ok quiet ?U ?bet" using cap card I(4,8,9) by (auto simp: config_ok_def capacity_ok_def)
  have rest: "resting quiet d ?U T s" using I(2) unfolding resting_def by blast
  have "older (mkeys T) ?tmp" using restingD(6)[OF I(2)] I(6) by (auto simp: older_def)
  then have msgs: "msgs_ok quiet ?U T ?tmp" using known by (simp add: msgs_ok_def map_ok_Cons)
  have pos: "0 < ?ts" using I(5) by (simp add: word_less_nat_alt)
  have keep: "tree_inv quiet (?bet\<lparr>root := ptr T'\<rparr>) s' T' ?U d'"
    if "resting quiet d' ?U T' s'" "dom (view s') = set (ptrs T')" "d' \<le> Suc d" for T' s' d'
    using that I(4,6-9) card ts pos by (auto simp: tree_inv_def)
  have res: "?Q (?bet\<lparr>root := ptr T'\<rparr>, s')"
    if "resting quiet d' ?U T' s'" "dom (view s') = set (ptrs T')" "d' \<le> Suc d" "taken ?dv ?tmp (den ?dv T) (den ?dv T')" for T' s' d'
    using keep[OF that(1-3)] taken_single[OF that(4)] f by (force simp: holds_def)
  let ?rest = "\<lambda>(new_nodes, s1). if length new_nodes > 0 then grow_root ops ?bet new_nodes s1 else Inr (?bet, s1)"
  have "wpE (arrow ops True (ptr T) (flush (fuel_of ?bet) ops ?bet (ptr T) ?tmp) s) (errs quiet) (\<lambda>x. wpE (?rest x) (errs quiet) ?Q)"
  proof (rule wpE_mono[OF wp_call[OF wp_flush[OF conf] rest msgs]])
    show "d < fuel_of ?bet" using I(7) ts(1) by (simp add: fuel_of_def)
    fix x assume "flush_result quiet d (default_value ?bet) (fst ` set ?tmp) T ?tmp s x \<and> same_pins s (snd x)"
    then consider (stay) T' s1 where "x = ([], s1)" "stays quiet d ?dv {?mk} T ?tmp s T' s1"
      | (split) G s1 where "x = (pivot_table G, s1)" "splits quiet d ?dv {?mk} T ?tmp s G s1"
      by (cases x) (auto simp: flush_result_def)
    then show "wpE (?rest x) (errs quiet) ?Q"
    proof cases
      case stay
      have "resting quiet d ?U T' s1" by (rule resting_stays[OF rest stay(2)]) auto
      moreover have "dom (view s1) = set (ptrs T')" using frameD(5)[OF staysD(7)[OF stay(2)]] I(3) by simp
      moreover have "?bet\<lparr>root := ptr T'\<rparr> = ?bet" using staysD(1)[OF stay(2)] I(1) by simp
      ultimately show ?thesis using res[of d T' s1] staysD(4)[OF stay(2)] by (simp add: stay(1))
    next
      case split
      have sp: "splits quiet d ?dv ?U T ?tmp s G s1" by (rule splits_weaken[OF split(2)]) simp
      have "root ?bet = ptr T" using I(1) by simp
      from wp_grow_root[OF rest I(3) sp this]
      have "wpE (grow_root ops ?bet (pivot_table G) s1) (errs quiet) ?Q"
      proof (rule wpE_mono)
        fix y assume "case y of (bet', s') \<Rightarrow> \<exists>p. bet' = ?bet\<lparr>root := p\<rparr> \<and>
          resting quiet (Suc d) ?U (PTree p G []) s' \<and> dom (view s') = set (ptrs (PTree p G []))"
        then obtain p s' where y: "y = (?bet\<lparr>root := p\<rparr>, s')" "resting quiet (Suc d) ?U (PTree p G []) s'"
          "dom (view s') = set (ptrs (PTree p G []))" by (cases y) auto
        have "den ?dv (PTree p G []) = fden ?dv G" by (rule ext) (simp add: den_PTree)
        then show "?Q y" using res[OF y(2,3)] splitsD(4)[OF split(2)] by (simp add: y(1))
      qed (simp add: errs_def)
      then show ?thesis using splitsD(1)[OF split(2)] by (simp add: split(1))
    qed
  qed auto
  then show ?thesis by (simp add: upsert_def Let_def I(1) wp_rules split_def put_def lower_bound_def upper_bound_def)
qed

subsection \<open>Reading\<close>

lemma tree_inv_keeps:
  assumes inv: "tree_inv quiet bet s T M d" and v: "view s' = view s" and k: "keeps {} s s'"
  shows "tree_inv quiet bet s' T M d"
proof -
  note I = tree_invD[OF inv] and t = restingD[OF tree_invD(2)[OF inv]]
  have "clean_ok (\<lambda>q. ss_is_dirty ops q s') T" if quiet
    by (rule clean_ok_mono[of "\<lambda>q. ss_is_dirty ops q s"]) (use t(8) that keepsD(4)[OF k] in auto)
  then have "resting quiet d M T s'" unfolding resting_def v using t keepsD(1,2)[OF k] owned_cong[OF t(9) v] by simp
  then show ?thesis using I unfolding tree_inv_def v by blast
qed

lemma wp_root_read:
  assumes inv: "tree_inv quiet bet s T M d"
    and body: "\<And>s1. sinv s1 \<Longrightarrow> pins s1 (ptr T) > 0 \<Longrightarrow> rep (view s1) T \<Longrightarrow>
      wpE (body s1) swap_err (\<lambda>(r, s2). R r \<and> view s2 = view s1 \<and> keeps {} s1 s2)"
  shows "wpE (arrow ops False (root bet) body s) swap_err (\<lambda>(r, s'). R r \<and> tree_inv quiet bet s' T M d)"
proof -
  note t = restingD[OF tree_invD(2)[OF inv]]
  show ?thesis
    unfolding tree_invD(1)[OF inv]
  proof (rule wp_arrow_read[where X = "{}" and R = R and n = "node_of T"])
    show "view s (ptr T) = Some (node_of T)" using rep_iff[THEN iffD1, OF t(3)] by simp
    show "view s q \<noteq> None" if "q \<in> set (node_refs (node_of T))" for q
      using that rep_live[OF t(3)] node_refs_node_of[of T] by blast
    fix s1 assume s1: "sinv s1" "view s1 = view s" "pins s1 (ptr T) > 0"
    then have "rep (view s1) T" using t(3) by simp
    then show "wpE (body s1) swap_err (\<lambda>(r, s2). view s2 = view s \<and> keeps {} s1 s2 \<and> R r)"
      by (intro wpE_mono[OF body[OF s1(1,3)]]) (auto simp: s1(2))
  next
    fix r s' assume "view s' = view s" "keeps ((if False then {ptr T} else {}) \<union> {}) s s'" "R r"
    then show "case (r, s') of (r, s') \<Rightarrow> R r \<and> tree_inv quiet bet s' T M d" using tree_inv_keeps[OF inv] by simp
  qed (rule t(2))
qed

lemma wp_query_key:
  assumes h: "holds quiet bet s f"
  shows "wpE (query_key ops k bet s) swap_err (\<lambda>(r, s'). r = f k \<and> holds quiet bet s' f)"
proof -
  obtain T M d where inv: "tree_inv quiet bet s T M d" and f: "f = den (default_value bet) T"
    using h by (auto simp: holds_def)
  note I = tree_invD[OF inv] and t = restingD[OF tree_invD(2)[OF inv]]
  have "wpE (query_key ops k bet s) swap_err (\<lambda>(r, s'). r = den (default_value bet) T k \<and> tree_inv quiet bet s' T M d)"
    unfolding query_key_def
    by (rule wp_root_read[OF inv], unfold I(1), rule wp_query[OF t(1)]) (use I(7) in \<open>simp_all add: fuel_of_def\<close>)
  then show ?thesis by (rule wpE_mono) (auto simp: f holds_def)
qed

lemma wp_root_next:
  assumes inv: "tree_inv quiet bet s T M d"
  shows "wpE (root_next ops bet mkey s) swap_err (\<lambda>(r, s'). next_in (tmsgs T) mkey r \<and> tree_inv quiet bet s' T M d)"
proof -
  note I = tree_invD[OF inv] and t = restingD[OF tree_invD(2)[OF inv]]
  show ?thesis
    unfolding root_next_def
    by (rule wp_root_read[OF inv], unfold I(1), rule next_okD[OF wp_get_next_message t(1)]) (use I(7) in \<open>simp_all add: fuel_of_def\<close>)
qed

subsection \<open>The messages of a tree in order\<close>

lemma fmsgs_key_child:
  assumes F: "forest_ok d (A @ c # B)" and c: "fst c \<le> x" "\<And>b. b \<in> set B \<Longrightarrow> x < fst b"
    and m: "m \<in> fmsgs (A @ c # B)" "key (fst m) = x"
  shows "m \<in> tmsgs (fst (snd c))"
proof -
  have "m \<in> fmsgs A \<or> m \<in> tmsgs (fst (snd c)) \<or> m \<in> fmsgs B" using m(1) by (cases c) auto
  moreover have "m \<notin> fmsgs A"
  proof
    assume "m \<in> fmsgs A"
    from fmsgs_before[OF F this] show False using c(1) m(2) by simp
  qed
  moreover have "m \<notin> fmsgs B"
  proof
    assume B: "m \<in> fmsgs B"
    then have ne: "B \<noteq> []" by auto
    have "forest_ok d B" using F by (simp add: forest_ok_append forest_ok_Cons)
    from fmsgs_keys[OF this B ne] show False using c(2)[of "hd B"] ne m(2) by auto
  qed
  ultimately show ?thesis by blast
qed

lemma den_messages:
  "tree_ok d t \<Longrightarrow> map_ok L \<Longrightarrow> set L = tmsgs t \<Longrightarrow> apply_msgs dv None (msgs_for L x) = den dv t x"
proof (induction d arbitrary: t L)
  case 0
  obtain p es where t: "t = PTree p [] es" using 0(1) by (cases t) auto
  have "map_ok es" using 0(1) by (simp add: t buf_ok_def)
  then have "L = es" using 0(2,3) by (intro map_ok_eqI) (simp_all add: t)
  then show ?case by (simp add: t den_PTree)
next
  case (Suc d)
  obtain p F es where t: "t = PTree p F es" by (cases t)
  have F: "F \<noteq> []" "map_ok F" "forest_ok d F" "map_ok es" "older (fmkeys F) es"
    using Suc.prems(1) forest_map_ok by (auto simp: t tree_ok_Suc buf_ok_def)
  have ms: "msgs_for L x = map snd (filter (\<lambda>m. key (fst m) = x) L)" by (simp add: msgs_for_def)
  show ?case
  proof (cases "fst (hd F) \<le> x")
    case True
    obtain A c B where c: "F = A @ c # B" "fst c \<le> x" "\<And>b. b \<in> set B \<Longrightarrow> x < fst b"
      using pivot_split[OF F(2,1) True] by blast
    let ?t = "fst (snd c)"
    let ?L = "filter (\<lambda>m. m \<in> tmsgs ?t) L"
    have t': "tree_ok d ?t" "tmsgs ?t \<subseteq> fmsgs F" using F(3) by (auto simp: c(1) forest_ok_append forest_ok_Cons)
    have IH: "apply_msgs dv None (msgs_for ?L x) = den dv ?t x"
    proof (rule Suc.IH[OF t'(1) map_ok_filter[OF Suc.prems(2)]])
      show "set ?L = tmsgs ?t" using t'(2) unfolding set_filter Suc.prems(3) t tmsgs.simps by blast
    qed
    have "filter (\<lambda>m. key (fst m) = x) L = filter (\<lambda>m. key (fst m) = x) ?L @ filter (\<lambda>m. key (fst m) = x) es"
    proof (rule map_ok_eqI)
      show "map_ok (filter (\<lambda>m. key (fst m) = x) ?L @ filter (\<lambda>m. key (fst m) = x) es)"
        unfolding map_ok_append
      proof (intro conjI ballI)
        fix a b assume a: "a \<in> set (filter (\<lambda>m. key (fst m) = x) ?L)" and b: "b \<in> set (filter (\<lambda>m. key (fst m) = x) es)"
        have "a \<in> fmsgs F" using a t'(2) unfolding set_filter by blast
        then have "fst a \<in> fmkeys F" unfolding fst_fmsgs[symmetric] by blast
        then show "fst a < fst b" using F(5) a b by (auto simp: older_def less_message_key_def)
      qed (intro map_ok_filter Suc.prems(2) F(4))+
      show "set (filter (\<lambda>m. key (fst m) = x) L) = set (filter (\<lambda>m. key (fst m) = x) ?L @ filter (\<lambda>m. key (fst m) = x) es)"
        using fmsgs_key_child[OF F(3)[unfolded c(1)] c(2,3)] t'(2)
        unfolding set_append set_filter Suc.prems(3) c(1) t tmsgs.simps by blast
    qed (rule map_ok_filter[OF Suc.prems(2)])
    then have "msgs_for L x = msgs_for ?L x @ msgs_for es x" by (simp add: msgs_for_def)
    then show ?thesis using IH fden_child[of c x B dv A] c by (simp add: t den_PTree)
  next
    case False
    have out: "key (fst m) \<noteq> x" if "m \<in> tmsgs t" for m
      using that False fmsgs_keys[OF F(3) _ F(1), of m] Suc.prems(1) by (auto simp: t tree_ok_Suc)
    then have "msgs_for L x = []" using Suc.prems(3) by (intro msgs_for_NilI) blast
    moreover have "den dv t x = None"
      using out by (intro den_outside) (unfold fst_tmsgs[symmetric], blast)
    ultimately show ?thesis by simp
  qed
qed

end

end
