(* ===== verification/Betree_Iterate.thy ===== *)
theory Betree_Iterate
  imports Betree_Map
begin

text \<open>
  The iterators and the dump.  The messages of a tree in the order of their keys form one list \<open>L\<close>;
  \<open>get_next_message\<close> walks along it, \<open>dump_messages\<close> prints it, and an iterator folds the messages of
  each key to an entry, so that it runs through the map of the tree in the order of the keys.
\<close>

subsection \<open>The first message beyond a key\<close>

definition first_beyond :: "'k :: linorder message_key option \<Rightarrow> ('k, 'v) message_map \<Rightarrow> ('k message_key \<times> 'v message) option" where
  "first_beyond mkey L = (case filter (beyond mkey) L of [] \<Rightarrow> None | m # _ \<Rightarrow> Some m)"

lemma next_in_list:
  assumes ok: "map_ok L" and r: "next_in (set L) mkey r"
  shows "r = first_beyond mkey L"
proof (cases "filter (beyond mkey) L")
  case Nil
  then have "\<forall>m\<in>set L. \<not> beyond mkey m" by (simp add: filter_empty_conv)
  then show ?thesis using r Nil by (cases r) (auto simp: first_beyond_def)
next
  case (Cons m ms)
  have "m \<in> set (filter (beyond mkey) L)" unfolding Cons by simp
  then have m: "m \<in> set L" "beyond mkey m" by auto
  then obtain m' where r': "r = Some m'" using r by (cases r) auto
  have m': "m' \<in> set (filter (beyond mkey) L)" using r r' by simp
  have mok: "map_ok (m # ms)" using map_ok_filter[OF ok] Cons by metis
  have "fst m' \<le> fst m" using r r' m by simp
  then have "m' = m" using m' mok unfolding Cons by (auto simp: map_ok_Cons leD)
  then show ?thesis by (simp add: first_beyond_def Cons r')
qed

lemma first_beyond_at:
  assumes "map_ok (A @ m # B)"
  shows "first_beyond (Some (fst m)) (A @ m # B) = (case B of [] \<Rightarrow> None | x # _ \<Rightarrow> Some x)"
proof -
  have "filter (beyond (Some (fst m))) A = []" "filter (beyond (Some (fst m))) B = B"
    using assms by (auto simp: map_ok_append map_ok_Cons filter_empty_conv filter_id_conv)
  then show ?thesis by (simp add: first_beyond_def)
qed

lemma sorted_messages_ex:
  fixes S :: "('k :: linorder message_key \<times> 'v message) set"
  assumes "finite S" and inj: "inj_on fst S"
  shows "\<exists>L. map_ok L \<and> set L = S"
proof -
  obtain xs where xs: "set xs = S" "distinct xs" using finite_distinct_list[OF assms(1)] by blast
  let ?L = "sort_key fst xs"
  have "distinct (map fst ?L)" using xs inj by (simp add: distinct_map)
  then have "map_ok ?L" by (simp add: map_ok_def strict_sorted_iff)
  then show ?thesis using xs(1) by (intro exI[of _ ?L]) simp
qed

subsection \<open>Folding the messages of a key\<close>

text \<open>The loop of \<open>setup_next_element\<close> on the list of the messages that lie ahead.\<close>

fun settle :: "'v :: plus \<Rightarrow> ('k \<times> 'v) option \<Rightarrow> ('k, 'v) message_map \<Rightarrow> ('k \<times> 'v) option \<times> ('k, 'v) message_map" where
  "settle dv e [] = (e, [])"
| "settle dv e (m # S) =
     (if e = None \<or> key (fst m) = fst (the e)
      then settle dv (map_option (Pair (key (fst m))) (apply_msg dv (map_option snd e) (snd m))) S
      else (e, m # S))"

definition so_far :: "('k \<times> 'v) option \<Rightarrow> 'k \<Rightarrow> 'v option" where
  "so_far e x = (case e of None \<Rightarrow> None | Some (k, v) \<Rightarrow> if k = x then Some v else None)"

lemma so_far_simps [simp]: "so_far None x = None" "so_far (Some (k, v)) x = (if k = x then Some v else None)"
  by (simp_all add: so_far_def)

definition settled :: "'v :: plus \<Rightarrow> ('k :: linorder \<times> 'v) option \<Rightarrow> ('k, 'v) message_map
    \<Rightarrow> ('k \<times> 'v) option \<Rightarrow> ('k, 'v) message_map \<Rightarrow> bool" where
  "settled dv e S e' S' \<longleftrightarrow> (case e' of
      None \<Rightarrow> S' = [] \<and> (\<forall>x. apply_msgs dv (so_far e x) (msgs_for S x) = None)
    | Some (k, v) \<Rightarrow> (\<forall>m\<in>set S'. k < key (fst m)) \<and>
       (\<forall>x. apply_msgs dv (so_far e x) (msgs_for S x) =
          (if x = k then Some v else if x < k then None else apply_msgs dv None (msgs_for S' x))))"

lemma settle_spec:
  fixes S :: "('k :: linorder, 'v :: plus) message_map"
  assumes "map_ok S" and "\<And>k v m. e = Some (k, v) \<Longrightarrow> m \<in> set S \<Longrightarrow> k \<le> key (fst m)" and "settle dv e S = (e', S')"
  shows "\<exists>P. S = P @ S'" and "settled dv e S e' S'"
proof -
  have "(\<exists>P. S = P @ S') \<and> settled dv e S e' S'"
    using assms
  proof (induction S arbitrary: e)
    case Nil
    then show ?case by (auto simp: settled_def split: option.splits)
  next
    case (Cons m S)
    let ?x0 = "key (fst m)"
    have S: "map_ok S" "\<And>m'. m' \<in> set S \<Longrightarrow> ?x0 \<le> key (fst m')"
      using Cons.prems(1) by (auto simp: map_ok_Cons intro: key_mono[OF less_imp_le])
    show ?case
    proof (cases "e = None \<or> ?x0 = fst (the e)")
      case True
      let ?e = "map_option (Pair ?x0) (apply_msg dv (map_option snd e) (snd m))"
      have st: "settle dv ?e S = (e', S')" using Cons.prems(3) True by simp
      have same: "apply_msgs dv (so_far ?e x) (msgs_for S x) = apply_msgs dv (so_far e x) (msgs_for (m # S) x)" for x
      proof (cases "x = ?x0")
        case True
        have "map_option snd e = so_far e ?x0" using \<open>e = None \<or> ?x0 = fst (the e)\<close> by (cases e) auto
        moreover have "so_far ?e ?x0 = apply_msg dv (map_option snd e) (snd m)"
          by (cases "apply_msg dv (map_option snd e) (snd m)") auto
        ultimately show ?thesis by (simp add: True msgs_for_Cons)
      next
        case False
        have "so_far e x = None" using \<open>e = None \<or> ?x0 = fst (the e)\<close> False by (cases e) auto
        moreover have "so_far ?e x = None"
          using False by (cases "apply_msg dv (map_option snd e) (snd m)") auto
        ultimately show ?thesis using False by (simp add: msgs_for_Cons)
      qed
      have IH: "(\<exists>P. S = P @ S') \<and> settled dv ?e S e' S'"
        by (rule Cons.IH[OF S(1) _ st]) (use S(2) in auto)
      then obtain P where "m # S = (m # P) @ S'" by auto
      then show ?thesis using conjunct2[OF IH] unfolding settled_def same by blast
    next
      case False
      then obtain k v where e: "e = Some (k, v)" "k \<noteq> ?x0" by (cases e) auto
      then have k: "k < ?x0" using Cons.prems(2)[of k v m] by simp
      then have later: "k < key (fst m')" if "m' \<in> set (m # S)" for m' using that S(2)[of m'] by auto
      then have none: "msgs_for (m # S) x = []" if "x \<le> k" for x using that by (intro msgs_for_NilI) (meson leD)
      have "e' = Some (k, v)" "S' = m # S" using Cons.prems(3) e by auto
      then show ?thesis using later none e(1) by (auto simp: settled_def)
    qed
  qed
  then show "\<exists>P. S = P @ S'" and "settled dv e S e' S'" by blast+
qed

subsection \<open>Walking along the messages\<close>

context node_store
begin

lemma tmsgs_finite: "finite (tmsgs t)"
  by (induction t rule: ptree_induct) (auto simp: split_def)

lemma tmsgs_inj: "tree_ok d t \<Longrightarrow> m \<in> tmsgs t \<Longrightarrow> m' \<in> tmsgs t \<Longrightarrow> fst m = fst m' \<Longrightarrow> m = m'"
proof (induction d arbitrary: t)
  case 0
  then obtain p es where t: "t = PTree p [] es" by (cases t) auto
  have "map_ok es" using 0(1) by (simp add: t buf_ok_def)
  then show ?case using 0(2-4) map_ok_key_unique[of es "fst m" "snd m" "snd m'"] by (cases m; cases m') (auto simp: t)
next
  case (Suc d)
  obtain p F es where t: "t = PTree p F es" by (cases t)
  have F: "F \<noteq> []" "map_ok F" "forest_ok d F" "map_ok es" "older (fmkeys F) es"
    using Suc.prems(1) forest_map_ok by (auto simp: t tree_ok_Suc buf_ok_def)
  have apart: False if "x \<in> set es" "y \<in> fmsgs F" "fst x = fst y" for x y
  proof -
    have "fst y \<in> fmkeys F" using that(2) unfolding fst_fmsgs[symmetric] by blast
    then have "timestamp (fst y) < timestamp (fst x)" using F(5) that(1,3) unfolding older_def by metis
    then show False using that(3) by simp
  qed
  consider (es) "m \<in> set es" "m' \<in> set es" | (kids) "m \<in> fmsgs F" "m' \<in> fmsgs F"
    using Suc.prems(2-4) apart[of m m'] apart[of m' m] unfolding t tmsgs.simps by (auto simp del: UN_iff)
  then show ?case
  proof cases
    case es
    then show ?thesis using Suc.prems(4) map_ok_key_unique[OF F(4), of "fst m" "snd m" "snd m'"] by (cases m; cases m') auto
  next
    case kids
    let ?x = "key (fst m)"
    obtain A c B where c: "F = A @ c # B" "fst c \<le> ?x" "\<And>b. b \<in> set B \<Longrightarrow> ?x < fst b"
      using pivot_split[OF F(2,1) fmsgs_keys[OF F(3) kids(1) F(1)]] by blast
    have ch: "x \<in> tmsgs (fst (snd c))" if "x \<in> fmsgs F" "key (fst x) = ?x" for x
      by (rule fmsgs_key_child[OF F(3)[unfolded c(1)] c(2) c(3) that[unfolded c(1)]])
    have "tree_ok d (fst (snd c))" using F(3) by (simp add: c(1) forest_ok_append forest_ok_Cons)
    moreover have "m \<in> tmsgs (fst (snd c))" "m' \<in> tmsgs (fst (snd c))"
      by (rule ch[OF kids(1) refl], rule ch[OF kids(2)]) (simp add: Suc.prems(4))
    ultimately show ?thesis using Suc.prems(4) by (intro Suc.IH)
  qed
qed

definition reads :: "bool \<Rightarrow> ('p, 'v) betree \<Rightarrow> 's \<Rightarrow> ('k, 'v) message_map \<Rightarrow> ('k \<Rightarrow> 'v option) \<Rightarrow> bool" where
  "reads quiet bet s L f \<longleftrightarrow> (\<exists>T M d. tree_inv quiet bet s T M d \<and> f = den (default_value bet) T \<and>
     map_ok L \<and> set L = tmsgs T)"

lemma known_opcode_tree: "tree_ok d t \<Longrightarrow> m \<in> tmsgs t \<Longrightarrow> known_opcode (snd m)"
proof (induction d arbitrary: t)
  case 0
  then show ?case using known_in_buffer[of True _ m] by (cases t) auto
next
  case (Suc d)
  obtain p F es where t: "t = PTree p F es" by (cases t)
  have "m \<in> set es \<or> (\<exists>c\<in>set F. m \<in> tmsgs (fst (snd c)))" using Suc.prems(2) by (simp add: t split_def)
  moreover have "buf_ok False es" "\<forall>c\<in>set F. tree_ok d (fst (snd c))"
    using Suc.prems(1) by (auto simp: t tree_ok_Suc forest_ok_def)
  ultimately show ?case using known_in_buffer Suc.IH by blast
qed

lemma readsD:
  assumes "reads quiet bet s L f"
  shows "holds quiet bet s f" and "map_ok L" and "f = (\<lambda>x. apply_msgs (default_value bet) None (msgs_for L x))"
    and "\<forall>m\<in>set L. known_opcode (snd m)" and "length L < fuel_of bet" and "\<forall>m\<in>set L. 0 < timestamp (fst m)"
proof -
  obtain T M d where inv: "tree_inv quiet bet s T M d" and f: "f = den (default_value bet) T" and L: "map_ok L" "set L = tmsgs T"
    using assms by (auto simp: reads_def)
  note I = tree_invD[OF inv] and t = restingD[OF tree_invD(2)[OF inv]]
  show "holds quiet bet s f" using inv f by (auto simp: holds_def)
  show "map_ok L" by (rule L(1))
  show "f = (\<lambda>x. apply_msgs (default_value bet) None (msgs_for L x))" using den_messages[OF t(1) L] f by auto
  show "\<forall>m\<in>set L. known_opcode (snd m)" using known_opcode_tree[OF t(1)] L(2) by blast
  have "fst ` set L \<subseteq> M" using t(6) by (simp add: L(2) fst_tmsgs)
  then show "\<forall>m\<in>set L. 0 < timestamp (fst m)" using I(6) by blast
  have "length L = card (fst ` set L)" using distinct_card[OF map_ok_distinct[OF L(1)]] by simp
  also have "\<dots> \<le> card M" using t(6) I(4) by (intro card_mono) (simp_all add: L(2) fst_tmsgs)
  finally show "length L < fuel_of bet" using I(5) by (simp add: fuel_of_def)
qed

lemma holds_reads: "holds quiet bet s f \<Longrightarrow> \<exists>L. reads quiet bet s L f"
proof -
  assume "holds quiet bet s f"
  then obtain T M d where inv: "tree_inv quiet bet s T M d" and f: "f = den (default_value bet) T" by (auto simp: holds_def)
  have "inj_on fst (tmsgs T)" using tmsgs_inj[OF restingD(1)[OF tree_invD(2)[OF inv]]] by (auto intro: inj_onI)
  then show ?thesis using sorted_messages_ex[OF tmsgs_finite] inv f unfolding reads_def by blast
qed

lemma wp_reads_next:
  assumes "reads quiet bet s L f"
  shows "wpE (root_next ops bet mkey s) swap_err (\<lambda>(r, s'). r = first_beyond mkey L \<and> reads quiet bet s' L f)"
proof -
  obtain T M d where inv: "tree_inv quiet bet s T M d" and f: "f = den (default_value bet) T" and L: "map_ok L" "set L = tmsgs T"
    using assms by (auto simp: reads_def)
  show ?thesis
    by (rule wpE_mono[OF wp_root_next[OF inv]]) (use next_in_list[OF L(1), unfolded L(2)] f L in \<open>auto simp: reads_def\<close>)
qed

lemma wp_dump_loop:
  assumes "reads quiet bet s (A @ m # B) f" and "length B < fuel"
  shows "wpE (dump_loop fuel ops bet m s) swap_err (\<lambda>(out, s'). out = m # B \<and> reads quiet bet s' (A @ m # B) f)"
  using assms
proof (induction fuel arbitrary: A m B s)
  case (Suc fuel)
  note at = first_beyond_at[OF readsD(2)[OF Suc.prems(1)]]
  show ?case
    unfolding dump_loop.simps wpE_bindE
  proof (rule wpE_mono[OF wp_reads_next[OF Suc.prems(1)]])
    fix x assume "case x of (r, s') \<Rightarrow> r = first_beyond (Some (fst m)) (A @ m # B) \<and> reads quiet bet s' (A @ m # B) f"
    then obtain s1 where x: "x = (case B of [] \<Rightarrow> None | y # _ \<Rightarrow> Some y, s1)" and s1: "reads quiet bet s1 (A @ m # B) f"
      by (cases x) (auto simp: at)
    show "wpE (case x of (r, s1) \<Rightarrow> case r of None \<Rightarrow> Inr ([m], s1)
        | Some m' \<Rightarrow> bindE (dump_loop fuel ops bet m' s1) (\<lambda>(out, s2). Inr (m # out, s2))) swap_err
        (\<lambda>(out, s'). out = m # B \<and> reads quiet bet s' (A @ m # B) f)"
    proof (cases B)
      case (Cons y B')
      have "wpE (dump_loop fuel ops bet y s1) swap_err (\<lambda>(out, s'). out = y # B' \<and> reads quiet bet s' ((A @ [m]) @ y # B') f)"
        using s1 Suc.prems(2) Cons by (intro Suc.IH) auto
      then show ?thesis using Cons by (auto simp: x wp_rules elim!: wpE_mono)
    qed (use s1 in \<open>simp add: x\<close>)
  qed simp
qed simp

lemma wp_dump_messages:
  assumes "holds quiet bet s f"
  shows "wpE (dump_messages ops bet s) swap_err (\<lambda>(out, s'). map_ok out \<and>
     (\<forall>x. apply_msgs (default_value bet) None (msgs_for out x) = f x) \<and> holds quiet bet s' f)"
proof -
  obtain L where L: "reads quiet bet s L f" using holds_reads[OF assms] by blast
  note rd = readsD[OF L]
  show ?thesis
    unfolding dump_messages_def wpE_bindE
  proof (rule wpE_mono[OF wp_reads_next[OF L]])
    fix x assume "case x of (r, s') \<Rightarrow> r = first_beyond None L \<and> reads quiet bet s' L f"
    then obtain s1 where x: "x = (case L of [] \<Rightarrow> None | m # _ \<Rightarrow> Some m, s1)" and s1: "reads quiet bet s1 L f"
      by (cases x) (auto simp: first_beyond_def)
    show "wpE (case x of (r, s1) \<Rightarrow> case r of None \<Rightarrow> Inr ([], s1) | Some m \<Rightarrow> dump_loop (fuel_of bet) ops bet m s1) swap_err
      (\<lambda>(out, s'). map_ok out \<and> (\<forall>x. apply_msgs (default_value bet) None (msgs_for out x) = f x) \<and> holds quiet bet s' f)"
    proof (cases L)
      case Nil
      then show ?thesis using rd readsD(1)[OF s1] by (simp add: x)
    next
      case (Cons m B)
      have "wpE (dump_loop (fuel_of bet) ops bet m s1) swap_err (\<lambda>(out, s'). out = m # B \<and> reads quiet bet s' ([] @ m # B) f)"
        using s1 rd(5) Cons by (intro wp_dump_loop) auto
      then show ?thesis
        unfolding x Cons by simp (erule wpE_mono, auto dest: readsD(1-3))
    qed
  qed simp
qed

subsection \<open>Iterators\<close>

definition it_pos :: "('k, 'v) betree_iterator \<Rightarrow> ('k, 'v) message_map \<Rightarrow> bool" where
  "it_pos it S \<longleftrightarrow> (pos_is_valid it \<longleftrightarrow> S \<noteq> []) \<and> (S \<noteq> [] \<longrightarrow> position it = hd S)"

definition entry :: "('k, 'v) betree_iterator \<Rightarrow> ('k \<times> 'v) option" where
  "entry it = (if is_valid it then Some (first it, second it) else None)"

lemma it_apply_entry:
  assumes "known_opcode m"
  obtains it' where "it_apply dv mk m it = Inr it'" and "entry it' = map_option (Pair (key mk)) (apply_msg dv (map_option snd (entry it)) m)"
    and "position it' = position it" and "pos_is_valid it' = pos_is_valid it"
  using assms by (cases rule: known_opcodeE) (auto simp: it_apply_def entry_def apply_msg_def split: if_splits)

lemma wp_setup_loop:
  assumes "reads quiet bet s (P @ S) f" and "it_pos it S" and "length S < fuel"
  shows "wpE (setup_loop fuel ops bet it s) swap_err (\<lambda>(it', s'). reads quiet bet s' (P @ S) f \<and>
     (\<exists>S'. settle (default_value bet) (entry it) S = (entry it', S') \<and> it_pos it' S'))"
  using assms
proof (induction fuel arbitrary: P S it s)
  case (Suc fuel)
  note rd = readsD[OF Suc.prems(1)]
  show ?case
  proof (cases S)
    case Nil
    then have "\<not> pos_is_valid it" using Suc.prems(2) by (simp add: it_pos_def)
    then show ?thesis using Suc.prems(1,2) Nil by simp
  next
    case (Cons m S1)
    have pos: "pos_is_valid it" "position it = m" using Suc.prems(2) by (simp_all add: it_pos_def Cons)
    have cond: "(\<not> is_valid it \<or> key (fst m) = first it) \<longleftrightarrow> (entry it = None \<or> key (fst m) = fst (the (entry it)))"
      by (simp add: entry_def)
    show ?thesis
    proof (cases "\<not> is_valid it \<or> key (fst m) = first it")
      case False
      then have "setup_loop (Suc fuel) ops bet it s = Inr (it, s)" using pos by simp
      moreover have "settle (default_value bet) (entry it) S = (entry it, S)" using False by (simp add: Cons entry_def)
      ultimately show ?thesis using Suc.prems(1,2) by simp
    next
      case True
      have "known_opcode (snd m)" using rd(4) Cons by simp
      then obtain it1 where it1: "it_apply (default_value bet) (fst m) (snd m) it = Inr it1"
        "entry it1 = map_option (Pair (key (fst m))) (apply_msg (default_value bet) (map_option snd (entry it)) (snd m))"
        "position it1 = position it" "pos_is_valid it1 = pos_is_valid it"
        by (rule it_apply_entry)
      have st: "settle (default_value bet) (entry it) S = settle (default_value bet) (entry it1) S1"
        using True cond by (simp add: Cons it1(2))
      have fb: "first_beyond (Some (fst m)) (P @ m # S1) = (case S1 of [] \<Rightarrow> None | x # _ \<Rightarrow> Some x)"
        using first_beyond_at rd(2) Cons by simp
      have "wpE (root_next ops bet (Some (fst m)) s) swap_err (\<lambda>(r, s1). wpE (setup_loop fuel ops bet (case r of
            Some m \<Rightarrow> it1\<lparr>position := m\<rparr> | None \<Rightarrow> it1\<lparr>pos_is_valid := False\<rparr>) s1) swap_err
          (\<lambda>(it', s'). reads quiet bet s' (P @ S) f \<and>
            (\<exists>S'. settle (default_value bet) (entry it) S = (entry it', S') \<and> it_pos it' S')))"
      proof (rule wpE_mono[OF wp_reads_next[OF Suc.prems(1)]])
        fix x assume "case x of (r, s') \<Rightarrow> r = first_beyond (Some (fst m)) (P @ S) \<and> reads quiet bet s' (P @ S) f"
        then obtain s1 where x: "x = (case S1 of [] \<Rightarrow> None | y # _ \<Rightarrow> Some y, s1)" and s1: "reads quiet bet s1 (P @ S) f"
          using fb by (cases x) (auto simp: Cons)
        let ?it = "case S1 of [] \<Rightarrow> it1\<lparr>pos_is_valid := False\<rparr> | y # _ \<Rightarrow> it1\<lparr>position := y\<rparr>"
        have pe: "it_pos ?it S1" "entry ?it = entry it1" using it1(4) pos by (auto simp: it_pos_def entry_def split: list.splits)
        have rd1: "reads quiet bet s1 ((P @ [m]) @ S1) f" using s1 Cons by simp
        have "wpE (setup_loop fuel ops bet ?it s1) swap_err (\<lambda>(it', s'). reads quiet bet s' ((P @ [m]) @ S1) f \<and>
           (\<exists>S'. settle (default_value bet) (entry it1) S1 = (entry it', S') \<and> it_pos it' S'))"
          using Suc.IH[OF rd1 pe(1)] Suc.prems(3) unfolding pe(2) by (simp add: Cons)
        then show "case x of (r, s1) \<Rightarrow> wpE (setup_loop fuel ops bet (case r of
            Some m \<Rightarrow> it1\<lparr>position := m\<rparr> | None \<Rightarrow> it1\<lparr>pos_is_valid := False\<rparr>) s1) swap_err
          (\<lambda>(it', s'). reads quiet bet s' (P @ S) f \<and>
            (\<exists>S'. settle (default_value bet) (entry it) S = (entry it', S') \<and> it_pos it' S'))"
          unfolding x st by (cases S1) (simp_all add: Cons)
      qed simp
      then show ?thesis using True pos it1(1) by (simp add: wp_rules split_def)
    qed
  qed
qed simp

definition graph_of :: "'v \<Rightarrow> ('k, 'v) message_map \<Rightarrow> ('k \<times> 'v) list \<Rightarrow> bool" where
  "graph_of dv S R \<longleftrightarrow> map_ok R \<and> (\<forall>x. map_of R x = apply_msgs dv None (msgs_for S x))"

lemma settle_graph:
  assumes S: "map_ok S" and R: "graph_of dv S R" and st: "settle dv None S = (e, S')"
  shows "(R = [] \<and> e = None \<and> S' = []) \<or> (\<exists>k v R'. R = (k, v) # R' \<and> e = Some (k, v) \<and> graph_of dv S' R')"
proof -
  note sp = settle_spec[OF S _ st]
  have sd: "settled dv None S e S'" by (rule sp(2)) simp
  have R': "map_ok R" "\<And>x. map_of R x = apply_msgs dv None (msgs_for S x)" using R by (auto simp: graph_of_def)
  show ?thesis
  proof (cases e)
    case None
    then have "map_of R (fst (hd R)) = None" using sd R'(2) by (simp add: settled_def)
    then have "R = []" by (cases R) auto
    then show ?thesis using sd None by (simp add: settled_def)
  next
    case (Some kv)
    obtain k v where kv: "kv = (k, v)" by (cases kv)
    have later: "\<forall>m\<in>set S'. k < key (fst m)" and val: "\<And>x. map_of R x = (if x = k then Some v else if x < k then None else apply_msgs dv None (msgs_for S' x))"
      using sd R'(2) by (simp_all add: settled_def Some kv)
    have none: "msgs_for S' x = []" if "x \<le> k" for x using that later by (intro msgs_for_NilI) (meson leD)
    obtain k0 v0 R0 where R0: "R = (k0, v0) # R0" using val[of k] by (cases R) auto
    have "k0 = k"
    proof (rule ccontr)
      assume "k0 \<noteq> k"
      then have "(k, v) \<in> set R0" using val[of k] R0 by (auto dest: map_of_SomeD)
      then have "k0 < k" using R'(1) R0 by (auto simp: map_ok_Cons)
      then show False using val[of k0] R0 \<open>k0 \<noteq> k\<close> by simp
    qed
    then have v0: "v0 = v" using val[of k] R0 by simp
    have "map_of R0 x = apply_msgs dv None (msgs_for S' x)" for x
    proof (cases "x \<le> k")
      case True
      have "map_of R0 x = None"
        using R'(1) True by (auto simp: R0 \<open>k0 = k\<close> map_ok_Cons map_of_eq_None_iff)
      then show ?thesis using none[OF True] by simp
    next
      case False
      then have "x \<noteq> k" "\<not> x < k" by auto
      then show ?thesis using val[of x] R0 \<open>k0 = k\<close> by simp
    qed
    then have "graph_of dv S' R0" using R'(1) by (simp add: graph_of_def R0 map_ok_Cons)
    then show ?thesis using R0 \<open>k0 = k\<close> v0 Some kv by blast
  qed
qed

text \<open>An iterator that has the entries \<open>R\<close> ahead, its current one first.\<close>

definition iter_at :: "bool \<Rightarrow> ('p, 'v) betree \<Rightarrow> 's \<Rightarrow> ('k \<Rightarrow> 'v option) \<Rightarrow> ('k, 'v) betree_iterator \<Rightarrow> ('k \<times> 'v) list \<Rightarrow> bool" where
  "iter_at quiet bet s f it R \<longleftrightarrow> (\<exists>P S. reads quiet bet s (P @ S) f \<and> it_pos it S \<and> entry it = (case R of [] \<Rightarrow> None | e # _ \<Rightarrow> Some e) \<and>
     (case R of [] \<Rightarrow> S = [] | _ # R' \<Rightarrow> graph_of (default_value bet) S R'))"

lemma wp_setup_next_element:
  assumes rd: "reads quiet bet s (P @ S) f" and pos: "it_pos it S" and R: "graph_of (default_value bet) S R"
  shows "wpE (setup_next_element ops bet it s) swap_err (\<lambda>(it', s'). iter_at quiet bet s' f it' R)"
proof -
  let ?it = "it\<lparr>is_valid := False\<rparr>"
  have S: "map_ok S" "length S < Suc (fuel_of bet)" using readsD(2,5)[OF rd] by (auto simp: map_ok_append)
  have it: "it_pos ?it S" "entry ?it = None" using pos by (simp_all add: it_pos_def entry_def)
  show ?thesis
    unfolding setup_next_element_def
  proof (rule wpE_mono[OF wp_setup_loop[OF rd it(1) S(2)]])
    fix x assume "case x of (it', s') \<Rightarrow> reads quiet bet s' (P @ S) f \<and>
      (\<exists>S'. settle (default_value bet) (entry ?it) S = (entry it', S') \<and> it_pos it' S')"
    then obtain it' s' S' where x: "x = (it', s')" "reads quiet bet s' (P @ S) f"
      and st: "settle (default_value bet) None S = (entry it', S')" and pos': "it_pos it' S'"
      by (cases x) (auto simp: it(2))
    obtain P' where "S = P' @ S'" using settle_spec(1)[OF S(1) _ st] by auto
    then have "reads quiet bet s' ((P @ P') @ S') f" using x(2) by simp
    then have "iter_at quiet bet s' f it' R"
      unfolding iter_at_def using pos' settle_graph[OF S(1) R st] by (intro exI[of _ "P @ P'"] exI[of _ S']) auto
    then show "case x of (it', s') \<Rightarrow> iter_at quiet bet s' f it' R" by (simp add: x(1))
  qed simp
qed

lemma wp_iterator_next:
  assumes "iter_at quiet bet s f it (e # R)"
  shows "wpE (iterator_next ops bet it s) swap_err (\<lambda>(it', s'). iter_at quiet bet s' f it' R)"
  using assms unfolding iter_at_def iterator_next_def
  by (auto simp: iter_at_def[symmetric] intro: wp_setup_next_element)

lemma iter_at_entry:
  assumes "iter_at quiet bet s f it (e # R)"
  shows "first it = fst e" and "second it = snd e" and "\<not> iterator_eq it (iterator_end k0 v0)"
  using assms by (auto simp: iter_at_def entry_def iterator_eq_def iterator_end_def split: if_splits)

lemma iter_at_end: "iter_at quiet bet s f it [] \<Longrightarrow> iterator_eq it (iterator_end k0 v0)"
  by (auto simp: iter_at_def entry_def it_pos_def iterator_eq_def iterator_end_def split: if_splits)

lemma iter_at_holds: "iter_at quiet bet s f it R \<Longrightarrow> holds quiet bet s f"
  using readsD(1) by (auto simp: iter_at_def)

lemma graph_of_beyond:
  fixes L :: "('k, 'v) message_map"
  assumes L: "\<forall>m\<in>set L. 0 < timestamp (fst m)"
    and bound: "\<And>m :: 'k message_key \<times> 'v message. 0 < timestamp (fst m) \<Longrightarrow> beyond mkey m \<longleftrightarrow> B (key (fst m))"
    and R: "map_ok R" "\<And>x. map_of R x = (if B x then apply_msgs dv None (msgs_for L x) else None)"
  shows "graph_of dv (filter (beyond mkey) L) R"
proof -
  have "filter (beyond mkey) L = filter (\<lambda>m. B (key (fst m))) L" using L by (intro filter_cong refl bound) blast
  then show ?thesis using R by (simp add: graph_of_def msgs_for_filter_key)
qed

lemma filter_beyond_split:
  assumes "map_ok L"
  shows "filter (\<lambda>m. \<not> beyond mkey m) L @ filter (beyond mkey) L = L"
proof (cases mkey)
  case (Some mk)
  then show ?thesis using map_ok_split_less[OF assms, of mk] by (simp add: not_less)
qed simp

lemma wp_iterator_at:
  assumes h: "holds quiet bet s f" and R: "map_ok R"
    and bound: "\<And>m :: 'k message_key \<times> 'v message. 0 < timestamp (fst m) \<Longrightarrow> beyond mkey m \<longleftrightarrow> B (key (fst m))"
    and g: "\<And>x. map_of R x = (if B x then f x else None)"
  shows "wpE (iterator_at ops k0 v0 bet mkey s) swap_err (\<lambda>(it, s'). iter_at quiet bet s' f it R)"
proof -
  obtain L where L: "reads quiet bet s L f" using holds_reads[OF h] by blast
  note rd = readsD[OF L]
  let ?S = "filter (beyond mkey) L" and ?P = "filter (\<lambda>m. \<not> beyond mkey m) L" and ?e = "iterator_end k0 v0"
  have LS: "?P @ ?S = L" by (rule filter_beyond_split[OF rd(2)])
  have gr: "graph_of (default_value bet) ?S R"
    by (rule graph_of_beyond[OF rd(6) bound R]) (use g rd(3) in auto)
  show ?thesis
    unfolding iterator_at_def wpE_bindE
  proof (rule wpE_mono[OF wp_reads_next[OF L]])
    fix x assume "case x of (r, s') \<Rightarrow> r = first_beyond mkey L \<and> reads quiet bet s' L f"
    then obtain s1 where x: "x = (first_beyond mkey L, s1)" and s1: "reads quiet bet s1 (?P @ ?S) f" by (cases x) (auto simp: LS)
    show "wpE (case x of (r, s1) \<Rightarrow> case r of None \<Rightarrow> Inr (?e, s1)
        | Some m \<Rightarrow> setup_next_element ops bet (?e\<lparr>position := m, pos_is_valid := True\<rparr>) s1) swap_err (\<lambda>(it, s'). iter_at quiet bet s' f it R)"
    proof (cases ?S)
      case Nil
      then have "map_of R (fst (hd R)) = None" using gr by (simp add: graph_of_def)
      then have "R = []" by (cases R) auto
      then have "iter_at quiet bet s1 f ?e R"
        using s1 unfolding iter_at_def Nil by (intro exI[of _ ?P] exI[of _ "[]"]) (simp add: it_pos_def entry_def iterator_end_def)
      then show ?thesis by (simp add: x first_beyond_def Nil)
    next
      case (Cons m S')
      have "it_pos (?e\<lparr>position := m, pos_is_valid := True\<rparr>) ?S" by (simp add: it_pos_def Cons)
      from wp_setup_next_element[OF s1 this gr] show ?thesis by (simp add: x first_beyond_def Cons)
    qed
  qed simp
qed

lemma wp_begin:
  assumes "holds quiet bet s f" and "map_ok R" and "map_of R = f"
  shows "wpE (begin_it ops k0 v0 bet s) swap_err (\<lambda>(it, s'). iter_at quiet bet s' f it R)"
  unfolding begin_it_def by (rule wp_iterator_at[OF assms(1,2), where B = "\<lambda>_. True"]) (use assms(3) in auto)

lemma wp_lower_bound:
  assumes "holds quiet bet s f" and "map_ok R" and "\<And>x. map_of R x = (if k \<le> x then f x else None)"
  shows "wpE (lower_bound_it ops k0 v0 bet k s) swap_err (\<lambda>(it, s'). iter_at quiet bet s' f it R)"
  unfolding lower_bound_it_def
  by (rule wp_iterator_at[OF assms(1,2), where B = "\<lambda>x. k \<le> x"])
    (auto simp: assms(3) range_start_def less_message_key_def)

lemma wp_upper_bound:
  assumes "holds quiet bet s f" and "map_ok R" and "\<And>x. map_of R x = (if k < x then f x else None)"
  shows "wpE (upper_bound_it ops k0 v0 bet k s) swap_err (\<lambda>(it, s'). iter_at quiet bet s' f it R)"
  unfolding upper_bound_it_def
  by (rule wp_iterator_at[OF assms(1,2), where B = "\<lambda>x. k < x"]) (auto simp: assms(3) range_iffs)

end

end
