(* ===== verification/Serialization.thy ===== *)
theory Serialization
  imports Betree_Node
begin

text \<open>
  The text format of the swap space (client/swap_space.hpp and .cpp, and the \<open>_serialize\<close> and
  \<open>_deserialize\<close> members of client/betree.hpp).

  A stream is the string still to be read.  \<open>fs >> x\<close> skips white space, reads the longest token
  that fits and leaves the rest; a token that runs into the end of the stream sets \<open>eofbit\<close>, which
  the streams of the backing store turn into an exception, so it is \<open>Stream_Failure\<close> here, as is a
  token of the wrong form or out of range.  Writing is string concatenation.  \<open>std::endl\<close> is a
  line feed.

  A \<open>codec\<close> is what a template parameter provides, a pair of overloads of \<open>serialize\<close> and
  \<open>deserialize\<close>; the codecs of the containers take those of their parts.  A swap-space pointer is
  written as the identifier of its object, and both directions assert that the object exists: the
  predicate \<open>live\<close> is \<open>context.ss.objects.count(\<cdot>) > 0\<close>.
\<close>

subsection \<open>Streams\<close>

type_synonym stream = string

definition endl :: string where
  "endl = [CHR 0x0A]"

definition is_space :: "char \<Rightarrow> bool" where
  "is_space c \<longleftrightarrow> c = CHR '' '' \<or> c = CHR 0x09 \<or> c = CHR 0x0A \<or> c = CHR 0x0B \<or> c = CHR 0x0C \<or> c = CHR 0x0D"

definition is_digit :: "char \<Rightarrow> bool" where
  "is_digit c \<longleftrightarrow> 48 \<le> (of_char c :: nat) \<and> (of_char c :: nat) \<le> 57"

definition digit_char :: "nat \<Rightarrow> char" where
  "digit_char d = char_of (48 + d)"

definition digit_value :: "char \<Rightarrow> nat" where
  "digit_value c = of_char c - 48"

fun dec :: "nat \<Rightarrow> string" where
  "dec n = (if n < 10 then [digit_char n] else dec (n div 10) @ [digit_char (n mod 10)])"

definition undec :: "string \<Rightarrow> nat" where
  "undec ds = foldl (\<lambda>n c. 10 * n + digit_value c) 0 ds"

declare dec.simps [simp del]

definition show_int :: "int \<Rightarrow> string" where
  "show_int x = (if x < 0 then ''-'' else []) @ dec (nat \<bar>x\<bar>)"

definition skipws :: "stream \<Rightarrow> stream" where
  "skipws s = dropWhile is_space s"

fun read_sign :: "stream \<Rightarrow> bool \<times> stream" where
  "read_sign [] = (False, [])"
| "read_sign (c # s) =
     (if c = CHR ''-'' then (True, s) else if c = CHR ''+'' then (False, s) else (False, c # s))"

definition read_number :: "stream \<Rightarrow> err + int \<times> stream" where
  "read_number s =
     (let (neg, r) = read_sign (skipws s); ds = takeWhile is_digit r; rest = dropWhile is_digit r in
      if ds = [] \<or> rest = [] then Inl Stream_Failure
      else Inr ((if neg then - int (undec ds) else int (undec ds)), rest))"

text \<open>A negative number read into an unsigned variable is negated modulo its width.\<close>

definition read_u64 :: "stream \<Rightarrow> err + u64 \<times> stream" where
  "read_u64 s =
     bindE (read_number s) (\<lambda>(v, r).
     if - (2 ^ 64) < v \<and> v < 2 ^ 64 then Inr (word_of_int v, r) else Inl Stream_Failure)"

definition read_int :: "stream \<Rightarrow> err + int \<times> stream" where
  "read_int s =
     bindE (read_number s) (\<lambda>(v, r).
     if - (2 ^ 31) \<le> v \<and> v < 2 ^ 31 then Inr (v, r) else Inl Stream_Failure)"

definition read_word :: "stream \<Rightarrow> err + string \<times> stream" where
  "read_word s =
     (let r = skipws s; w = takeWhile (\<lambda>c. \<not> is_space c) r; rest = dropWhile (\<lambda>c. \<not> is_space c) r in
      if w = [] \<or> rest = [] then Inl Stream_Failure else Inr (w, rest))"

definition read_char :: "stream \<Rightarrow> err + char \<times> stream" where
  "read_char s = (case skipws s of [] \<Rightarrow> Inl Stream_Failure | c # r \<Rightarrow> Inr (c, r))"

definition read_bytes :: "nat \<Rightarrow> stream \<Rightarrow> err + string \<times> stream" where
  "read_bytes n s = (if length s < n then Inl Stream_Failure else Inr (take n s, drop n s))"

subsection \<open>Codecs\<close>

record 'a codec =
  to_stream :: "'a \<Rightarrow> err + string"
  from_stream :: "stream \<Rightarrow> err + 'a \<times> stream"

definition u64_codec :: "u64 codec" where
  "u64_codec =
     \<lparr>to_stream = (\<lambda>x. Inr (dec (unat x) @ '' '')),
      from_stream = read_u64\<rparr>"

text \<open>\<open>operator>>\<close> into an \<open>int64_t\<close> takes a value in its range.\<close>

definition i64_codec :: "int codec" where
  "i64_codec =
     \<lparr>to_stream = (\<lambda>x. Inr (show_int x @ '' '')),
      from_stream = (\<lambda>s. bindE (read_number s) (\<lambda>(v, r).
        if - (2 ^ 63) \<le> v \<and> v < 2 ^ 63 then Inr (v, r) else Inl Stream_Failure))\<rparr>"

definition string_codec :: "string codec" where
  "string_codec =
     \<lparr>to_stream = (\<lambda>x. Inr (dec (length x) @ '','' @ x)),
      from_stream = (\<lambda>s.
        bindE (read_u64 s) (\<lambda>(len, s1).
        bindE (read_char s1) (\<lambda>(comma, s2).
        read_bytes (unat len) s2)))\<rparr>"

fun write_entries :: "'k codec \<Rightarrow> 'v codec \<Rightarrow> ('k \<times> 'v) list \<Rightarrow> err + string" where
  "write_entries kc vc [] = Inr []"
| "write_entries kc vc ((k, v) # m) =
     bindE (to_stream kc k) (\<lambda>tk.
     bindE (to_stream vc v) (\<lambda>tv.
     bindE (write_entries kc vc m) (\<lambda>t.
     Inr (''  '' @ tk @ '' -> '' @ tv @ endl @ t))))"

fun read_entries ::
  "nat \<Rightarrow> 'k :: linorder codec \<Rightarrow> 'v codec \<Rightarrow> ('k \<times> 'v) list \<Rightarrow> stream \<Rightarrow> err + ('k \<times> 'v) list \<times> stream" where
  "read_entries 0 kc vc mp s = Inr (mp, s)"
| "read_entries (Suc n) kc vc mp s =
     bindE (from_stream kc s) (\<lambda>(k, s1).
     bindE (read_word s1) (\<lambda>(_, s2).
     bindE (from_stream vc s2) (\<lambda>(v, s3).
     read_entries n kc vc (put mp k v) s3)))"

definition map_codec :: "'k :: linorder codec \<Rightarrow> 'v codec \<Rightarrow> ('k \<times> 'v) list codec" where
  "map_codec kc vc =
     \<lparr>to_stream = (\<lambda>m.
        bindE (write_entries kc vc m) (\<lambda>t.
        Inr (''map '' @ dec (length m) @ '' {'' @ endl @ t @ ''}'' @ endl))),
      from_stream = (\<lambda>s.
        bindE (read_word s) (\<lambda>(_, s1).
        bindE (read_int s1) (\<lambda>(size, s2).
        bindE (read_word s2) (\<lambda>(_, s3).
        bindE (read_entries (nat size) kc vc [] s3) (\<lambda>(m, s4).
        bindE (read_word s4) (\<lambda>(_, s5). Inr (m, s5)))))))\<rparr>"

definition boxed_codec :: "'a codec \<Rightarrow> 'a codec" where
  "boxed_codec c =
     \<lparr>to_stream = (\<lambda>x. bindE (to_stream c x) (\<lambda>t. Inr (''pointer '' @ t))),
      from_stream = (\<lambda>s.
        bindE (read_word s) (\<lambda>(dummy, s1).
        bindE (assertE (dummy = ''pointer'') (Assertion ''dummy == pointer'')) (\<lambda>_.
        from_stream c s1)))\<rparr>"

definition pointer_codec :: "(u64 \<Rightarrow> bool) \<Rightarrow> u64 codec" where
  "pointer_codec live =
     \<lparr>to_stream = (\<lambda>target.
        bindE (assertE (target > 0) (Assertion ''target > 0'')) (\<lambda>_.
        bindE (assertE (live target) (Assertion ''context.ss.objects.count(target) > 0'')) (\<lambda>_.
        Inr (dec (unat target) @ '' '')))),
      from_stream = (\<lambda>s.
        bindE (read_u64 s) (\<lambda>(target, s1).
        bindE (assertE (live target) (Assertion ''context.ss.objects.count(target) > 0'')) (\<lambda>_.
        Inr (target, s1))))\<rparr>"

subsection \<open>The members of the tree\<close>

definition message_key_codec :: "'k codec \<Rightarrow> 'k message_key codec" where
  "message_key_codec kc =
     \<lparr>to_stream = (\<lambda>mk. bindE (to_stream kc (key mk)) (\<lambda>t. Inr (dec (unat (timestamp mk)) @ '' '' @ t))),
      from_stream = (\<lambda>s.
        bindE (read_u64 s) (\<lambda>(ts, s1).
        bindE (from_stream kc s1) (\<lambda>(k, s2). Inr (MessageKey k ts, s2))))\<rparr>"

definition message_codec :: "'v codec \<Rightarrow> 'v message codec" where
  "message_codec vc =
     \<lparr>to_stream = (\<lambda>m. bindE (to_stream vc (val m)) (\<lambda>t. Inr (show_int (opcode m) @ '' '' @ t))),
      from_stream = (\<lambda>s.
        bindE (read_int s) (\<lambda>(opc, s1).
        bindE (from_stream vc s1) (\<lambda>(v, s2). Inr (Message opc v, s2))))\<rparr>"

definition child_info_codec :: "(u64 \<Rightarrow> bool) \<Rightarrow> u64 child_info codec" where
  "child_info_codec live =
     \<lparr>to_stream = (\<lambda>c.
        bindE (to_stream (pointer_codec live) (child c)) (\<lambda>t1.
        bindE (to_stream u64_codec (of_nat (child_size c))) (\<lambda>t2.
        Inr (t1 @ '' '' @ t2)))),
      from_stream = (\<lambda>s.
        bindE (from_stream (pointer_codec live) s) (\<lambda>(p, s1).
        bindE (from_stream u64_codec s1) (\<lambda>(n, s2).
        Inr (\<lparr>child = p, child_size = unat n\<rparr>, s2))))\<rparr>"

definition node_codec ::
  "'k :: linorder codec \<Rightarrow> 'v codec \<Rightarrow> (u64 \<Rightarrow> bool) \<Rightarrow> (u64, 'k, 'v) node codec" where
  "node_codec kc vc live =
     (let pivots_codec = map_codec kc (child_info_codec live);
          elements_codec = map_codec (message_key_codec kc) (message_codec vc) in
     \<lparr>to_stream = (\<lambda>n.
        bindE (to_stream pivots_codec (pivots n)) (\<lambda>tp.
        bindE (to_stream elements_codec (elements n)) (\<lambda>te.
        Inr (''pivots:'' @ endl @ tp @ ''elements:'' @ endl @ te)))),
      from_stream = (\<lambda>s.
        bindE (read_word s) (\<lambda>(_, s1).
        bindE (from_stream pivots_codec s1) (\<lambda>(ps, s2).
        bindE (read_word s2) (\<lambda>(_, s3).
        bindE (from_stream elements_codec s3) (\<lambda>(es, s4).
        Inr (\<lparr>pivots = ps, elements = es\<rparr>, s4))))))\<rparr>)"

subsection \<open>Numbers\<close>

lemma of_digit_char: "d < 10 \<Longrightarrow> (of_char (digit_char d) :: nat) = 48 + d"
  by (simp add: digit_char_def)

lemma digit_char_facts [simp]:
  "d < 10 \<Longrightarrow> is_digit (digit_char d)" "d < 10 \<Longrightarrow> digit_value (digit_char d) = d"
  by (simp_all add: is_digit_def digit_value_def of_digit_char)

lemma digit_not_space: "is_digit c \<Longrightarrow> \<not> is_space c"
  by (auto simp: is_digit_def is_space_def)

lemma digit_not_sign: "is_digit c \<Longrightarrow> c \<noteq> CHR ''-'' \<and> c \<noteq> CHR ''+''"
  by (auto simp: is_digit_def)

lemma digits_dec: "c \<in> set (dec n) \<Longrightarrow> is_digit c"
proof (induction n rule: dec.induct)
  case (1 n)
  then show ?case using dec.simps[of n] by (auto split: if_splits)
qed

lemma dec_not_Nil [simp]: "dec n \<noteq> []"
  by (subst dec.simps) simp

lemma undec_snoc: "undec (ds @ [c]) = 10 * undec ds + digit_value c"
  by (simp add: undec_def)

lemma undec_dec [simp]: "undec (dec n) = n"
proof (induction n rule: dec.induct)
  case (1 n)
  show ?case
  proof (cases "n < 10")
    case True
    then show ?thesis by (subst dec.simps) (simp add: undec_def)
  next
    case False
    then show ?thesis using 1 by (subst dec.simps) (simp add: undec_snoc)
  qed
qed

lemma dec_inject: "dec m = dec n \<longleftrightarrow> m = n"
  by (metis undec_dec)

subsection \<open>Reading what was written\<close>

text \<open>\<open>parses p t x\<close>: reading \<open>t\<close>, after white space, gives \<open>x\<close> and stops where \<open>t\<close> ends, up to white space.\<close>

definition parses :: "(stream \<Rightarrow> err + 'a \<times> stream) \<Rightarrow> string \<Rightarrow> 'a \<Rightarrow> bool" where
  "parses p t x \<longleftrightarrow> (\<forall>s rest. skipws s = skipws (t @ rest) \<longrightarrow> (\<exists>r. p s = Inr (x, r) \<and> skipws r = skipws rest))"

definition spaces :: "string \<Rightarrow> bool" where
  "spaces w \<longleftrightarrow> (\<forall>c\<in>set w. is_space c)"

lemma parsesI: "(\<And>s rest. skipws s = skipws (t @ rest) \<Longrightarrow> \<exists>r. p s = Inr (x, r) \<and> skipws r = skipws rest) \<Longrightarrow> parses p t x"
  by (simp add: parses_def)

lemma skipws_spaces: "spaces w \<Longrightarrow> skipws (w @ s) = skipws s"
  by (auto simp: spaces_def skipws_def dropWhile_append)

lemma skipws_idem [simp]: "skipws (skipws s) = skipws s"
  by (simp add: skipws_def)

lemma skipws_stop: "\<not> is_space c \<Longrightarrow> skipws (c # s) = c # s"
  by (simp add: skipws_def)

lemma skipws_token: "t \<noteq> [] \<Longrightarrow> \<not> is_space (hd t) \<Longrightarrow> skipws (t @ s) = t @ s"
  by (cases t) (simp_all add: skipws_def)

lemma parses_bind:
  assumes "parses p t x" and "parses (f x) u y"
  shows "parses (\<lambda>s. bindE (p s) (\<lambda>(a, s1). f a s1)) (t @ u) y"
proof (rule parsesI)
  fix s rest assume "skipws s = skipws ((t @ u) @ rest)"
  then obtain r where r: "p s = Inr (x, r)" "skipws r = skipws (u @ rest)"
    using assms(1) unfolding parses_def by (metis append.assoc)
  then show "\<exists>r. bindE (p s) (\<lambda>(a, s1). f a s1) = Inr (y, r) \<and> skipws r = skipws rest"
    using assms(2) unfolding parses_def by simp
qed

lemma parses_return: "parses (\<lambda>s. Inr (x, s)) [] x"
  by (simp add: parses_def)

lemma parses_map:
  assumes "parses p t x"
  shows "parses (\<lambda>s. bindE (p s) (\<lambda>(a, s1). Inr (f a, s1))) t (f x)"
  using parses_bind[OF assms, of "\<lambda>a s. Inr (f a, s)" "[]" "f x"] by (simp add: parses_return)

lemma parses_before: "parses p t x \<Longrightarrow> spaces w \<Longrightarrow> parses p (w @ t) x"
  by (simp add: parses_def skipws_spaces)

lemma parses_after: "parses p t x \<Longrightarrow> spaces w \<Longrightarrow> parses p (t @ w) x"
  unfolding parses_def by (metis append.assoc skipws_spaces)

lemma spaces_facts [simp]: "spaces '' ''" "spaces ''  ''" "spaces endl" "spaces []" "spaces (a @ b) \<longleftrightarrow> spaces a \<and> spaces b"
  by (auto simp: spaces_def is_space_def endl_def)

lemma read_number_dec:
  assumes "skipws s = skipws (dec n @ c # r)" and "\<not> is_digit c"
  shows "read_number s = Inr (int n, c # r)"
proof -
  obtain d ds where d: "dec n = d # ds" by (cases "dec n") auto
  then have dd: "is_digit d" using digits_dec[of d n] by simp
  have "skipws s = dec n @ c # r" using assms(1) skipws_stop[OF digit_not_space[OF dd]] by (simp add: d)
  moreover have "read_sign (dec n @ c # r) = (False, dec n @ c # r)" using digit_not_sign[OF dd] by (simp add: d)
  moreover have "takeWhile is_digit (dec n @ c # r) = dec n" "dropWhile is_digit (dec n @ c # r) = c # r"
    using digits_dec assms(2) by (simp_all add: takeWhile_append2 dropWhile_append2)
  ultimately show ?thesis by (simp add: read_number_def Let_def del: dropWhile_eq_Nil_conv)
qed

lemma read_number_show_int:
  assumes "skipws s = skipws (show_int x @ c # r)" and "\<not> is_digit c"
  shows "read_number s = Inr (x, c # r)"
proof (cases "x < 0")
  case False
  then show ?thesis using read_number_dec[of s "nat x" c r] assms by (simp add: show_int_def)
next
  case True
  then have "skipws s = CHR ''-'' # dec (nat (- x)) @ c # r"
    using assms(1) by (simp add: show_int_def skipws_def is_space_def)
  moreover have "takeWhile is_digit (dec (nat (- x)) @ c # r) = dec (nat (- x))"
    "dropWhile is_digit (dec (nat (- x)) @ c # r) = c # r"
    using digits_dec assms(2) by (simp_all add: takeWhile_append2 dropWhile_append2)
  ultimately show ?thesis using True by (simp add: read_number_def Let_def del: dropWhile_eq_Nil_conv)
qed

lemma space_not_digit: "\<not> is_digit (CHR '' '')" "\<not> is_digit (CHR '','')"
  by (simp_all add: is_digit_def)

lemma skipws_space: "skipws (CHR '' '' # r) = skipws r"
  by (simp add: skipws_def is_space_def)

lemma read_u64_dec:
  assumes "skipws s = skipws (dec n @ c # r)" and "\<not> is_digit c" and "n < 2 ^ 64"
  shows "read_u64 s = Inr (of_nat n, c # r)"
  using read_number_dec[OF assms(1,2)] assms(3) by (simp add: read_u64_def)

lemma parses_u64: "parses read_u64 (dec (unat x) @ '' '') x"
proof (rule parsesI)
  fix s rest assume "skipws s = skipws ((dec (unat x) @ '' '') @ rest)"
  then have "read_u64 s = Inr (x, CHR '' '' # rest)"
    using read_u64_dec[of s "unat x" "CHR '' ''" rest] space_not_digit unsigned_less[of x] by simp
  then show "\<exists>r. read_u64 s = Inr (x, r) \<and> skipws r = skipws rest" by (simp add: skipws_space)
qed

lemma parses_int:
  assumes "- (2 ^ 31) \<le> x" and "x < 2 ^ 31"
  shows "parses read_int (show_int x @ '' '') x"
proof (rule parsesI)
  fix s rest assume "skipws s = skipws ((show_int x @ '' '') @ rest)"
  then have "read_int s = Inr (x, CHR '' '' # rest)"
    using read_number_show_int[of s x "CHR '' ''" rest] space_not_digit assms by (simp add: read_int_def)
  then show "\<exists>r. read_int s = Inr (x, r) \<and> skipws r = skipws rest" by (simp add: skipws_space)
qed

lemma parses_word:
  assumes "w \<noteq> []" and "\<forall>c\<in>set w. \<not> is_space c" and "is_space sp"
  shows "parses read_word (w @ [sp]) w"
proof (rule parsesI)
  fix s rest assume "skipws s = skipws ((w @ [sp]) @ rest)"
  then have "skipws s = w @ sp # rest" using assms by (cases w) (simp_all add: skipws_def)
  moreover have "takeWhile (\<lambda>c. \<not> is_space c) (w @ sp # rest) = w" "dropWhile (\<lambda>c. \<not> is_space c) (w @ sp # rest) = sp # rest"
    using assms(2,3) by (simp_all add: takeWhile_append2 dropWhile_append2)
  ultimately have "read_word s = Inr (w, sp # rest)" using assms(1) by (simp add: read_word_def Let_def del: dropWhile_eq_Nil_conv)
  then show "\<exists>r. read_word s = Inr (w, r) \<and> skipws r = skipws rest" using assms(3) by (simp add: skipws_def)
qed


subsection \<open>Lawful codecs\<close>

text \<open>
  What the swap space relies on: a value that is \<open>ok\<close> can be written, and a text of less than
  \<open>2 ^ 31\<close> characters is read back as the value it was written for.  (A map writes its size as a
  \<open>size_t\<close> and reads it as an \<open>int\<close>.)
\<close>

locale lawful_codec =
  fixes c :: "'a codec" and ok :: "'a \<Rightarrow> bool"
  assumes writes: "ok x \<Longrightarrow> \<exists>t. to_stream c x = Inr t"
    and reads: "ok x \<Longrightarrow> to_stream c x = Inr t \<Longrightarrow> length t < 2 ^ 31 \<Longrightarrow> parses (from_stream c) t x"
begin

lemma round_trip:
  assumes "ok x" and "to_stream c x = Inr t" and "length t < 2 ^ 31"
  shows "\<exists>r. from_stream c (t @ rest) = Inr (x, r) \<and> skipws r = skipws rest"
  using reads[OF assms] by (simp add: parses_def)

lemma injective:
  assumes "ok x" and "ok y" and "to_stream c x = Inr t" and "to_stream c y = Inr t" and "length t < 2 ^ 31"
  shows "x = y"
  using round_trip[OF assms(1,3,5), of "[]"] round_trip[OF assms(2,4,5), of "[]"] by auto

end

interpretation u64: lawful_codec u64_codec "\<lambda>_. True"
  by unfold_locales (auto simp: u64_codec_def parses_u64)

interpretation i64: lawful_codec i64_codec "\<lambda>x. - (2 ^ 63) \<le> x \<and> x < 2 ^ 63"
proof unfold_locales
  fix x :: int and t assume x: "- (2 ^ 63) \<le> x \<and> x < 2 ^ 63" and t: "to_stream i64_codec x = Inr t"
  show "parses (from_stream i64_codec) t x"
  proof (rule parsesI)
    fix s rest assume "skipws s = skipws (t @ rest)"
    then have "skipws s = skipws (show_int x @ CHR '' '' # rest)" using t by (auto simp: i64_codec_def)
    then have "from_stream i64_codec s = Inr (x, CHR '' '' # rest)"
      using read_number_show_int[of s x "CHR '' ''" rest] space_not_digit x by (simp add: i64_codec_def)
    then show "\<exists>r. from_stream i64_codec s = Inr (x, r) \<and> skipws r = skipws rest" by (simp add: skipws_space)
  qed
qed (simp add: i64_codec_def)

interpretation str: lawful_codec string_codec "\<lambda>_. True"
proof unfold_locales
  fix x t assume t: "to_stream string_codec x = Inr t" and small: "length t < 2 ^ 31"
  then have t: "t = dec (length x) @ '','' @ x" and len: "length x < 2 ^ 64" by (auto simp: string_codec_def)
  show "parses (from_stream string_codec) t x"
  proof (rule parsesI)
    fix s rest assume "skipws s = skipws (t @ rest)"
    then have "read_u64 s = Inr (of_nat (length x), CHR '','' # x @ rest)"
      using read_u64_dec[of s "length x" "CHR '',''" "x @ rest"] space_not_digit len by (simp add: t)
    moreover have "read_char (CHR '','' # x @ rest) = Inr (CHR '','', x @ rest)"
      by (simp add: read_char_def skipws_def is_space_def)
    ultimately have "from_stream string_codec s = Inr (x, rest)"
      using len by (simp add: string_codec_def read_bytes_def unat_of_nat)
    then show "\<exists>r. from_stream string_codec s = Inr (x, r) \<and> skipws r = skipws rest" by simp
  qed
qed (simp add: string_codec_def)

lemma write_entries_length: "write_entries kc vc m = Inr t \<Longrightarrow> length m \<le> length t"
  by (induction kc vc m arbitrary: t rule: write_entries.induct) (fastforce simp: bindE_eq_Inr_iff endl_def)+

lemma write_entries_total:
  assumes "lawful_codec kc kok" and "lawful_codec vc vok" and "\<forall>e\<in>set m. kok (fst e) \<and> vok (snd e)"
  shows "\<exists>t. write_entries kc vc m = Inr t"
  using assms(3)
proof (induction m)
  case (Cons e m)
  then obtain k v where e: "e = (k, v)" "kok k" "vok v" by (cases e) auto
  obtain tk tv t where "to_stream kc k = Inr tk" "to_stream vc v = Inr tv" "write_entries kc vc m = Inr t"
    using lawful_codec.writes[OF assms(1) e(2)] lawful_codec.writes[OF assms(2) e(3)] Cons by auto
  then show ?case by (simp add: e(1))
qed simp

lemma read_entries_Suc:
  "read_entries (Suc n) kc vc mp = (\<lambda>s.
     bindE (from_stream kc s) (\<lambda>(k, s1).
     bindE (read_word s1) (\<lambda>(_, s2).
     bindE (from_stream vc s2) (\<lambda>(v, s3).
     read_entries n kc vc (put mp k v) s3))))"
  by (rule ext) simp

lemma parses_entries:
  fixes kc :: "'k :: linorder codec"
  assumes K: "lawful_codec kc kok" and V: "lawful_codec vc vok"
  shows "\<forall>e\<in>set m. kok (fst e) \<and> vok (snd e) \<Longrightarrow> map_ok (mp @ m) \<Longrightarrow> write_entries kc vc m = Inr t \<Longrightarrow>
    length t < 2 ^ 31 \<Longrightarrow> parses (read_entries (length m) kc vc mp) t (mp @ m)"
proof (induction m arbitrary: mp t)
  case Nil
  then show ?case by (simp add: parses_return)
next
  case (Cons e m)
  obtain k v where e: "e = (k, v)" "kok k" "vok v" using Cons.prems(1) by (cases e) auto
  obtain tk tv u where t: "to_stream kc k = Inr tk" "to_stream vc v = Inr tv" "write_entries kc vc m = Inr u"
    and t_eq: "t = ''  '' @ tk @ '' -> '' @ tv @ endl @ u"
    using Cons.prems(3) by (auto simp: e(1) bindE_eq_Inr_iff)
  have put: "put mp k v = mp @ [(k, v)]"
    using Cons.prems(2) by (intro put_at_end) (auto simp: map_ok_append e(1))
  have "parses (from_stream kc) ((''  '' @ tk) @ '' '') k"
    using lawful_codec.reads[OF K e(2) t(1)] Cons.prems(4)
    by (intro parses_after parses_before) (simp_all add: t_eq)
  moreover have "parses read_word ''-> '' ''->''"
    using parses_word[of "''->''" "CHR '' ''"] by (simp add: is_space_def)
  moreover have "parses (from_stream vc) (tv @ endl) v"
    using lawful_codec.reads[OF V e(3) t(2)] Cons.prems(4) by (intro parses_after) (simp_all add: t_eq)
  moreover have "parses (read_entries (length m) kc vc (put mp k v)) u (mp @ e # m)"
    using Cons.IH[of "mp @ [(k, v)]" u] Cons.prems t(3) by (simp add: put e(1) t_eq)
  ultimately have "parses (read_entries (length (e # m)) kc vc mp)
      (((''  '' @ tk) @ '' '') @ ''-> '' @ (tv @ endl) @ u) (mp @ e # m)"
    unfolding length_Cons read_entries_Suc by - ((rule parses_bind, assumption)+, assumption)
  moreover have "((''  '' @ tk) @ '' '') @ ''-> '' @ (tv @ endl) @ u = t" by (simp add: t_eq)
  ultimately show ?case by (simp only:)
qed

lemma lawful_map:
  fixes kc :: "'k :: linorder codec"
  assumes K: "lawful_codec kc kok" and V: "lawful_codec vc vok"
  shows "lawful_codec (map_codec kc vc) (\<lambda>m. map_ok m \<and> (\<forall>e\<in>set m. kok (fst e) \<and> vok (snd e)))"
proof
  fix m assume "map_ok m \<and> (\<forall>e\<in>set m. kok (fst e) \<and> vok (snd e))"
  then show "\<exists>t. to_stream (map_codec kc vc) m = Inr t"
    using write_entries_total[OF K V, of m] by (auto simp: map_codec_def)
next
  fix m t assume ok: "map_ok m \<and> (\<forall>e\<in>set m. kok (fst e) \<and> vok (snd e))"
    and "to_stream (map_codec kc vc) m = Inr t" and len: "length t < 2 ^ 31"
  then obtain u where u: "write_entries kc vc m = Inr u"
    and t: "t = ''map '' @ dec (length m) @ '' {'' @ endl @ u @ ''}'' @ endl"
    by (auto simp: map_codec_def bindE_eq_Inr_iff)
  have m: "length m < 2 ^ 31" using write_entries_length[OF u] len by (simp add: t)
  have "parses read_word ''map '' ''map''" using parses_word[of "''map''" "CHR '' ''"] by (simp add: is_space_def)
  moreover have "parses read_int (show_int (int (length m)) @ '' '') (int (length m))"
    using m by (intro parses_int) simp_all
  moreover have "parses read_word (''{'' @ endl) ''{''" "parses read_word (''}'' @ endl) ''}''"
    using parses_word[of "''{''" "CHR 0x0A"] parses_word[of "''}''" "CHR 0x0A"] by (simp_all add: is_space_def endl_def)
  moreover have "parses (read_entries (nat (int (length m))) kc vc []) u m"
    using parses_entries[OF K V, of m "[]" u] ok u len by (simp add: t)
  ultimately have "parses (from_stream (map_codec kc vc))
      (''map '' @ (show_int (int (length m)) @ '' '') @ (''{'' @ endl) @ u @ (''}'' @ endl)) m"
    unfolding map_codec_def codec.simps by - ((rule parses_bind, assumption)+, rule parses_map, assumption)
  then show "parses (from_stream (map_codec kc vc)) t m" by (simp add: t show_int_def)
qed

lemma lawful_message_key:
  assumes "lawful_codec kc kok"
  shows "lawful_codec (message_key_codec kc) (\<lambda>mk. kok (key mk))"
proof
  fix mk t assume ok: "kok (key mk)" and "to_stream (message_key_codec kc) mk = Inr t" and len: "length t < 2 ^ 31"
  then obtain u where u: "to_stream kc (key mk) = Inr u" and t: "t = dec (unat (timestamp mk)) @ '' '' @ u"
    by (auto simp: message_key_codec_def bindE_eq_Inr_iff)
  have k: "parses (from_stream kc) u (key mk)" using lawful_codec.reads[OF assms ok u] len by (simp add: t)
  have "parses (from_stream (message_key_codec kc)) ((dec (unat (timestamp mk)) @ '' '') @ u) (MessageKey (key mk) (timestamp mk))"
    unfolding message_key_codec_def codec.simps by (rule parses_bind[OF parses_u64 parses_map[OF k]])
  then show "parses (from_stream (message_key_codec kc)) t mk" by (simp add: t)
qed (use lawful_codec.writes[OF assms] in \<open>auto simp: message_key_codec_def bindE_eq_Inr_iff\<close>)

lemma lawful_message:
  assumes "lawful_codec vc vok"
  shows "lawful_codec (message_codec vc) (\<lambda>m. - (2 ^ 31) \<le> opcode m \<and> opcode m < 2 ^ 31 \<and> vok (val m))"
proof
  fix m t assume ok: "- (2 ^ 31) \<le> opcode m \<and> opcode m < 2 ^ 31 \<and> vok (val m)"
    and "to_stream (message_codec vc) m = Inr t" and len: "length t < 2 ^ 31"
  then obtain u where u: "to_stream vc (val m) = Inr u" and t: "t = show_int (opcode m) @ '' '' @ u"
    by (auto simp: message_codec_def bindE_eq_Inr_iff)
  have v: "parses (from_stream vc) u (val m)" using lawful_codec.reads[OF assms _ u] ok len by (simp add: t)
  have "parses (from_stream (message_codec vc)) ((show_int (opcode m) @ '' '') @ u) (Message (opcode m) (val m))"
    unfolding message_codec_def codec.simps
    by (rule parses_bind[OF parses_int parses_map[OF v]]) (use ok in simp_all)
  then show "parses (from_stream (message_codec vc)) t m" by (simp add: t)
qed (use lawful_codec.writes[OF assms] in \<open>auto simp: message_codec_def bindE_eq_Inr_iff\<close>)


lemma parses_check:
  assumes "parses p t x" and "P x"
  shows "parses (\<lambda>s. bindE (p s) (\<lambda>(a, s1). bindE (assertE (P a) e) (\<lambda>_. Inr (a, s1)))) t x"
  using parses_bind[OF assms(1), of "\<lambda>a s1. bindE (assertE (P a) e) (\<lambda>_. Inr (a, s1))" "[]" x] assms(2)
  by (simp add: parses_return)

lemma lawful_pointer: "lawful_codec (pointer_codec live) (\<lambda>p. p > 0 \<and> live p)"
proof
  fix p t assume "p > 0 \<and> live p" and "to_stream (pointer_codec live) p = Inr t"
  then have "live p" and t: "t = dec (unat p) @ '' ''" by (auto simp: pointer_codec_def)
  then show "parses (from_stream (pointer_codec live)) t p"
    unfolding pointer_codec_def codec.simps t by (intro parses_check parses_u64)
qed (simp add: pointer_codec_def)

definition child_info_ok :: "(u64 \<Rightarrow> bool) \<Rightarrow> u64 child_info \<Rightarrow> bool" where
  "child_info_ok live c \<longleftrightarrow> child c > 0 \<and> live (child c) \<and> child_size c < 2 ^ 64"

lemma lawful_child_info: "lawful_codec (child_info_codec live) (child_info_ok live)"
proof
  fix c t assume ok: "child_info_ok live c" and "to_stream (child_info_codec live) c = Inr t" and len: "length t < 2 ^ 31"
  then obtain t1 where t1: "to_stream (pointer_codec live) (child c) = Inr t1"
    and t: "t = (t1 @ '' '') @ (dec (unat (of_nat (child_size c) :: u64)) @ '' '')"
    by (auto simp: child_info_codec_def bindE_eq_Inr_iff u64_codec_def)
  have p: "parses (from_stream (pointer_codec live)) (t1 @ '' '') (child c)"
    using lawful_codec.reads[OF lawful_pointer _ t1] ok len by (intro parses_after) (simp_all add: child_info_ok_def t)
  have "parses (from_stream (child_info_codec live)) t \<lparr>child = child c, child_size = unat (of_nat (child_size c) :: u64)\<rparr>"
    unfolding child_info_codec_def u64_codec_def codec.simps t
    by (rule parses_bind[OF p parses_map[OF parses_u64]])
  moreover have "unat (of_nat (child_size c) :: u64) = child_size c"
    using ok by (simp add: child_info_ok_def unat_of_nat)
  ultimately show "parses (from_stream (child_info_codec live)) t c" by (cases c) simp
qed (auto simp: child_info_codec_def child_info_ok_def pointer_codec_def u64_codec_def)

text \<open>
  A node that can be stored: ordered tables, child sizes and opcodes that fit their fields, keys
  and values that their codecs can handle.
\<close>

definition storable_node :: "('k :: linorder \<Rightarrow> bool) \<Rightarrow> ('v \<Rightarrow> bool) \<Rightarrow> (u64, 'k, 'v) node \<Rightarrow> bool" where
  "storable_node kok vok n \<longleftrightarrow> map_ok (pivots n) \<and> map_ok (elements n) \<and>
     (\<forall>c\<in>set (pivots n). kok (fst c) \<and> child_size (snd c) < 2 ^ 64) \<and>
     (\<forall>e\<in>set (elements n). kok (key (fst e)) \<and> - (2 ^ 31) \<le> opcode (snd e) \<and> opcode (snd e) < 2 ^ 31 \<and> vok (val (snd e)))"

definition refs_ok :: "(u64 \<Rightarrow> bool) \<Rightarrow> (u64, 'k, 'v) node \<Rightarrow> bool" where
  "refs_ok live n \<longleftrightarrow> (\<forall>q\<in>set (node_refs n). q > 0 \<and> live q)"

lemma lawful_node:
  assumes K: "lawful_codec kc kok" and V: "lawful_codec vc vok"
  shows "lawful_codec (node_codec kc vc live) (\<lambda>n. storable_node kok vok n \<and> refs_ok live n)"
proof -
  note PM = lawful_map[OF K lawful_child_info[of live]]
  note EM = lawful_map[OF lawful_message_key[OF K] lawful_message[OF V]]
  let ?pc = "map_codec kc (child_info_codec live)" and ?ec = "map_codec (message_key_codec kc) (message_codec vc)"
  show ?thesis
  proof
    fix n :: "(u64, 'a, 'b) node" assume n: "storable_node kok vok n \<and> refs_ok live n"
    then have p: "map_ok (pivots n) \<and> (\<forall>e\<in>set (pivots n). kok (fst e) \<and> child_info_ok live (snd e))"
      and e: "map_ok (elements n) \<and> (\<forall>e\<in>set (elements n). kok (key (fst e)) \<and>
        - (2 ^ 31) \<le> opcode (snd e) \<and> opcode (snd e) < 2 ^ 31 \<and> vok (val (snd e)))"
      by (auto simp: storable_node_def refs_ok_def node_refs_def child_info_ok_def)
    show "\<exists>t. to_stream (node_codec kc vc live) n = Inr t"
      using lawful_codec.writes[OF PM p] lawful_codec.writes[OF EM e] by (auto simp: node_codec_def Let_def)
    fix t assume "to_stream (node_codec kc vc live) n = Inr t" and len: "length t < 2 ^ 31"
    then obtain tp te where tp: "to_stream ?pc (pivots n) = Inr tp" and te: "to_stream ?ec (elements n) = Inr te"
      and t: "t = (''pivots:'' @ endl) @ tp @ (''elements:'' @ endl) @ te"
      by (auto simp: node_codec_def Let_def bindE_eq_Inr_iff)
    have w: "parses read_word (''pivots:'' @ endl) ''pivots:''" "parses read_word (''elements:'' @ endl) ''elements:''"
      unfolding endl_def by (rule parses_word; simp add: is_space_def)+
    have pp: "parses (from_stream ?pc) tp (pivots n)" and ep: "parses (from_stream ?ec) te (elements n)"
      using lawful_codec.reads[OF PM p tp] lawful_codec.reads[OF EM e te] len by (simp_all add: t)
    have "parses (from_stream (node_codec kc vc live)) t \<lparr>pivots = pivots n, elements = elements n\<rparr>"
      unfolding node_codec_def Let_def codec.simps t
      by (rule parses_bind[OF w(1)], rule parses_bind[OF pp], rule parses_bind[OF w(2)], rule parses_map[OF ep])
    then show "parses (from_stream (node_codec kc vc live)) t n" by (cases n) simp
  qed
qed

text \<open>What is written does not depend on which objects exist, as long as those it points to do.\<close>

lemma write_entries_cong:
  "(\<And>k v. (k, v) \<in> set m \<Longrightarrow> to_stream vc v = to_stream vc' v) \<Longrightarrow> write_entries kc vc m = write_entries kc vc' m"
proof (induction m)
  case (Cons e m)
  obtain k v where e: "e = (k, v)" by (cases e)
  then have "to_stream vc v = to_stream vc' v" "write_entries kc vc m = write_entries kc vc' m"
    using Cons by (meson list.set_intros)+
  then show ?case by (simp add: e)
qed simp

lemma to_stream_live:
  assumes "refs_ok live n" and "refs_ok live' n"
  shows "to_stream (node_codec kc vc live) n = to_stream (node_codec kc vc live') n"
proof -
  have "write_entries kc (child_info_codec live) (pivots n) = write_entries kc (child_info_codec live') (pivots n)"
    by (rule write_entries_cong)
      (use assms in \<open>force simp: refs_ok_def node_refs_def child_info_codec_def pointer_codec_def\<close>)
  then show ?thesis by (simp add: node_codec_def Let_def map_codec_def)
qed


lemma lawful_boxed:
  assumes "lawful_codec c ok"
  shows "lawful_codec (boxed_codec c) ok"
proof
  fix x t assume ok: "ok x" and "to_stream (boxed_codec c) x = Inr t" and len: "length t < 2 ^ 31"
  then obtain u where u: "to_stream c x = Inr u" and t: "t = (''pointer'' @ '' '') @ u"
    by (auto simp: boxed_codec_def bindE_eq_Inr_iff)
  have w: "parses read_word (''pointer'' @ '' '') ''pointer''" by (rule parses_word) (simp_all add: is_space_def)
  define f where "f = (\<lambda>dummy s. bindE (assertE (dummy = ''pointer'') (Assertion ''dummy == pointer'')) (\<lambda>_. from_stream c s))"
  have "parses (f ''pointer'') u x" using lawful_codec.reads[OF assms ok u] len by (simp add: t f_def)
  then have "parses (\<lambda>s. bindE (read_word s) (\<lambda>(dummy, s1). f dummy s1)) t x"
    unfolding t by (rule parses_bind[OF w])
  then show "parses (from_stream (boxed_codec c)) t x" by (simp add: boxed_codec_def f_def)
qed (use lawful_codec.writes[OF assms] in \<open>auto simp: boxed_codec_def bindE_eq_Inr_iff\<close>)

end
