(* ===== verification/Backing_Store.thy ===== *)
theory Backing_Store
  imports Serialization
begin

text \<open>
  The disk (client/backing_store.hpp and .cpp).  \<open>class backing_store\<close> is an interface, so its
  calls are a record, \<open>backing_ops\<close>, and what the swap space relies on is the locale
  \<open>backing_contract\<close>; \<open>one_file_per_object_backing_store\<close> is the implementation the program uses.

  A directory tree is a map from file names to contents.  A stream from \<open>get\<close> is opened on the
  whole file; the swap space either reads it from the start or writes it once from the start and
  hands it back with \<open>put\<close>, so \<open>get\<close> is the contents and writing is a call of its own.  Running out
  of file identifiers, after \<open>2 ^ 64 - 1\<close> allocations, is the error \<open>Counter_Wrap\<close>.
\<close>

definition incr :: "u64 \<Rightarrow> err + u64" where
  "incr x = (if x = - 1 then Inl Counter_Wrap else Inr (x + 1))"

record 'b backing_ops =
  bs_allocate :: "nat \<Rightarrow> 'b \<Rightarrow> err + u64 \<times> 'b"
  bs_deallocate :: "u64 \<Rightarrow> 'b \<Rightarrow> err + 'b"
  bs_get :: "u64 \<Rightarrow> 'b \<Rightarrow> err + stream"
  bs_write :: "u64 \<Rightarrow> string \<Rightarrow> 'b \<Rightarrow> err + 'b"

record file_store =
  directory :: string
  nextid :: u64
  files :: "string \<Rightarrow> string option"

definition file_name :: "string \<Rightarrow> u64 \<Rightarrow> string" where
  "file_name rt fid = rt @ ''/'' @ dec (unat fid)"

definition file_store_new :: "string \<Rightarrow> (string \<Rightarrow> string option) \<Rightarrow> file_store" where
  "file_store_new rt fs = \<lparr>directory = rt, nextid = 1, files = fs\<rparr>"

text \<open>Opening a file for output creates it or truncates it.\<close>

definition file_allocate :: "nat \<Rightarrow> file_store \<Rightarrow> err + u64 \<times> file_store" where
  "file_allocate n b =
     (let fid = nextid b in
      bindE (incr (nextid b)) (\<lambda>next.
      Inr (fid, b\<lparr>nextid := next, files := (files b)(file_name (directory b) fid \<mapsto> [])\<rparr>)))"

definition file_deallocate :: "u64 \<Rightarrow> file_store \<Rightarrow> err + file_store" where
  "file_deallocate fid b =
     (let filename = file_name (directory b) fid in
      bindE (assertE (files b filename \<noteq> None) (Assertion ''unlink(filename.c_str()) == 0'')) (\<lambda>_.
      Inr (b\<lparr>files := (files b)(filename := None)\<rparr>)))"

text \<open>
  A file that is not there gives a stream whose first read fails; setting its buffer has cleared
  the error state, so the assertion in \<open>get\<close> does not notice.
\<close>

definition file_get :: "u64 \<Rightarrow> file_store \<Rightarrow> err + stream" where
  "file_get fid b = (case files b (file_name (directory b) fid) of None \<Rightarrow> Inl Stream_Failure | Some t \<Rightarrow> Inr t)"

text \<open>\<open>get\<close>, one \<open>write\<close> from the start of the file, and \<open>put\<close>, which flushes the stream.\<close>

definition file_write :: "u64 \<Rightarrow> string \<Rightarrow> file_store \<Rightarrow> err + file_store" where
  "file_write fid buf b =
     bindE (file_get fid b) (\<lambda>old.
     Inr (b\<lparr>files := (files b)(file_name (directory b) fid \<mapsto> buf @ drop (length buf) old)\<rparr>))"

definition file_ops :: "file_store backing_ops" where
  "file_ops = \<lparr>bs_allocate = file_allocate, bs_deallocate = file_deallocate, bs_get = file_get, bs_write = file_write\<rparr>"

definition file_contents :: "file_store \<Rightarrow> u64 \<Rightarrow> string option" where
  "file_contents b fid = (if 0 < fid \<and> fid < nextid b then files b (file_name (directory b) fid) else None)"

lemma wpE_incr: "wpE (incr x) E Q \<longleftrightarrow> (if x = - 1 then E Counter_Wrap else Q (x + 1))"
  by (simp add: incr_def)

lemma incr_less: "(x :: u64) \<noteq> - 1 \<Longrightarrow> y < x + 1 \<longleftrightarrow> y \<le> x"
proof -
  assume "x \<noteq> - 1"
  then have "1 + x \<noteq> 0" by (simp add: add_eq_0_iff)
  then have "unat (x + 1) = Suc (unat x)" using unatSuc[of x] by (simp add: add.commute)
  then show ?thesis by (simp add: word_less_nat_alt word_le_nat_alt less_Suc_eq_le)
qed

subsection \<open>The contract of a backing store\<close>

locale backing_contract =
  fixes bops :: "'b backing_ops"
    and contents :: "'b \<Rightarrow> u64 \<Rightarrow> string option"
    and binv :: "'b \<Rightarrow> bool"
  assumes bs_allocate_spec:
    "binv b \<Longrightarrow> wpE (bs_allocate bops n b) (\<lambda>e. e = Counter_Wrap) (\<lambda>(fid, b').
       binv b' \<and> fid > 0 \<and> contents b fid = None \<and> contents b' = (contents b)(fid \<mapsto> []))"
    and bs_deallocate_spec:
    "binv b \<Longrightarrow> contents b fid = Some t \<Longrightarrow>
       \<exists>b'. bs_deallocate bops fid b = Inr b' \<and> binv b' \<and> contents b' = (contents b)(fid := None)"
    and bs_get_spec: "binv b \<Longrightarrow> contents b fid = Some t \<Longrightarrow> bs_get bops fid b = Inr t"
    and bs_write_spec:
    "binv b \<Longrightarrow> contents b fid = Some t \<Longrightarrow>
       \<exists>b'. bs_write bops fid buf b = Inr b' \<and> binv b' \<and> contents b' = (contents b)(fid \<mapsto> buf @ drop (length buf) t)"
begin

text \<open>What \<open>swap_space::write_back\<close> does with it: a new file with the text in it.\<close>

lemma wp_write_new:
  assumes "binv b"
    and "\<And>fid b'. binv b' \<Longrightarrow> fid > 0 \<Longrightarrow> contents b fid = None \<Longrightarrow> contents b' = (contents b)(fid \<mapsto> t) \<Longrightarrow> Q (fid, b')"
  shows "wpE (bindE (bs_allocate bops n b) (\<lambda>(fid, b1). bindE (bs_write bops fid t b1) (\<lambda>b2. Inr (fid, b2)))) (\<lambda>e. e = Counter_Wrap) Q"
  unfolding wpE_bindE
proof (rule wpE_mono[OF bs_allocate_spec[OF assms(1)]])
  fix x assume "case x of (fid, b') \<Rightarrow> binv b' \<and> fid > 0 \<and> contents b fid = None \<and> contents b' = (contents b)(fid \<mapsto> [])"
  then obtain fid b1 where x: "x = (fid, b1)" "binv b1" "fid > 0" "contents b fid = None" "contents b1 = (contents b)(fid \<mapsto> [])"
    by (cases x) auto
  then obtain b2 where "bs_write bops fid t b1 = Inr b2" "binv b2" "contents b2 = (contents b)(fid \<mapsto> t)"
    using bs_write_spec[of b1 fid "[]" t] by auto
  then show "wpE (case x of (fid, b1) \<Rightarrow> bindE (bs_write bops fid t b1) (\<lambda>b2. Inr (fid, b2))) (\<lambda>e. e = Counter_Wrap) Q"
    using x assms(2) by simp
qed

end

lemma file_name_inject: "file_name rt i = file_name rt j \<longleftrightarrow> i = j"
  by (simp add: file_name_def dec_inject word_unat_eq_iff)

interpretation one_file: backing_contract file_ops file_contents "\<lambda>b. 0 < nextid b"
proof unfold_locales
  fix b :: file_store and n assume b: "0 < nextid b"
  show "wpE (bs_allocate file_ops n b) (\<lambda>e. e = Counter_Wrap) (\<lambda>(fid, b').
     0 < nextid b' \<and> fid > 0 \<and> file_contents b fid = None \<and> file_contents b' = (file_contents b)(fid \<mapsto> []))"
    using b incr_less[of "nextid b" 0]
    by (auto simp: file_ops_def file_allocate_def Let_def wp_rules wpE_incr file_contents_def fun_eq_iff incr_less file_name_inject)
next
  fix b :: file_store and fid t assume "0 < nextid b" "file_contents b fid = Some t"
  then show "\<exists>b'. bs_deallocate file_ops fid b = Inr b' \<and> 0 < nextid b' \<and> file_contents b' = (file_contents b)(fid := None)"
    by (auto simp: file_ops_def file_deallocate_def Let_def file_contents_def fun_eq_iff file_name_inject split: if_splits)
next
  fix b :: file_store and fid t assume "0 < nextid b" "file_contents b fid = Some t"
  then show "bs_get file_ops fid b = Inr t"
    by (auto simp: file_ops_def file_get_def file_contents_def split: if_splits)
next
  fix b :: file_store and fid t buf assume "0 < nextid b" "file_contents b fid = Some t"
  then show "\<exists>b'. bs_write file_ops fid buf b = Inr b' \<and> 0 < nextid b' \<and>
      file_contents b' = (file_contents b)(fid \<mapsto> buf @ drop (length buf) t)"
    by (auto simp: file_ops_def file_write_def file_get_def file_contents_def fun_eq_iff file_name_inject split: if_splits)
qed

end
