(* ===== verification/Configuration.thy ===== *)
theory Configuration
  imports Prelude "HOL-Library.List_Lexorder" "HOL-Library.Char_ord" "HOL-Library.Monad_Syntax"
begin

text \<open>
  The configuration of the servers (network/configuration.hpp and .cpp): server addresses and
  their order, the reading of the configuration file, and the comparison of configurations.

  An \<open>ifstream\<close> is its two state bits and the text still to be read.  The loop of the constructor
  runs until \<open>eofbit\<close> is set and need not end, so it is a \<open>partial_function\<close>: \<open>None\<close> is a run that
  does not return.  The positions the constructor computes are \<open>unsigned int\<close>, so \<open>npos\<close>, which is
  \<open>2 ^ 64 - 1\<close>, is stored as \<open>2 ^ 32 - 1\<close>.
\<close>

datatype server_address = ServerAddress (host: string) (port: string)

instantiation server_address :: linorder
begin

definition less_server_address :: "server_address \<Rightarrow> server_address \<Rightarrow> bool" where
  "a < b \<longleftrightarrow> host a < host b \<or> host a = host b \<and> port a < port b"

definition less_eq_server_address :: "server_address \<Rightarrow> server_address \<Rightarrow> bool" where
  "a \<le> b \<longleftrightarrow> a < b \<or> a = (b :: server_address)"

instance
proof
  fix x y z :: server_address
  show "x < y \<longleftrightarrow> x \<le> y \<and> \<not> y \<le> x"
    by (auto simp: less_server_address_def less_eq_server_address_def)
  show "x \<le> x" by (simp add: less_eq_server_address_def)
  show "x \<le> y \<Longrightarrow> y \<le> z \<Longrightarrow> x \<le> z"
    by (auto simp: less_server_address_def less_eq_server_address_def)
  show "x \<le> y \<Longrightarrow> y \<le> x \<Longrightarrow> x = y"
    by (auto simp: less_server_address_def less_eq_server_address_def)
  show "x \<le> y \<or> y \<le> x"
    by (cases x; cases y) (auto simp: less_server_address_def less_eq_server_address_def)
qed

end

text \<open>\<open>multicastAddress\<close> is a pointer, null when there is no multicast.\<close>

datatype configuration =
  Configuration (conf_n: int) (servers: "server_address list") (multicastAddress: "server_address option") (hasMulticast: bool)

definition configuration_of :: "int \<Rightarrow> server_address list \<Rightarrow> server_address option \<Rightarrow> configuration" where
  "configuration_of n srv mc = Configuration n srv mc (mc \<noteq> None)"

definition configuration_copy :: "configuration \<Rightarrow> err + configuration" where
  "configuration_copy c =
     (if hasMulticast c then
        (case multicastAddress c of None \<Rightarrow> Inl Null_Pointer
         | Some a \<Rightarrow> Inr (Configuration (conf_n c) (servers c) (Some a) True))
      else Inr (Configuration (conf_n c) (servers c) None False))"

definition GetServerAddress :: "configuration \<Rightarrow> int \<Rightarrow> err + server_address" where
  "GetServerAddress c idx =
     (if 0 \<le> idx \<and> idx < int (length (servers c)) then Inr (servers c ! nat idx) else Inl Past_The_End)"

definition multicast :: "configuration \<Rightarrow> server_address option" where
  "multicast c = (if hasMulticast c then multicastAddress c else None)"

definition configuration_eq :: "configuration \<Rightarrow> configuration \<Rightarrow> bool" where
  "configuration_eq c d \<longleftrightarrow>
     conf_n c = conf_n d \<and> servers c = servers d \<and> hasMulticast c = hasMulticast d \<and>
     (hasMulticast c \<longrightarrow> multicastAddress c = multicastAddress d)"

text \<open>The order of \<open>std::tuple\<close> and \<open>std::vector\<close> is lexicographic, and \<open>false < true\<close>.\<close>

definition tuple_less :: "configuration \<Rightarrow> configuration \<Rightarrow> bool" where
  "tuple_less c d \<longleftrightarrow>
     conf_n c < conf_n d \<or> conf_n c = conf_n d \<and>
     (servers c < servers d \<or> servers c = servers d \<and> \<not> hasMulticast c \<and> hasMulticast d)"

definition tuple_eq :: "configuration \<Rightarrow> configuration \<Rightarrow> bool" where
  "tuple_eq c d \<longleftrightarrow> conf_n c = conf_n d \<and> servers c = servers d \<and> hasMulticast c = hasMulticast d"

definition configuration_less :: "configuration \<Rightarrow> configuration \<Rightarrow> bool" where
  "configuration_less c d =
     (if tuple_less c d then True
      else if tuple_eq c d then
        (if hasMulticast c then
           (case (multicastAddress c, multicastAddress d) of (Some a, Some b) \<Rightarrow> a < b | _ \<Rightarrow> False)
         else False)
      else False)"

text \<open>The hash of the standard library on strings is a parameter.\<close>

definition hash_address :: "(string \<Rightarrow> u64) \<Rightarrow> server_address \<Rightarrow> u64" where
  "hash_address h x = h (host x) * 37 + h (port x)"

definition hash_configuration :: "(string \<Rightarrow> u64) \<Rightarrow> configuration \<Rightarrow> err + u64" where
  "hash_configuration h c =
     foldl (\<lambda>acc i. bindE acc (\<lambda>out. bindE (GetServerAddress c (int i)) (\<lambda>a. Inr (out * 37 + hash_address h a))))
       (Inr (word_of_int (conf_n c) * 37)) [0..<nat (conf_n c)]"

subsection \<open>Strings and streams\<close>

record ifstream =
  eofbit :: bool
  failbit :: bool
  unread :: string

definition open_file :: "string option \<Rightarrow> ifstream" where
  "open_file contents = (case contents of
     None \<Rightarrow> \<lparr>eofbit = False, failbit = True, unread = []\<rparr>
   | Some t \<Rightarrow> \<lparr>eofbit = False, failbit = False, unread = t\<rparr>)"

definition getline :: "char \<Rightarrow> ifstream \<Rightarrow> string \<times> ifstream" where
  "getline delim f =
     (if eofbit f \<or> failbit f then ([], f\<lparr>failbit := True\<rparr>)
      else if unread f = [] then ([], f\<lparr>eofbit := True, failbit := True\<rparr>)
      else (let line = takeWhile (\<lambda>c. c \<noteq> delim) (unread f); rest = dropWhile (\<lambda>c. c \<noteq> delim) (unread f) in
            if rest = [] then (line, f\<lparr>eofbit := True, unread := []\<rparr>)
            else (line, f\<lparr>unread := tl rest\<rparr>)))"

definition find_first :: "(char \<Rightarrow> bool) \<Rightarrow> string \<Rightarrow> nat \<Rightarrow> u64" where
  "find_first P s pos =
     (let i = pos + length (takeWhile (\<lambda>c. \<not> P c) (drop pos s)) in
      if pos < length s \<and> i < length s then of_nat i else - 1)"

definition substr :: "string \<Rightarrow> nat \<Rightarrow> nat \<Rightarrow> err + string" where
  "substr s pos len = (if length s < pos then Inl Uncaught_Out_Of_Range else Inr (take len (drop pos s)))"

definition to_lower :: "char \<Rightarrow> char" where
  "to_lower c = (if 65 \<le> (of_char c :: nat) \<and> (of_char c :: nat) \<le> 90 then char_of ((of_char c :: nat) + 32) else c)"

definition c_str :: "string \<Rightarrow> string" where
  "c_str s = takeWhile (\<lambda>c. c \<noteq> CHR 0x00) s"

definition strcasecmp_eq :: "string \<Rightarrow> string \<Rightarrow> bool" where
  "strcasecmp_eq a b \<longleftrightarrow> map to_lower (c_str a) = map to_lower (c_str b)"

definition blank :: "char \<Rightarrow> bool" where
  "blank c \<longleftrightarrow> c = CHR '' '' \<or> c = CHR 0x09"

subsection \<open>Reading the configuration file\<close>

definition npos :: u64 where
  "npos = - 1"

text \<open>\<open>unsigned int t = line.find\<dots>\<close>\<close>

definition to_uint :: "u64 \<Rightarrow> u32" where
  "to_uint x = ucast x"

definition config_line :: "string \<Rightarrow> server_address list \<Rightarrow> err + server_address list" where
  "config_line line srv =
     (if line = [] \<or> hd line = CHR ''#'' then Inr srv
      else
        let t1 = to_uint (find_first blank line 0) in
        bindE (substr line 0 (unat t1)) (\<lambda>cmd.
        if strcasecmp_eq cmd ''server'' then
          let t2 = to_uint (find_first (\<lambda>c. \<not> blank c) line (unat t1)) in
          bindE (assertE (ucast t2 \<noteq> npos) (Panic ''configuration line requires an argument'')) (\<lambda>_.
          let t3 = to_uint (find_first (\<lambda>c. c = CHR '':'') line (unat t2)) in
          bindE (assertE (ucast t3 \<noteq> npos) (Panic ''Configuration line format: server host:port'')) (\<lambda>_.
          bindE (substr line (unat t2) (unat (t3 - t2))) (\<lambda>hst.
          bindE (substr line (unat (t3 + 1)) (length line)) (\<lambda>prt.
          Inr (srv @ [ServerAddress hst prt])))))
        else Inl (Panic ''Unknown configuration directive'')))"

partial_function (option) config_loop ::
  "ifstream \<Rightarrow> server_address list \<Rightarrow> (err + server_address list) option" where
  "config_loop f srv =
     (if eofbit f then Some (Inr srv)
      else (case getline (CHR 0x0A) f of (line, f') \<Rightarrow>
        (case config_line line srv of
           Inl e \<Rightarrow> Some (Inl e)
         | Inr srv' \<Rightarrow> config_loop f' srv')))"

text \<open>\<open>n = servers.size()\<close> narrows a \<open>size_t\<close> to an \<open>int\<close>.\<close>

definition configuration_read :: "ifstream \<Rightarrow> (err + configuration) option" where
  "configuration_read f =
     map_option (\<lambda>r. bindE r (\<lambda>srv.
       let n = sint (of_nat (length srv) :: u32) in
       if n = 0 then Inl (Panic ''Configuration did not specify any servers'')
       else Inr (Configuration n srv None False))) (config_loop f [])"


subsection \<open>Positions\<close>

lemma unat_to_uint: "unat (to_uint x) = unat x mod 2 ^ 32"
  by (simp add: to_uint_def unsigned_ucast_eq take_bit_eq_mod)

lemma npos_unreachable: "ucast (t :: u32) \<noteq> npos"
proof
  assume "ucast t = npos"
  then have "unat (ucast t :: u64) = unat npos" by simp
  moreover have "unat (ucast t :: u64) \<le> unat t" by (simp add: unsigned_ucast_eq take_bit_nat_less_eq_self)
  moreover have "unat t < 2 ^ LENGTH(32)" by (rule unsigned_less)
  ultimately show False by (simp add: npos_def unsigned_minus_1_eq_mask mask_eq_exp_minus_1)
qed

lemma find_first_at:
  assumes "\<forall>c\<in>set a. \<not> P c" and "P c" and "length (b @ a @ c # r) < 2 ^ 32" and "pos = length b"
  shows "unat (to_uint (find_first P (b @ a @ c # r) pos)) = length b + length a"
proof -
  have "takeWhile (\<lambda>c. \<not> P c) (a @ c # r) = a" using assms(1,2) by (simp add: takeWhile_append2)
  then have "find_first P (b @ a @ c # r) pos = of_nat (length b + length a)"
    by (simp add: find_first_def Let_def assms(4))
  moreover have "unat (of_nat (length b + length a) :: u64) = length b + length a"
    using assms(3) by (simp add: unat_of_nat del: of_nat_add)
  ultimately show ?thesis using assms(3) by (simp add: unat_to_uint del: of_nat_add)
qed

lemma find_first_none:
  assumes "\<forall>c\<in>set (drop pos s). \<not> P c"
  shows "find_first P s pos = - 1"
proof -
  have t: "takeWhile (\<lambda>c. \<not> P c) (drop pos s) = drop pos s" using assms by simp
  show ?thesis unfolding find_first_def Let_def t by auto
qed

lemma npos_as_uint: "unat (to_uint (- 1)) = 2 ^ 32 - 1" "to_uint (- 1) + 1 = 0"
  by (simp_all add: to_uint_def unat_to_uint unsigned_minus_1_eq_mask mask_eq_exp_minus_1)

subsection \<open>Lines\<close>

definition good_host :: "string \<Rightarrow> bool" where
  "good_host h \<longleftrightarrow> h \<noteq> [] \<and> \<not> blank (hd h) \<and> (\<forall>c\<in>set h. c \<noteq> CHR '':'' \<and> c \<noteq> CHR 0x0A)"

text \<open>The positions found on a line \<open>server host\<dots>\<close>.\<close>

lemma server_line_positions:
  assumes h: "good_host h" and len: "length (''server '' @ h @ r) < 2 ^ 32"
  shows "unat (to_uint (find_first blank (''server '' @ h @ r) 0)) = 6"
    and "unat (to_uint (find_first (\<lambda>c. \<not> blank c) (''server '' @ h @ r) 6)) = 7"
proof -
  have "unat (to_uint (find_first blank ([] @ ''server'' @ CHR '' '' # h @ r) 0)) = length ([] :: string) + length ''server''"
    by (rule find_first_at) (use len in \<open>auto simp: blank_def\<close>)
  then show "unat (to_uint (find_first blank (''server '' @ h @ r) 0)) = 6" by simp
  obtain c h' where h': "h = c # h'" "\<not> blank c" using h by (cases h) (auto simp: good_host_def)
  have "unat (to_uint (find_first (\<lambda>c. \<not> blank c) (''server'' @ '' '' @ c # h' @ r) 6)) = length ''server'' + length '' ''"
    by (rule find_first_at) (use len h' in \<open>auto simp: blank_def\<close>)
  then show "unat (to_uint (find_first (\<lambda>c. \<not> blank c) (''server '' @ h @ r) 6)) = 7" by (simp add: h'(1))
qed

lemma server_command: "substr (''server '' @ r) 0 6 = Inr ''server''" "strcasecmp_eq ''server'' ''server''"
  by (simp_all add: substr_def strcasecmp_eq_def)

lemma config_line_server:
  assumes h: "good_host h" and len: "length (''server '' @ h @ r) < 2 ^ 32"
  shows "config_line (''server '' @ h @ r) srv =
    (let t3 = to_uint (find_first (\<lambda>c. c = CHR '':'') (''server '' @ h @ r) 7) in
     bindE (substr (''server '' @ h @ r) 7 (unat (t3 - 7))) (\<lambda>hst.
     bindE (substr (''server '' @ h @ r) (unat (t3 + 1)) (length (''server '' @ h @ r))) (\<lambda>prt.
     Inr (srv @ [ServerAddress hst prt]))))"
proof -
  define l where "l = ''server '' @ h @ r"
  note pos = server_line_positions[OF assms, folded l_def]
  have t2: "to_uint (find_first (\<lambda>c. \<not> blank c) l 6) = 7" and t2': "unat (7 :: u32) = 7"
    using pos(2) by (simp_all add: word_unat_eq_iff)
  have l: "l \<noteq> []" "hd l \<noteq> CHR ''#''" "substr l 0 6 = Inr ''server''"
    using server_command(1)[of "h @ r"] by (simp_all add: l_def)
  have n7: "npos \<noteq> 7" using npos_unreachable[of 7] by auto
  show ?thesis
    unfolding l_def[symmetric] config_line_def Let_def pos(1) t2 t2' l(3)
    using l(1,2) server_command(2) n7 by (simp add: npos_unreachable)
qed

lemma config_line_address:
  assumes h: "good_host h" and len: "length (''server '' @ h @ '':'' @ p) < 2 ^ 32"
  shows "config_line (''server '' @ h @ '':'' @ p) srv = Inr (srv @ [ServerAddress h p])"
proof -
  let ?l = "''server '' @ h @ '':'' @ p"
  have "unat (to_uint (find_first (\<lambda>c. c = CHR '':'') (''server '' @ h @ CHR '':'' # p) 7)) = length ''server '' + length h"
    by (rule find_first_at) (use len h in \<open>auto simp: good_host_def\<close>)
  then have t3: "unat (to_uint (find_first (\<lambda>c. c = CHR '':'') ?l 7)) = 7 + length h" by simp
  define t3 where "t3 = to_uint (find_first (\<lambda>c. c = CHR '':'') ?l 7)"
  have u: "unat t3 = 7 + length h" using t3 by (simp only: t3_def)
  have d: "drop (8 + length h) ?l = p" by (simp add: eval_nat_numeral)
  have "7 \<le> t3" using u by (simp add: word_le_nat_alt)
  then have "unat (t3 - 7) = length h" using u by (simp add: unat_sub)
  moreover have "unat (t3 + 1) = 8 + length h" using u len by (simp add: unat_word_ariths)
  ultimately show ?thesis
    using config_line_server[OF h, of "'':'' @ p" srv] len d by (simp add: Let_def t3_def substr_def)
qed


lemma config_line_no_colon:
  assumes h: "good_host h" and len: "length (''server '' @ h) < 2 ^ 32 - 1"
  shows "config_line (''server '' @ h) srv = Inr (srv @ [ServerAddress h (''server '' @ h)])"
proof -
  let ?l = "''server '' @ h"
  have t3: "find_first (\<lambda>c. c = CHR '':'') ?l 7 = - 1"
    by (rule find_first_none) (use h in \<open>auto simp: good_host_def\<close>)
  have "unat (to_uint (- 1) - 7) = unat (to_uint (- 1)) - unat (7 :: u32)"
    by (rule unat_sub) (simp add: word_le_nat_alt npos_as_uint)
  then have "length h \<le> unat (to_uint (- 1) - 7)" using len by (simp add: npos_as_uint)
  then show ?thesis
    using config_line_server[OF h, of "[]" srv] len t3 by (simp add: Let_def substr_def npos_as_uint(2))
qed

subsection \<open>The whole file\<close>

definition address_line :: "server_address \<Rightarrow> string" where
  "address_line a = ''server '' @ host a @ '':'' @ port a"

definition write_config :: "server_address list \<Rightarrow> string" where
  "write_config srv = concat (map (\<lambda>a. address_line a @ [CHR 0x0A]) srv)"

definition good_address :: "server_address \<Rightarrow> bool" where
  "good_address a \<longleftrightarrow> good_host (host a) \<and> CHR 0x0A \<notin> set (port a) \<and> length (address_line a) < 2 ^ 32"

lemma getline_line:
  "CHR 0x0A \<notin> set line \<Longrightarrow>
   getline (CHR 0x0A) \<lparr>eofbit = False, failbit = False, unread = line @ CHR 0x0A # rest\<rparr> =
     (line, \<lparr>eofbit = False, failbit = False, unread = rest\<rparr>)"
  by (auto simp: getline_def Let_def takeWhile_append dropWhile_append takeWhile_eq_all_conv dropWhile_eq_Nil_conv)

lemma config_line_Nil [simp]: "config_line [] srv = Inr srv"
  by (simp add: config_line_def)

lemma config_loop_write:
  "\<forall>a\<in>set srv. good_address a \<Longrightarrow>
   config_loop \<lparr>eofbit = False, failbit = False, unread = write_config srv\<rparr> acc = Some (Inr (acc @ srv))"
proof (induction srv arbitrary: acc)
  case Nil
  show ?case
    by (subst config_loop.simps) (simp add: write_config_def getline_def config_loop.simps)
next
  case (Cons a srv)
  then have a: "good_address a" and rest: "\<forall>a\<in>set srv. good_address a" by auto
  have line: "CHR 0x0A \<notin> set (address_line a)" using a by (auto simp: good_address_def address_line_def good_host_def)
  have "config_line (address_line a) acc = Inr (acc @ [a])"
    using config_line_address[of "host a" "port a" acc] a by (simp add: good_address_def address_line_def)
  then show ?case
    using Cons.IH[OF rest, of "acc @ [a]"] getline_line[OF line]
    by (subst config_loop.simps) (simp add: write_config_def)
qed

lemma read_written_config:
  assumes "\<forall>a\<in>set srv. good_address a" and "srv \<noteq> []" and "length srv < 2 ^ 31"
  shows "configuration_read (open_file (Some (write_config srv))) = Some (Inr (Configuration (int (length srv)) srv None False))"
proof -
  have "sint (of_nat (length srv) :: u32) = int (length srv)"
    using assms(3) by (simp add: sint_uint signed_take_bit_eq_if_positive bit_uint_iff unat_of_nat take_bit_nat_eq_self bit_iff_odd uint_nat take_bit_int_eq_self)
  then show ?thesis using assms(2) config_loop_write[OF assms(1), of "[]"] by (simp add: configuration_read_def open_file_def Let_def)
qed

lemma getline_progress:
  assumes "\<not> eofbit f" and "\<not> failbit f" and "getline d f = (line, f')"
  shows "eofbit f' \<or> (\<not> failbit f' \<and> length (unread f') < length (unread f))"
proof -
  have "length (tl (dropWhile (\<lambda>c. c \<noteq> d) (unread f))) < length (unread f)"
    if "dropWhile (\<lambda>c. c \<noteq> d) (unread f) \<noteq> []"
    using that length_dropWhile_le[of "\<lambda>c. c \<noteq> d" "unread f"] by (cases "dropWhile (\<lambda>c. c \<noteq> d) (unread f)") auto
  then show ?thesis using assms by (auto simp: getline_def Let_def split: if_splits)
qed

lemma config_loop_returns: "\<not> failbit f \<Longrightarrow> \<exists>r. config_loop f srv = Some r"
proof (induction "length (unread f)" arbitrary: f srv rule: less_induct)
  case less
  show ?case
  proof (cases "eofbit f")
    case True
    then show ?thesis by (subst config_loop.simps) simp
  next
    case False
    obtain line f' where g: "getline (CHR 0x0A) f = (line, f')" by (cases "getline (CHR 0x0A) f")
    have "\<exists>r. config_loop f' srv' = Some r" for srv'
    proof (cases "eofbit f'")
      case True
      then show ?thesis by (subst config_loop.simps) simp
    next
      case F: False
      then show ?thesis using getline_progress[OF False less.prems g] less.hyps[of f'] by auto
    qed
    then show ?thesis using False g by (subst config_loop.simps) (simp split: sum.splits)
  qed
qed

lemma config_loop_unreadable:
  assumes "config_loop f srv = Some r"
  shows "failbit f \<longrightarrow> eofbit f"
proof (rule config_loop.raw_induct[OF _ assms])
  fix loop f srv r
  assume IH: "\<And>f srv r. loop f srv = Some r \<Longrightarrow> failbit f \<longrightarrow> eofbit f"
    and body: "(if eofbit f then Some (Inr srv)
      else (case getline (CHR 0x0A) f of (line, f') \<Rightarrow>
        (case config_line line srv of Inl e \<Rightarrow> Some (Inl e) | Inr srv' \<Rightarrow> loop f' srv'))) = Some r"
  show "failbit f \<longrightarrow> eofbit f"
  proof (intro impI, rule ccontr)
    assume fail: "failbit f" and e: "\<not> eofbit f"
    then have "loop (f\<lparr>failbit := True\<rparr>) srv = Some r" using body by (simp add: getline_def)
    then show False using IH[of "f\<lparr>failbit := True\<rparr>" srv r] e by simp
  qed
qed

subsection \<open>Comparing configurations\<close>

definition configuration_ok :: "configuration \<Rightarrow> bool" where
  "configuration_ok c \<longleftrightarrow> (hasMulticast c \<longleftrightarrow> multicastAddress c \<noteq> None)"

lemma tuple_trichotomy: "tuple_less c d \<or> tuple_eq c d \<or> tuple_less d c"
  by (auto simp: tuple_less_def tuple_eq_def)

lemma tuple_less_asym: "tuple_less c d \<Longrightarrow> \<not> tuple_less d c \<and> \<not> tuple_eq c d \<and> \<not> tuple_eq d c"
  by (auto simp: tuple_less_def tuple_eq_def)

lemma tuple_less_trans: "tuple_less c d \<Longrightarrow> tuple_less d e \<Longrightarrow> tuple_less c e"
  by (auto simp: tuple_less_def)

lemma tuple_eq_cong: "tuple_eq c d \<Longrightarrow> tuple_less d e = tuple_less c e \<and> tuple_less e d = tuple_less e c \<and> tuple_eq d e = tuple_eq c e \<and> tuple_eq e d = tuple_eq e c"
  by (auto simp: tuple_less_def tuple_eq_def)

lemma configuration_less_iff:
  assumes "configuration_ok c" and "configuration_ok d"
  shows "configuration_less c d \<longleftrightarrow> tuple_less c d \<or>
    tuple_eq c d \<and> hasMulticast c \<and> the (multicastAddress c) < the (multicastAddress d)"
  using assms tuple_less_asym[of c d]
  by (auto simp: configuration_less_def configuration_ok_def tuple_eq_def split: option.splits)

lemma configuration_eq_iff:
  assumes "configuration_ok c" and "configuration_ok d"
  shows "configuration_eq c d \<longleftrightarrow> tuple_eq c d \<and> (hasMulticast c \<longrightarrow> the (multicastAddress c) = the (multicastAddress d))"
  using assms by (auto simp: configuration_eq_def tuple_eq_def configuration_ok_def)

lemma configuration_trichotomy:
  assumes c: "configuration_ok c" and d: "configuration_ok d"
  shows "(configuration_less c d \<and> \<not> configuration_eq c d \<and> \<not> configuration_less d c) \<or>
    (\<not> configuration_less c d \<and> configuration_eq c d \<and> \<not> configuration_less d c) \<or>
    (\<not> configuration_less c d \<and> \<not> configuration_eq c d \<and> configuration_less d c)"
proof -
  note iffs = configuration_less_iff[OF c d] configuration_less_iff[OF d c] configuration_eq_iff[OF c d]
  consider "tuple_less c d" | "tuple_eq c d" | "tuple_less d c" using tuple_trichotomy[of c d] by blast
  then show ?thesis
  proof cases
    case 2
    then have "tuple_eq d c" "hasMulticast d = hasMulticast c" "\<not> tuple_less c d" "\<not> tuple_less d c"
      using tuple_less_asym[of c d] tuple_less_asym[of d c] by (auto simp: tuple_eq_def)
    then show ?thesis
      unfolding iffs using 2 less_linear[of "the (multicastAddress c)" "the (multicastAddress d)"] by auto
  qed (use tuple_less_asym iffs in blast)+
qed

lemma configuration_less_trans:
  assumes c: "configuration_ok c" and d: "configuration_ok d" and e: "configuration_ok e"
    and less: "configuration_less c d" "configuration_less d e"
  shows "configuration_less c e"
proof -
  note cd = less(1)[unfolded configuration_less_iff[OF c d]] and de = less(2)[unfolded configuration_less_iff[OF d e]]
  have "tuple_less c e \<or> tuple_eq c e \<and> hasMulticast c \<and> the (multicastAddress c) < the (multicastAddress e)"
    using cd de tuple_less_trans[of c d e] tuple_eq_cong[of c d e] tuple_eq_cong[of d e c] order_less_trans by (auto simp: tuple_eq_def)
  then show ?thesis unfolding configuration_less_iff[OF c e] .
qed

end
