(* ===== verification/Transport.thy ===== *)
theory Transport
  imports Configuration
begin

text \<open>
  The transport (network/transport.hpp, network/fasttransport.hpp and .cpp): the pool of request
  tags, the cache of sessions, and the sending of requests and responses, as far as the program's
  own code goes.

  The eRPC library is a parameter, the record \<open>erpc\<close> over a state \<open>'w\<close> of the network: making a
  session, whether it is connected, queueing a request, and one turn of the event loop, which
  returns the responses whose continuation runs in that turn, each with the tag of its request.
  A message buffer is what the two ends read in it: both kinds of request begin with \<open>req_nr\<close>, and
  so do both kinds of response.  The rest of a fresh buffer is whatever it held before.

  The object a transport works for is a \<open>TransportReceiver\<close>, the record \<open>receiver\<close>.  There is one
  receiver on a transport, so \<open>this_fiber::yield\<close> has no one to yield to.  The two loops that wait
  for the network need not end; their fuel is the number of turns waited for, and \<open>Out_Of_Fuel\<close>
  means that the wait goes on.
\<close>

type_synonym u8 = "8 word"

record request_buf =
  req_nr :: u64
  req_node_id :: u64
  req_buffer :: string

record response_buf =
  resp_req_nr :: u64
  resp_id :: u64
  resp_success :: bool

subsection \<open>AppMemPool\<close>

text \<open>An element of the pool is its block and its place in it.\<close>

type_synonym pool_ptr = "nat \<times> nat"

record mem_pool =
  num_to_alloc :: u64
  backing_ptr_vec :: "nat list"
  pool :: "pool_ptr list"

definition mem_pool_new :: mem_pool where
  "mem_pool_new = \<lparr>num_to_alloc = 1, backing_ptr_vec = [], pool = []\<rparr>"

definition extend_pool :: "mem_pool \<Rightarrow> mem_pool" where
  "extend_pool p =
     (let block = length (backing_ptr_vec p); n = unat (num_to_alloc p) in
      p\<lparr>pool := pool p @ map (\<lambda>i. (block, i)) [0..<n],
        backing_ptr_vec := backing_ptr_vec p @ [n],
        num_to_alloc := num_to_alloc p * 2\<rparr>)"

definition pool_alloc :: "mem_pool \<Rightarrow> err + pool_ptr \<times> mem_pool" where
  "pool_alloc p =
     (let p' = (if pool p = [] then extend_pool p else p) in
      if pool p' = [] then Inl Past_The_End
      else Inr (last (pool p'), p'\<lparr>pool := butlast (pool p')\<rparr>))"

definition pool_free :: "pool_ptr \<Rightarrow> mem_pool \<Rightarrow> mem_pool" where
  "pool_free t p = p\<lparr>pool := pool p @ [t]\<rparr>"

subsection \<open>The context of a transport\<close>

record req_tag =
  req_msgbuf :: request_buf
  tag_reqType :: u8

record transport =
  tr_config :: configuration
  receiverIdx :: int
  crt_req_tag :: pool_ptr
  req_tag_pool :: mem_pool
  tags :: "pool_ptr \<Rightarrow> req_tag option"
  sessions :: "u8 \<times> u8 \<Rightarrow> int option"

record 'w erpc =
  kBaseSmUdpPort :: nat
  create_session :: "string \<Rightarrow> nat \<Rightarrow> u8 \<Rightarrow> 'w \<Rightarrow> int \<times> 'w"
  is_connected :: "int \<Rightarrow> 'w \<Rightarrow> bool"
  alloc_msg_buffer :: "'w \<Rightarrow> request_buf \<times> 'w"
  enqueue_request :: "int \<Rightarrow> u8 \<Rightarrow> request_buf \<Rightarrow> pool_ptr \<Rightarrow> 'w \<Rightarrow> 'w"
  run_event_loop_once :: "'w \<Rightarrow> (pool_ptr \<times> response_buf) list \<times> 'w"

record 'r receiver =
  ReceiveResponse :: "u8 \<Rightarrow> response_buf \<Rightarrow> 'r \<Rightarrow> 'r"
  Blocked :: "'r \<Rightarrow> bool"

text \<open>Clients register with a \<open>receiverIdx\<close> of -1.\<close>

definition Register :: "int \<Rightarrow> transport \<Rightarrow> err + transport" where
  "Register idx tr =
     bindE (assertE (idx < conf_n (tr_config tr)) (Assertion ''receiverIdx < config.n'')) (\<lambda>_.
     Inr (tr\<lparr>receiverIdx := idx\<rparr>))"

definition GetRequestBuf :: "'w erpc \<Rightarrow> transport \<times> 'w \<Rightarrow> err + request_buf \<times> transport \<times> 'w" where
  "GetRequestBuf rpc st = (case st of (tr, w) \<Rightarrow>
     bindE (pool_alloc (req_tag_pool tr)) (\<lambda>(tag, p).
     case alloc_msg_buffer rpc w of (buf, w') \<Rightarrow>
     Inr (buf, tr\<lparr>crt_req_tag := tag, req_tag_pool := p,
                  tags := (tags tr)(tag \<mapsto> \<lparr>req_msgbuf = buf, tag_reqType = 0\<rparr>)\<rparr>, w')))"

subsection \<open>The event loop\<close>

definition fasttransport_response ::
  "'r receiver \<Rightarrow> pool_ptr \<Rightarrow> response_buf \<Rightarrow> 'r \<times> transport \<Rightarrow> err + 'r \<times> transport" where
  "fasttransport_response rcv tag resp st = (case st of (r, tr) \<Rightarrow>
     (case tags tr tag of
        None \<Rightarrow> Inl Null_Pointer
      | Some rt \<Rightarrow> Inr (ReceiveResponse rcv (tag_reqType rt) resp r,
          tr\<lparr>req_tag_pool := pool_free tag (req_tag_pool tr), tags := (tags tr)(tag := None)\<rparr>)))"

fun run_callbacks ::
  "'r receiver \<Rightarrow> (pool_ptr \<times> response_buf) list \<Rightarrow> 'r \<times> transport \<Rightarrow> err + 'r \<times> transport" where
  "run_callbacks rcv [] st = Inr st"
| "run_callbacks rcv ((tag, resp) # cs) st =
     bindE (fasttransport_response rcv tag resp st) (\<lambda>st'. run_callbacks rcv cs st')"

definition event_loop_once ::
  "'r receiver \<Rightarrow> 'w erpc \<Rightarrow> 'r \<times> transport \<times> 'w \<Rightarrow> err + 'r \<times> transport \<times> 'w" where
  "event_loop_once rcv rpc st = (case st of (r, tr, w) \<Rightarrow>
     (case run_event_loop_once rpc w of (cs, w') \<Rightarrow>
      bindE (run_callbacks rcv cs (r, tr)) (\<lambda>(r', tr'). Inr (r', tr', w'))))"

fun wait_until ::
  "nat \<Rightarrow> ('r \<times> transport \<times> 'w \<Rightarrow> bool) \<Rightarrow> 'r receiver \<Rightarrow> 'w erpc \<Rightarrow> 'r \<times> transport \<times> 'w
   \<Rightarrow> err + 'r \<times> transport \<times> 'w" where
  "wait_until fuel done rcv rpc st =
     (if done st then Inr st
      else case fuel of
        0 \<Rightarrow> Inl Out_Of_Fuel
      | Suc fuel' \<Rightarrow> bindE (event_loop_once rcv rpc st) (wait_until fuel' done rcv rpc))"

declare wait_until.simps [simp del]

subsection \<open>Sending\<close>

text \<open>The index of a server is narrowed to 8 bits in the call of \<open>GetSession\<close>.\<close>

definition GetSession ::
  "nat \<Rightarrow> 'r receiver \<Rightarrow> 'w erpc \<Rightarrow> u8 \<Rightarrow> u8 \<Rightarrow> 'r \<times> transport \<times> 'w \<Rightarrow> err + int \<times> 'r \<times> transport \<times> 'w" where
  "GetSession fuel rcv rpc serverIdx dstRpcIdx st = (case st of (r, tr, w) \<Rightarrow>
     (case sessions tr (serverIdx, dstRpcIdx) of
        Some session_id \<Rightarrow> Inr (session_id, st)
      | None \<Rightarrow>
          bindE (GetServerAddress (tr_config tr) (uint serverIdx)) (\<lambda>addr.
          case create_session rpc (host addr) (kBaseSmUdpPort rpc + unat dstRpcIdx) dstRpcIdx w of
            (session_id, w1) \<Rightarrow>
          bindE (wait_until fuel (\<lambda>(_, _, w). is_connected rpc session_id w) rcv rpc (r, tr, w1)) (\<lambda>(r2, tr2, w2).
          Inr (session_id, r2, tr2\<lparr>sessions := (sessions tr2)((serverIdx, dstRpcIdx) \<mapsto> session_id)\<rparr>, w2)))))"

definition SendRequestToServer ::
  "nat \<Rightarrow> 'r receiver \<Rightarrow> 'w erpc \<Rightarrow> u8 \<Rightarrow> u32 \<Rightarrow> u8 \<Rightarrow> request_buf \<Rightarrow> 'r \<times> transport \<times> 'w
   \<Rightarrow> err + 'r \<times> transport \<times> 'w" where
  "SendRequestToServer fuel rcv rpc reqType serverIdx dstRpcIdx msg st =
     bindE (assertE (serverIdx < word_of_int (conf_n (tr_config (fst (snd st))))) (Assertion ''serverIdx < config.n'')) (\<lambda>_.
     bindE (GetSession fuel rcv rpc (ucast serverIdx) dstRpcIdx st) (\<lambda>(session_id, r1, tr1, w1).
     let tag = crt_req_tag tr1;
         tr2 = tr1\<lparr>tags := (tags tr1)(tag \<mapsto> \<lparr>req_msgbuf = msg, tag_reqType = reqType\<rparr>)\<rparr>;
         w2 = enqueue_request rpc session_id reqType msg tag w1 in
     wait_until fuel (\<lambda>(r, _, _). \<not> Blocked rcv r) rcv rpc (r1, tr2, w2)))"

text \<open>
  \<open>SendRequestToAllServers\<close>: the request goes to every server but the sender itself; each gets a
  tag of its own with a copy of the message, the last server of the configuration the current tag.
\<close>

fun send_all ::
  "nat \<Rightarrow> 'r receiver \<Rightarrow> 'w erpc \<Rightarrow> u8 \<Rightarrow> u8 \<Rightarrow> request_buf \<Rightarrow> nat list \<Rightarrow> 'r \<times> transport \<times> 'w
   \<Rightarrow> err + 'r \<times> transport \<times> 'w" where
  "send_all fuel rcv rpc reqType dstRpcIdx msg [] st = Inr st"
| "send_all fuel rcv rpc reqType dstRpcIdx msg (i # is) st =
     (if receiverIdx (fst (snd st)) = int i then send_all fuel rcv rpc reqType dstRpcIdx msg is st
      else
        bindE (GetSession fuel rcv rpc (of_nat i) dstRpcIdx st) (\<lambda>(session_id, r1, tr1, w1).
        bindE (if int i = conf_n (tr_config tr1) - 1 then Inr (crt_req_tag tr1, tr1)
               else bindE (pool_alloc (req_tag_pool tr1)) (\<lambda>(tag, p). Inr (tag, tr1\<lparr>req_tag_pool := p\<rparr>))) (\<lambda>(tag, tr2).
        send_all fuel rcv rpc reqType dstRpcIdx msg is
          (r1, tr2\<lparr>tags := (tags tr2)(tag \<mapsto> \<lparr>req_msgbuf = msg, tag_reqType = reqType\<rparr>)\<rparr>,
           enqueue_request rpc session_id reqType msg tag w1))))"

definition SendRequestToAllServers ::
  "nat \<Rightarrow> 'r receiver \<Rightarrow> 'w erpc \<Rightarrow> u8 \<Rightarrow> u8 \<Rightarrow> request_buf \<Rightarrow> 'r \<times> transport \<times> 'w
   \<Rightarrow> err + 'r \<times> transport \<times> 'w" where
  "SendRequestToAllServers fuel rcv rpc reqType dstRpcIdx msg st =
     bindE (send_all fuel rcv rpc reqType dstRpcIdx msg [0..<nat (conf_n (tr_config (fst (snd st))))] st)
       (wait_until fuel (\<lambda>(r, _, _). \<not> Blocked rcv r) rcv rpc)"

subsection \<open>The pool hands out what is not in use\<close>

definition pool_valid :: "mem_pool \<Rightarrow> pool_ptr \<Rightarrow> bool" where
  "pool_valid p t \<longleftrightarrow> fst t < length (backing_ptr_vec p) \<and> snd t < backing_ptr_vec p ! fst t"

definition pool_inv :: "pool_ptr set \<Rightarrow> mem_pool \<Rightarrow> bool" where
  "pool_inv U p \<longleftrightarrow> distinct (pool p) \<and> set (pool p) \<inter> U = {} \<and> (\<forall>t\<in>set (pool p) \<union> U. pool_valid p t) \<and>
     num_to_alloc p = 2 ^ length (backing_ptr_vec p)"

lemma pool_inv_new: "pool_inv {} mem_pool_new"
  by (simp add: pool_inv_def mem_pool_new_def)

lemma extend_pool_facts:
  "pool (extend_pool p) = pool p @ map (\<lambda>i. (length (backing_ptr_vec p), i)) [0..<unat (num_to_alloc p)]"
  "backing_ptr_vec (extend_pool p) = backing_ptr_vec p @ [unat (num_to_alloc p)]"
  "num_to_alloc (extend_pool p) = num_to_alloc p * 2"
  by (simp_all add: extend_pool_def Let_def)

lemma pool_inv_extend:
  assumes "pool_inv U p"
  shows "pool_inv U (extend_pool p)"
proof -
  let ?new = "map (\<lambda>i. (length (backing_ptr_vec p), i)) [0..<unat (num_to_alloc p)]"
  have old: "pool_valid (extend_pool p) t" "t \<notin> set ?new" if "pool_valid p t" for t
    using that by (auto simp: pool_valid_def extend_pool_facts nth_append)
  have "pool_valid (extend_pool p) t" if "t \<in> set ?new" for t
    using that by (auto simp: pool_valid_def extend_pool_facts nth_append)
  moreover have "set ?new \<inter> (set (pool p) \<union> U) = {}" using assms old(2) unfolding pool_inv_def by blast
  moreover have "distinct ?new" by (simp add: distinct_map inj_on_def)
  ultimately show ?thesis
    using assms old(1) unfolding pool_inv_def extend_pool_facts set_append distinct_append
    by (auto simp del: set_map)
qed

lemma wp_pool_alloc:
  assumes "pool_inv U p" and "length (backing_ptr_vec p) < 64"
  shows "wpE (pool_alloc p) (\<lambda>_. False) (\<lambda>(t, p'). t \<notin> U \<and> pool_inv (insert t U) p')"
proof -
  define q where "q = (if pool p = [] then extend_pool p else p)"
  have q: "pool_inv U q" using assms(1) pool_inv_extend by (simp add: q_def)
  have "num_to_alloc p \<noteq> 0"
    using assms by (simp add: pool_inv_def exp_eq_zero_iff)
  then have "pool q \<noteq> []" by (auto simp: q_def extend_pool_facts word_unat_eq_iff)
  then obtain ts t where ts: "pool q = ts @ [t]" by (metis rev_exhaust)
  then have "t \<notin> U" "pool_inv (insert t U) (q\<lparr>pool := ts\<rparr>)"
    using q by (auto simp: pool_inv_def pool_valid_def)
  then show ?thesis using ts by (simp add: pool_alloc_def Let_def flip: q_def)
qed

lemma pool_inv_free: "pool_inv U p \<Longrightarrow> t \<in> U \<Longrightarrow> pool_inv (U - {t}) (pool_free t p)"
  by (auto simp: pool_inv_def pool_free_def pool_valid_def)

text \<open>What is freed last is handed out next.\<close>

lemma pool_alloc_free: "pool_alloc (pool_free t p) = Inr (t, p)"
  by (simp add: pool_alloc_def pool_free_def Let_def)

subsection \<open>Waiting\<close>

lemma wp_wait_until:
  assumes "\<And>st. I st \<Longrightarrow> \<not> done st \<Longrightarrow> wpE (event_loop_once rcv rpc st) E I" and "E Out_Of_Fuel" and "I st"
  shows "wpE (wait_until fuel done rcv rpc st) E (\<lambda>st. I st \<and> done st)"
  using assms(3)
proof (induction fuel arbitrary: st)
  case 0
  then show ?case by (simp add: wait_until.simps assms(2))
next
  case (Suc fuel)
  then show ?case
    by (subst wait_until.simps) (auto simp: wp_rules intro: wpE_mono[OF assms(1)])
qed

end
