(* ===== verification/Storage.thy ===== *)
theory Storage
  imports Transport "HOL-Library.Multiset"
begin

text \<open>
  The two ends of the node store (common/messages.hpp, client/storage_client.hpp and .cpp,
  server/storage_server.hpp and .cpp): the server, which numbers nodes and acknowledges evicted
  ones, and the client, which sends one request at a time and waits for its reply.
\<close>

definition getNodeIdReqType :: u8 where
  "getNodeIdReqType = 1"

definition evictNodeReqType :: u8 where
  "evictNodeReqType = 2"

subsection \<open>The server\<close>

record storage_app =
  current_id :: u32

definition storage_app_new :: storage_app where
  "storage_app_new = \<lparr>current_id = 0\<rparr>"

definition app_GetNodeId :: "storage_app \<Rightarrow> u32 \<times> storage_app" where
  "app_GetNodeId app = (current_id app, app\<lparr>current_id := current_id app + 1\<rparr>)"

text \<open>A handler fills the response buffer and sets \<open>respLen\<close>.\<close>

definition HandleGetNodeId ::
  "storage_app \<Rightarrow> request_buf \<Rightarrow> response_buf \<Rightarrow> storage_app \<times> response_buf \<times> nat" where
  "HandleGetNodeId app req resp =
     (case app_GetNodeId app of (i, app') \<Rightarrow>
      (app', resp\<lparr>resp_req_nr := req_nr req, resp_id := ucast i\<rparr>, 16))"

definition HandleEvictNode ::
  "storage_app \<Rightarrow> request_buf \<Rightarrow> response_buf \<Rightarrow> storage_app \<times> response_buf \<times> nat" where
  "HandleEvictNode app req resp = (app, resp\<lparr>resp_req_nr := req_nr req, resp_success := True\<rparr>, 16)"

text \<open>A request of another type leaves \<open>respLen\<close> uninitialised, and it is used to send the response.\<close>

definition ReceiveRequest ::
  "u8 \<Rightarrow> storage_app \<Rightarrow> request_buf \<Rightarrow> response_buf \<Rightarrow> err + storage_app \<times> response_buf \<times> nat" where
  "ReceiveRequest reqType app req resp =
     (if reqType = getNodeIdReqType then Inr (HandleGetNodeId app req resp)
      else if reqType = evictNodeReqType then Inr (HandleEvictNode app req resp)
      else Inl (Panic ''respLen is uninitialised''))"

subsection \<open>The client\<close>

record nodeid_t =
  nid_serverIdx :: u32
  nid_coreIdx :: u32
  nid_nodeIdx :: u32

record storage_client =
  lastReqId :: u64
  clientid :: u64
  blocked :: bool
  nodeIdReply :: nodeid_t
  evictNodeReply :: bool

text \<open>
  The constructor: an identifier of 0 is replaced by random numbers until one is not 0; the stream
  of random numbers is a parameter, and what the other members held is \<open>junk\<close>.
\<close>

fun pick_clientid :: "u64 \<Rightarrow> u64 list \<Rightarrow> err + u64" where
  "pick_clientid c rs = (if c \<noteq> 0 then Inr c else case rs of [] \<Rightarrow> Inl Out_Of_Fuel | r # rs' \<Rightarrow> pick_clientid r rs')"

definition storage_client_new ::
  "u64 \<Rightarrow> u64 list \<Rightarrow> storage_client \<Rightarrow> transport \<Rightarrow> err + storage_client \<times> transport" where
  "storage_client_new c rs junk tr =
     bindE (pick_clientid c rs) (\<lambda>cid.
     bindE (Register (- 1) tr) (\<lambda>tr'.
     Inr (junk\<lparr>clientid := cid, lastReqId := 0\<rparr>, tr')))"

definition HandleGetNodeIdReply :: "response_buf \<Rightarrow> storage_client \<Rightarrow> storage_client" where
  "HandleGetNodeIdReply resp cl =
     (if resp_req_nr resp \<noteq> lastReqId cl then cl
      else cl\<lparr>nodeIdReply := (nodeIdReply cl)\<lparr>nid_nodeIdx := ucast (resp_id resp)\<rparr>, blocked := False\<rparr>)"

definition HandleEvictNodeReply :: "response_buf \<Rightarrow> storage_client \<Rightarrow> storage_client" where
  "HandleEvictNodeReply resp cl =
     (if resp_req_nr resp \<noteq> lastReqId cl then cl
      else cl\<lparr>evictNodeReply := resp_success resp, blocked := False\<rparr>)"

definition client_ReceiveResponse :: "u8 \<Rightarrow> response_buf \<Rightarrow> storage_client \<Rightarrow> storage_client" where
  "client_ReceiveResponse reqType resp cl =
     (if reqType = getNodeIdReqType then HandleGetNodeIdReply resp cl
      else if reqType = evictNodeReqType then HandleEvictNodeReply resp cl
      else cl)"

definition client_receiver :: "storage_client receiver" where
  "client_receiver = \<lparr>ReceiveResponse = client_ReceiveResponse, Blocked = blocked\<rparr>"

type_synonym 'w client_state = "storage_client \<times> transport \<times> 'w"

definition GetNodeId ::
  "nat \<Rightarrow> 'w erpc \<Rightarrow> u8 \<Rightarrow> u32 \<Rightarrow> string \<Rightarrow> 'w client_state \<Rightarrow> err + nodeid_t \<times> 'w client_state" where
  "GetNodeId fuel rpc coreIdx serverIdx request st = (case st of (cl, tr, w) \<Rightarrow>
     let reqId = lastReqId cl + 1 in
     bindE (GetRequestBuf rpc (tr, w)) (\<lambda>(buf, tr1, w1).
     bindE (SendRequestToServer fuel client_receiver rpc getNodeIdReqType serverIdx coreIdx
              (buf\<lparr>req_nr := reqId\<rparr>) (cl\<lparr>lastReqId := reqId, blocked := True\<rparr>, tr1, w1)) (\<lambda>(cl2, tr2, w2).
     let reply = (nodeIdReply cl2)\<lparr>nid_serverIdx := serverIdx, nid_coreIdx := ucast coreIdx\<rparr> in
     Inr (reply, cl2\<lparr>nodeIdReply := reply\<rparr>, tr2, w2))))"

text \<open>\<open>memcpy\<close> into \<open>char buffer[4096]\<close>.\<close>

definition BUFFER_SIZE :: nat where
  "BUFFER_SIZE = 4096"

definition copy_to_buffer :: "string \<Rightarrow> string \<Rightarrow> err + string" where
  "copy_to_buffer src old =
     (if length src \<le> BUFFER_SIZE then Inr (src @ drop (length src) old) else Inl Buffer_Overflow)"

definition EvictNode ::
  "nat \<Rightarrow> 'w erpc \<Rightarrow> u8 \<Rightarrow> u32 \<Rightarrow> u64 \<Rightarrow> string \<Rightarrow> 'w client_state \<Rightarrow> err + bool \<times> 'w client_state" where
  "EvictNode fuel rpc coreIdx serverIdx node_id request st = (case st of (cl, tr, w) \<Rightarrow>
     let reqId = lastReqId cl + 1 in
     bindE (GetRequestBuf rpc (tr, w)) (\<lambda>(buf, tr1, w1).
     bindE (copy_to_buffer request (req_buffer buf)) (\<lambda>data.
     bindE (SendRequestToServer fuel client_receiver rpc evictNodeReqType serverIdx coreIdx
              \<lparr>req_nr = reqId, req_node_id = node_id, req_buffer = data\<rparr>
              (cl\<lparr>lastReqId := reqId, blocked := True\<rparr>, tr1, w1)) (\<lambda>(cl2, tr2, w2).
     Inr (evictNodeReply cl2, cl2, tr2, w2)))))"


text \<open>How a call can fail: the reply does not come, or the text does not fit into the request.\<close>

definition client_err :: "err \<Rightarrow> bool" where
  "client_err e \<longleftrightarrow> e = Out_Of_Fuel \<or> e = Buffer_Overflow"

text \<open>The calls the swap space makes.\<close>

record 'c client_ops =
  sc_GetNodeId :: "u8 \<Rightarrow> u32 \<Rightarrow> string \<Rightarrow> 'c \<Rightarrow> err + nodeid_t \<times> 'c"
  sc_EvictNode :: "u8 \<Rightarrow> u32 \<Rightarrow> u64 \<Rightarrow> string \<Rightarrow> 'c \<Rightarrow> err + bool \<times> 'c"

definition storage_ops :: "nat \<Rightarrow> 'w erpc \<Rightarrow> 'w client_state client_ops" where
  "storage_ops fuel rpc = \<lparr>sc_GetNodeId = GetNodeId fuel rpc, sc_EvictNode = EvictNode fuel rpc\<rparr>"

subsection \<open>A server in the same process\<close>

text \<open>
  The network that hands every queued request to the server's handler at the next turn of the
  event loop and returns its response: an instance of the parameter \<open>erpc\<close> made of the server.
\<close>

record loop_net =
  loop_app :: storage_app
  loop_queue :: "(u8 \<times> request_buf \<times> pool_ptr) list"

definition blank_request :: request_buf where
  "blank_request = \<lparr>req_nr = 0, req_node_id = 0, req_buffer = replicate BUFFER_SIZE (CHR 0x00)\<rparr>"

definition blank_response :: response_buf where
  "blank_response = \<lparr>resp_req_nr = 0, resp_id = 0, resp_success = False\<rparr>"

fun serve :: "storage_app \<Rightarrow> (u8 \<times> request_buf \<times> pool_ptr) list \<Rightarrow> (pool_ptr \<times> response_buf) list \<times> storage_app" where
  "serve app [] = ([], app)"
| "serve app ((t, req, tag) # q) =
     (case ReceiveRequest t app req blank_response of
        Inl e \<Rightarrow> (case serve app q of (rs, app'') \<Rightarrow> ((tag, blank_response) # rs, app''))
      | Inr (app', resp, len) \<Rightarrow> (case serve app' q of (rs, app'') \<Rightarrow> ((tag, resp) # rs, app'')))"

definition loopback :: "loop_net erpc" where
  "loopback =
     \<lparr>kBaseSmUdpPort = 31850,
      create_session = (\<lambda>hst prt dst w. (0, w)),
      is_connected = (\<lambda>i w. True),
      alloc_msg_buffer = (\<lambda>w. (blank_request, w)),
      enqueue_request = (\<lambda>i t req tag w. w\<lparr>loop_queue := loop_queue w @ [(t, req, tag)]\<rparr>),
      run_event_loop_once = (\<lambda>w. case serve (loop_app w) (loop_queue w) of
         (rs, app) \<Rightarrow> (rs, w\<lparr>loop_app := app, loop_queue := []\<rparr>))\<rparr>"

definition loop_pending :: "loop_net \<Rightarrow> pool_ptr list" where
  "loop_pending w = map (\<lambda>(t, req, tag). tag) (loop_queue w)"

subsection \<open>What the client relies on\<close>

text \<open>
  The documented behaviour of eRPC: the continuation of a request runs once, with the tag the
  request was queued with, and nothing but queueing and the event loop changes which requests are
  outstanding.
\<close>

locale erpc_network =
  fixes rpc :: "'w erpc" and pending :: "'w \<Rightarrow> pool_ptr list"
  assumes pending_session: "snd (create_session rpc h p d w) = w' \<Longrightarrow> pending w' = pending w"
    and pending_alloc: "snd (alloc_msg_buffer rpc w) = w' \<Longrightarrow> pending w' = pending w"
    and pending_enqueue: "pending (enqueue_request rpc i t req tag w) = pending w @ [tag]"
    and pending_loop: "run_event_loop_once rpc w = (cs, w') \<Longrightarrow>
       mset (pending w) = mset (map fst cs) + mset (pending w')"
begin

definition net_ok :: "transport \<Rightarrow> bool" where
  "net_ok tr \<longleftrightarrow> 0 < (word_of_int (conf_n (tr_config tr)) :: u32) \<and> servers (tr_config tr) \<noteq> []"

definition idle_pool :: "mem_pool \<Rightarrow> bool" where
  "idle_pool p \<longleftrightarrow> pool_inv {} p \<and> length (backing_ptr_vec p) \<le> 1 \<and> (pool p = [] \<longrightarrow> backing_ptr_vec p = [])"

definition client_idle :: "'w client_state \<Rightarrow> bool" where
  "client_idle st \<longleftrightarrow> (case st of (cl, tr, w) \<Rightarrow> net_ok tr \<and> pending w = [] \<and> idle_pool (req_tag_pool tr))"

definition client_waits :: "pool_ptr \<Rightarrow> 'w client_state \<Rightarrow> bool" where
  "client_waits tag st \<longleftrightarrow> (case st of (cl, tr, w) \<Rightarrow>
     net_ok tr \<and> pending w = [tag] \<and> blocked cl \<and> tags tr tag \<noteq> None \<and>
     pool_inv {tag} (req_tag_pool tr) \<and> length (backing_ptr_vec (req_tag_pool tr)) \<le> 1)"

text \<open>With nothing outstanding, a turn of the event loop runs no continuation.\<close>

lemma silent_turn:
  assumes "pending w = []"
  shows "wpE (event_loop_once rcv rpc (r, tr, w)) E (\<lambda>(r', tr', w'). r' = r \<and> tr' = tr \<and> pending w' = [])"
proof -
  obtain cs w' where loop: "run_event_loop_once rpc w = (cs, w')" by (cases "run_event_loop_once rpc w")
  have "cs = []" "pending w' = []" using pending_loop[OF loop] assms by auto
  then show ?thesis by (simp add: event_loop_once_def loop)
qed

lemma idle_turn: "client_idle st \<Longrightarrow> wpE (event_loop_once client_receiver rpc st) E client_idle"
  by (cases st) (auto simp: client_idle_def intro: wpE_mono[OF silent_turn])

lemma waiting_turn:
  assumes "client_waits tag st"
  shows "wpE (event_loop_once client_receiver rpc st) E (\<lambda>st'. client_waits tag st' \<or> client_idle st')"
proof -
  obtain cl tr w where st: "st = (cl, tr, w)" by (cases st)
  note W = assms[unfolded client_waits_def st prod.case]
  obtain cs w' where loop: "run_event_loop_once rpc w = (cs, w')" by (cases "run_event_loop_once rpc w")
  have "mset (map fst cs) + mset (pending w') = {#tag#}" using pending_loop[OF loop] W by simp
  then consider "cs = []" "pending w' = [tag]" | resp where "cs = [(tag, resp)]" "pending w' = []"
    by (cases cs) (auto simp: add_mset_eq_single)
  then show ?thesis
  proof cases
    case 1
    then show ?thesis using W by (simp add: event_loop_once_def st loop client_waits_def)
  next
    case 2
    obtain rt where "tags tr tag = Some rt" using W by auto
    moreover have "idle_pool (pool_free tag (req_tag_pool tr))"
      using W pool_inv_free[of "{tag}" "req_tag_pool tr" tag] by (simp add: idle_pool_def pool_free_def)
    ultimately show ?thesis
      using 2 W by (simp add: event_loop_once_def st loop fasttransport_response_def client_idle_def net_ok_def)
  qed
qed

lemma wp_wait_reply:
  assumes "client_waits tag st"
  shows "wpE (wait_until fuel (\<lambda>(r, _, _). \<not> Blocked client_receiver r) client_receiver rpc st) (\<lambda>e. e = Out_Of_Fuel) client_idle"
proof (rule wpE_mono[OF wp_wait_until[where I = "\<lambda>st. client_waits tag st \<or> client_idle st"]])
  fix st' assume "client_waits tag st' \<or> client_idle st'"
  then show "wpE (event_loop_once client_receiver rpc st') (\<lambda>e. e = Out_Of_Fuel) (\<lambda>st. client_waits tag st \<or> client_idle st)"
    by (auto intro: waiting_turn wpE_mono[OF idle_turn])
next
  fix st' assume "(client_waits tag st' \<or> client_idle st') \<and> (case st' of (r, _, _) \<Rightarrow> \<not> Blocked client_receiver r)"
  then show "client_idle st'" by (auto simp: client_waits_def client_receiver_def)
qed (use assms in auto)

lemma wp_GetSession:
  assumes "pending w = []" and "net_ok tr"
  shows "wpE (GetSession fuel rcv rpc 0 d (r, tr, w)) (\<lambda>e. e = Out_Of_Fuel)
    (\<lambda>(i, r', tr', w'). r' = r \<and> pending w' = [] \<and> tr' = tr\<lparr>sessions := sessions tr'\<rparr>)"
proof (cases "sessions tr (0, d)")
  case (Some i)
  then show ?thesis using assms(1) by (simp add: GetSession_def)
next
  case None
  have addr: "GetServerAddress (tr_config tr) (uint (0 :: u8)) = Inr (servers (tr_config tr) ! 0)"
    using assms(2) by (simp add: GetServerAddress_def net_ok_def)
  let ?I = "\<lambda>(r', tr', w'). r' = r \<and> tr' = tr \<and> pending w' = []"
  have wait: "wpE (wait_until fuel c rcv rpc (r, tr, w1)) (\<lambda>e. e = Out_Of_Fuel) (\<lambda>st. ?I st \<and> c st)"
    if "pending w1 = []" for w1 c
  proof (rule wp_wait_until)
    fix st assume "?I st"
    then obtain b where "st = (r, tr, b)" "pending b = []" by (cases st) auto
    then show "wpE (event_loop_once rcv rpc st) (\<lambda>e. e = Out_Of_Fuel) ?I" using silent_turn by simp
  qed (use that in auto)
  obtain i w1 where s: "create_session rpc (host (servers (tr_config tr) ! 0)) (kBaseSmUdpPort rpc + unat d) d w = (i, w1)"
    by fastforce
  have "pending w1 = []" using pending_session[of _ _ d w w1] s assms(1) by (metis snd_conv)
  from wait[OF this] show ?thesis
    unfolding GetSession_def prod.case None option.case addr bindE_simps s wpE_bindE
    by (rule wpE_mono) auto
qed

definition client_prepared :: "'w client_state \<Rightarrow> bool" where
  "client_prepared st \<longleftrightarrow> (case st of (cl, tr, w) \<Rightarrow> net_ok tr \<and> pending w = [] \<and>
     pool_inv {crt_req_tag tr} (req_tag_pool tr) \<and> length (backing_ptr_vec (req_tag_pool tr)) \<le> 1)"

lemma wp_GetRequestBuf:
  assumes "client_idle (cl, tr, w)"
  shows "wpE (GetRequestBuf rpc (tr, w)) (\<lambda>_. False) (\<lambda>(buf, tr', w'). client_prepared (cl', tr', w'))"
proof -
  note I = assms[unfolded client_idle_def idle_pool_def prod.case]
  have "wpE (pool_alloc (req_tag_pool tr)) (\<lambda>_. False) (\<lambda>(t, p'). t \<notin> {} \<and> pool_inv {t} p')"
    using I by (intro wp_pool_alloc) auto
  moreover have "length (backing_ptr_vec p') \<le> 1" if "pool_alloc (req_tag_pool tr) = Inr (t, p')" for t p'
    using that I by (auto simp: pool_alloc_def Let_def extend_pool_facts split: if_splits)
  moreover obtain buf w' where b: "alloc_msg_buffer rpc w = (buf, w')" by fastforce
  moreover have "pending w' = []" using pending_alloc[of w w'] b I by simp
  ultimately show ?thesis
    using I by (cases "pool_alloc (req_tag_pool tr)") (auto simp: GetRequestBuf_def client_prepared_def net_ok_def)
qed

lemma wp_SendRequestToServer:
  assumes "client_prepared (cl, tr, w)" and "blocked cl"
  shows "wpE (SendRequestToServer fuel client_receiver rpc t 0 d msg (cl, tr, w)) (\<lambda>e. e = Out_Of_Fuel) client_idle"
proof -
  note P = assms(1)[unfolded client_prepared_def prod.case]
  have a: "assertE ((0 :: u32) < word_of_int (conf_n (tr_config tr))) (Assertion ''serverIdx < config.n'') = Inr ()"
    using P by (simp add: net_ok_def)
  have u: "(ucast (0 :: u32) :: u8) = 0" by simp
  have w: "wpE (GetSession fuel client_receiver rpc 0 d (cl, tr, w)) (\<lambda>e. e = Out_Of_Fuel)
    (\<lambda>(i, r', tr', w'). r' = cl \<and> pending w' = [] \<and> tr' = tr\<lparr>sessions := sessions tr'\<rparr>)"
    using P by (intro wp_GetSession) simp_all
  show ?thesis
    unfolding SendRequestToServer_def fst_conv snd_conv a bindE_simps u wpE_bindE
  proof (rule wpE_mono[OF w])
    fix x :: "int \<times> 'w client_state" assume "case x of (i, r', tr', w') \<Rightarrow> r' = cl \<and> pending w' = [] \<and> tr' = tr\<lparr>sessions := sessions tr'\<rparr>"
    then obtain i tr' w' where x: "x = (i, cl, tr', w')" "pending w' = []" "tr' = tr\<lparr>sessions := sessions tr'\<rparr>"
      by (cases x) auto
    let ?tr = "tr'\<lparr>tags := (tags tr')(crt_req_tag tr' \<mapsto> \<lparr>req_msgbuf = msg, tag_reqType = t\<rparr>)\<rparr>"
    have same: "req_tag_pool ?tr = req_tag_pool tr" "tr_config ?tr = tr_config tr" "crt_req_tag tr' = crt_req_tag tr"
      using arg_cong[OF x(3), of req_tag_pool] arg_cong[OF x(3), of tr_config] arg_cong[OF x(3), of crt_req_tag] by simp_all
    have "client_waits (crt_req_tag tr') (cl, ?tr, enqueue_request rpc i t msg (crt_req_tag tr') w')"
      using P assms(2) x(2) same unfolding client_waits_def prod.case net_ok_def by (simp add: pending_enqueue)
    then show "wpE (case x of (session_id, r1, tr1, w1) \<Rightarrow>
        let tag = crt_req_tag tr1; tr2 = tr1\<lparr>tags := (tags tr1)(tag \<mapsto> \<lparr>req_msgbuf = msg, tag_reqType = t\<rparr>)\<rparr>;
            w2 = enqueue_request rpc session_id t msg tag w1
        in wait_until fuel (\<lambda>(r, _, _). \<not> Blocked client_receiver r) client_receiver rpc (r1, tr2, w2))
      (\<lambda>e. e = Out_Of_Fuel) client_idle"
      unfolding x(1) prod.case Let_def by (rule wp_wait_reply)
  qed
qed

lemma wp_GetNodeId:
  assumes "client_idle st"
  shows "wpE (GetNodeId fuel rpc c 0 request st) client_err (\<lambda>(_, st'). client_idle st')"
proof -
  obtain cl tr w where st: "st = (cl, tr, w)" by (cases st)
  let ?cl = "cl\<lparr>lastReqId := lastReqId cl + 1, blocked := True\<rparr>"
  show ?thesis
    unfolding GetNodeId_def st prod.case Let_def wpE_bindE
  proof (rule wpE_mono[OF wp_GetRequestBuf[OF assms[unfolded st], of ?cl]])
    fix x :: "request_buf \<times> transport \<times> 'w" assume "case x of (buf, tr', w') \<Rightarrow> client_prepared (?cl, tr', w')"
    then obtain buf tr1 w1 where x: "x = (buf, tr1, w1)" and p: "client_prepared (?cl, tr1, w1)" by (cases x) auto
    have s: "wpE (SendRequestToServer fuel client_receiver rpc getNodeIdReqType 0 c (buf\<lparr>req_nr := lastReqId cl + 1\<rparr>)
        (?cl, tr1, w1)) client_err client_idle"
      by (rule wpE_mono[OF wp_SendRequestToServer[OF p]]) (auto simp: client_err_def)
    show "wpE (case x of (buf, tr1, w1) \<Rightarrow> bindE (SendRequestToServer fuel client_receiver rpc getNodeIdReqType 0 c
        (buf\<lparr>req_nr := lastReqId cl + 1\<rparr>) (?cl, tr1, w1)) (\<lambda>(cl2, tr2, w2).
        Inr ((nodeIdReply cl2)\<lparr>nid_serverIdx := 0, nid_coreIdx := ucast c\<rparr>,
          cl2\<lparr>nodeIdReply := (nodeIdReply cl2)\<lparr>nid_serverIdx := 0, nid_coreIdx := ucast c\<rparr>\<rparr>, tr2, w2)))
      client_err (\<lambda>(_, st'). client_idle st')"
      unfolding x prod.case wpE_bindE by (rule wpE_mono[OF s]) (auto simp: client_idle_def)
  qed simp
qed

lemma wp_EvictNode:
  assumes "client_idle st"
  shows "wpE (EvictNode fuel rpc c 0 n request st) client_err (\<lambda>(_, st'). client_idle st' \<and> length request \<le> BUFFER_SIZE)"
proof -
  obtain cl tr w where st: "st = (cl, tr, w)" by (cases st)
  let ?cl = "cl\<lparr>lastReqId := lastReqId cl + 1, blocked := True\<rparr>"
  let ?msg = "\<lambda>data. \<lparr>req_nr = lastReqId cl + 1, req_node_id = n, req_buffer = data\<rparr>"
  show ?thesis
    unfolding EvictNode_def st prod.case Let_def wpE_bindE
  proof (rule wpE_mono[OF wp_GetRequestBuf[OF assms[unfolded st], of ?cl]])
    fix x :: "request_buf \<times> transport \<times> 'w" assume "case x of (buf, tr', w') \<Rightarrow> client_prepared (?cl, tr', w')"
    then obtain buf tr1 w1 where x: "x = (buf, tr1, w1)" and p: "client_prepared (?cl, tr1, w1)" by (cases x) auto
    have s: "wpE (SendRequestToServer fuel client_receiver rpc evictNodeReqType 0 c msg (?cl, tr1, w1)) client_err client_idle" for msg
      by (rule wpE_mono[OF wp_SendRequestToServer[OF p]]) (auto simp: client_err_def)
    show "wpE (case x of (buf, tr1, w1) \<Rightarrow> bindE (copy_to_buffer request (req_buffer buf)) (\<lambda>data.
        bindE (SendRequestToServer fuel client_receiver rpc evictNodeReqType 0 c (?msg data) (?cl, tr1, w1)) (\<lambda>(cl2, tr2, w2).
        Inr (evictNodeReply cl2, cl2, tr2, w2))))
      client_err (\<lambda>(_, st'). client_idle st' \<and> length request \<le> BUFFER_SIZE)"
      unfolding x prod.case wpE_bindE copy_to_buffer_def
      by (auto simp: client_err_def wpE_bindE intro!: wpE_mono[OF s])
  qed simp
qed

lemma evict_overflow:
  assumes "client_idle st" and "BUFFER_SIZE < length request"
  shows "EvictNode fuel rpc c i n request st = Inl Buffer_Overflow"
proof -
  obtain cl tr w where st: "st = (cl, tr, w)" by (cases st)
  show ?thesis
    using wp_GetRequestBuf[OF assms(1)[unfolded st], of cl] assms(2)
    by (cases "GetRequestBuf rpc (tr, w)") (auto simp: EvictNode_def st copy_to_buffer_def)
qed

end

subsection \<open>The contract of the client\<close>

text \<open>What the swap space relies on; a call returns only if the text fitted into the request.\<close>

locale client_contract =
  fixes cops :: "'c client_ops" and cinv :: "'c \<Rightarrow> bool" and cerr :: "err \<Rightarrow> bool"
  assumes GetNodeId_spec: "cinv c \<Longrightarrow> wpE (sc_GetNodeId cops 0 0 r c) cerr (\<lambda>(_, c'). cinv c')"
    and EvictNode_spec: "cinv c \<Longrightarrow> wpE (sc_EvictNode cops 0 0 i t c) cerr (\<lambda>(_, c'). cinv c' \<and> length t \<le> BUFFER_SIZE)"

sublocale erpc_network \<subseteq> client: client_contract "storage_ops fuel rpc" client_idle client_err for fuel
  by unfold_locales (auto simp: storage_ops_def intro: wp_GetNodeId wp_EvictNode)

lemma serve_tags: "serve app q = (rs, app') \<Longrightarrow> map fst rs = map (\<lambda>(t, req, tag). tag) q"
  by (induction app q arbitrary: rs app' rule: serve.induct) (auto split: sum.splits prod.splits)

interpretation loop: erpc_network loopback loop_pending
proof unfold_locales
  fix w cs w' assume "run_event_loop_once loopback w = (cs, w')"
  then obtain app where s: "serve (loop_app w) (loop_queue w) = (cs, app)" and w': "loop_pending w' = []"
    by (auto simp: loopback_def loop_pending_def split: prod.splits)
  show "mset (loop_pending w) = mset (map fst cs) + mset (loop_pending w')"
    by (simp only: w' serve_tags[OF s]) (simp add: loop_pending_def)
qed (auto simp: loopback_def loop_pending_def)

end
