(* ===== verification/Swap_Space.thy ===== *)
theory Swap_Space
  imports Backing_Store Storage
begin

text \<open>
  The swap space (client/swap_space.hpp and .cpp): a cache of at most \<open>max_in_memory_objects\<close>
  objects over the backing store, evicting the least recently used object that is not pinned.

  An object is known by its identifier.  \<open>objects\<close> is the table of all live objects; the set
  \<open>lru_pqueue\<close>, ordered by last access, is the list of its members in that order.  What a template
  instance of the swap space depends on is the record \<open>env\<close>: how a \<open>Referent\<close> is written and read
  given which objects exist, the pointers inside it, the backing store and the storage client.

  Each live object belongs to one pointer of the tree: the copies that C++ makes of a pointer while
  it is passed around raise and lower \<open>refcount\<close> again, and the tree's operations are modelled with
  the copies left out (\<open>pointer_copy\<close> followed by \<open>depoint\<close> changes nothing, lemma \<open>copy_depoint\<close> of \<open>Swap_Policy\<close>).
  The 64-bit counters of identifiers, access times and pins end the run with \<open>Counter_Wrap\<close> rather
  than wrap; \<open>current_in_memory_objects\<close>, which the code can decrement too often, does wrap.
\<close>

record 'n ss_obj =
  target :: "'n option"
  bsid :: u64
  obj_is_leaf :: bool
  refcount :: u64
  last_access :: u64
  target_is_dirty :: bool
  pincount :: u64

record ('n, 'b, 'c) swap_space =
  backstore :: 'b
  sc :: 'c
  next_id :: u64
  next_access_time :: u64
  max_in_memory_objects :: u64
  current_in_memory_objects :: u64
  objects :: "u64 \<Rightarrow> 'n ss_obj option"
  lru_pqueue :: "u64 list"

record ('n, 'b, 'c) env =
  referent :: "(u64 \<Rightarrow> bool) \<Rightarrow> 'n codec"
  pointers :: "'n \<Rightarrow> u64 list"
  disk :: "'b backing_ops"
  client :: "'c client_ops"

definition swap_space_new :: "'b \<Rightarrow> 'c \<Rightarrow> u64 \<Rightarrow> ('n, 'b, 'c) swap_space" where
  "swap_space_new bs c n =
     \<lparr>backstore = bs, sc = c, next_id = 1, next_access_time = 0, max_in_memory_objects = n,
      current_in_memory_objects = 0, objects = Map.empty, lru_pqueue = []\<rparr>"

definition live :: "('n, 'b, 'c) swap_space \<Rightarrow> u64 \<Rightarrow> bool" where
  "live s i \<longleftrightarrow> objects s i \<noteq> None"

text \<open>\<open>assert(ss->objects.count(i) > 0)\<close> and \<open>ss->objects[i]\<close>\<close>

definition obj_at :: "u64 \<Rightarrow> ('n, 'b, 'c) swap_space \<Rightarrow> err + 'n ss_obj" where
  "obj_at i s = (case objects s i of None \<Rightarrow> Inl (Assertion ''objects.count(target) > 0'') | Some ob \<Rightarrow> Inr ob)"

definition set_obj :: "u64 \<Rightarrow> 'n ss_obj \<Rightarrow> ('n, 'b, 'c) swap_space \<Rightarrow> ('n, 'b, 'c) swap_space" where
  "set_obj i ob s = s\<lparr>objects := (objects s)(i \<mapsto> ob)\<rparr>"

subsection \<open>The priority queue\<close>

definition access_time :: "('n, 'b, 'c) swap_space \<Rightarrow> u64 \<Rightarrow> u64" where
  "access_time s i = (case objects s i of None \<Rightarrow> 0 | Some ob \<Rightarrow> last_access ob)"

definition lru_erase :: "(u64 \<Rightarrow> u64) \<Rightarrow> u64 \<Rightarrow> u64 list \<Rightarrow> u64 list" where
  "lru_erase at i q = filter (\<lambda>j. at j \<noteq> at i) q"

fun lru_insert :: "(u64 \<Rightarrow> u64) \<Rightarrow> u64 \<Rightarrow> u64 list \<Rightarrow> u64 list" where
  "lru_insert at i [] = [i]"
| "lru_insert at i (j # q) =
     (if at i < at j then i # j # q else if at j < at i then j # lru_insert at i q else j # q)"

subsection \<open>Writing back, evicting and loading\<close>

definition write_back :: "('n, 'b, 'c) env \<Rightarrow> u64 \<Rightarrow> ('n, 'b, 'c) swap_space \<Rightarrow> err + ('n, 'b, 'c) swap_space" where
  "write_back env i s =
     bindE (obj_at i s) (\<lambda>ob.
     case target ob of
       None \<Rightarrow> Inl Null_Pointer
     | Some n \<Rightarrow>
         bindE (to_stream (referent env (live s)) n) (\<lambda>buffer.
         let ob1 = ob\<lparr>obj_is_leaf := (pointers env n = [])\<rparr> in
         if target_is_dirty ob then
           bindE (bs_allocate (disk env) (length buffer) (backstore s)) (\<lambda>(b, bs1).
           bindE (bs_write (disk env) b buffer bs1) (\<lambda>bs2.
           bindE (sc_EvictNode (client env) 0 0 i buffer (sc s)) (\<lambda>(_, c).
           bindE (if bsid ob > 0 then bs_deallocate (disk env) (bsid ob) bs2 else Inr bs2) (\<lambda>bs3.
           Inr (set_obj i (ob1\<lparr>bsid := b, target_is_dirty := False\<rparr>) (s\<lparr>backstore := bs3, sc := c\<rparr>))))))
         else Inr (set_obj i ob1 s)))"

definition evict_one :: "('n, 'b, 'c) env \<Rightarrow> u64 \<Rightarrow> ('n, 'b, 'c) swap_space \<Rightarrow> err + ('n, 'b, 'c) swap_space" where
  "evict_one env i s =
     bindE (write_back env i (s\<lparr>lru_pqueue := lru_erase (access_time s) i (lru_pqueue s)\<rparr>)) (\<lambda>s1.
     bindE (obj_at i s1) (\<lambda>ob.
     Inr (set_obj i (ob\<lparr>target := None\<rparr>) (s1\<lparr>current_in_memory_objects := current_in_memory_objects s1 - 1\<rparr>))))"

definition unpinned_obj :: "('n, 'b, 'c) swap_space \<Rightarrow> u64 \<Rightarrow> bool" where
  "unpinned_obj s i = (case objects s i of None \<Rightarrow> False | Some ob \<Rightarrow> pincount ob = 0)"

text \<open>
  The loop of \<open>maybe_evict_something\<close> and of \<open>evict_all\<close>, which differ in the number of objects they
  leave in memory.
\<close>

function evict_loop :: "('n, 'b, 'c) env \<Rightarrow> u64 \<Rightarrow> ('n, 'b, 'c) swap_space \<Rightarrow> err + ('n, 'b, 'c) swap_space" where
  "evict_loop env limit s =
     (if current_in_memory_objects s > limit then
        (case find (unpinned_obj s) (lru_pqueue s) of
           None \<Rightarrow> Inr s
         | Some i \<Rightarrow> bindE (evict_one env i s) (\<lambda>s'. evict_loop env limit s'))
      else Inr s)"
  by pat_completeness auto

lemma wpE_trivial [simp]: "wpE m (\<lambda>_. True) (\<lambda>_. True)"
  by (cases m) simp_all

lemma wp_write_back_queue: "wpE (write_back env i s) (\<lambda>_. True) (\<lambda>s'. lru_pqueue s' = lru_pqueue s)"
  by (cases "obj_at i s") (simp_all add: write_back_def wp_rules Let_def set_obj_def split_def split: option.split)

lemma evict_one_queue:
  assumes "evict_one env i s = Inr s'"
  shows "lru_pqueue s' = lru_erase (access_time s) i (lru_pqueue s)"
proof -
  let ?s = "s\<lparr>lru_pqueue := lru_erase (access_time s) i (lru_pqueue s)\<rparr>"
  obtain s1 ob where "write_back env i ?s = Inr s1" and s': "s' = set_obj i (ob\<lparr>target := None\<rparr>)
      (s1\<lparr>current_in_memory_objects := current_in_memory_objects s1 - 1\<rparr>)"
    using assms by (auto simp: evict_one_def bindE_eq_Inr_iff)
  then have "lru_pqueue s1 = lru_pqueue ?s" using wp_write_back_queue[of env i ?s] by simp
  then show ?thesis by (simp add: s' set_obj_def)
qed

lemma find_in_set: "find P xs = Some x \<Longrightarrow> x \<in> set xs \<and> P x"
  by (induction xs) (auto split: if_splits)

termination evict_loop
proof (relation "measure (\<lambda>(env, limit, s). length (lru_pqueue s))")
  fix env :: "('n, 'b, 'c) env" and limit s i s'
  assume f: "find (unpinned_obj s) (lru_pqueue s) = Some i" and e: "evict_one env i s = Inr s'"
  from find_in_set[OF f] evict_one_queue[OF e] show "((env, limit, s'), env, limit, s) \<in> measure (\<lambda>(env, limit, s). length (lru_pqueue s))"
    by (auto simp: lru_erase_def intro!: length_filter_less)
qed simp

declare evict_loop.simps [simp del]

definition maybe_evict_something :: "('n, 'b, 'c) env \<Rightarrow> ('n, 'b, 'c) swap_space \<Rightarrow> err + ('n, 'b, 'c) swap_space" where
  "maybe_evict_something env s = evict_loop env (max_in_memory_objects s) s"

definition evict_all :: "('n, 'b, 'c) env \<Rightarrow> ('n, 'b, 'c) swap_space \<Rightarrow> err + ('n, 'b, 'c) swap_space" where
  "evict_all env s = evict_loop env 0 s"

definition set_cache_size :: "('n, 'b, 'c) env \<Rightarrow> u64 \<Rightarrow> ('n, 'b, 'c) swap_space \<Rightarrow> err + ('n, 'b, 'c) swap_space" where
  "set_cache_size env sz s =
     bindE (assertE (sz > 0) (Assertion ''sz > 0'')) (\<lambda>_.
     maybe_evict_something env (s\<lparr>max_in_memory_objects := sz\<rparr>))"

definition load :: "('n, 'b, 'c) env \<Rightarrow> u64 \<Rightarrow> ('n, 'b, 'c) swap_space \<Rightarrow> err + ('n, 'b, 'c) swap_space" where
  "load env tgt s =
     bindE (obj_at tgt s) (\<lambda>ob.
     case target ob of
       Some _ \<Rightarrow> Inr s
     | None \<Rightarrow>
         bindE (bs_get (disk env) (bsid ob) (backstore s)) (\<lambda>fs.
         bindE (from_stream (referent env (live s)) fs) (\<lambda>(r, _).
         Inr (set_obj tgt (ob\<lparr>target := Some r\<rparr>)
               (s\<lparr>current_in_memory_objects := current_in_memory_objects s + 1\<rparr>)))))"

subsection \<open>Pins\<close>

definition dopin :: "u64 \<Rightarrow> ('n, 'b, 'c) swap_space \<Rightarrow> err + ('n, 'b, 'c) swap_space" where
  "dopin tgt s =
     (if tgt > 0 then
        bindE (obj_at tgt s) (\<lambda>ob.
        bindE (incr (pincount ob)) (\<lambda>pc. Inr (set_obj tgt (ob\<lparr>pincount := pc\<rparr>) s)))
      else Inr s)"

definition unpin :: "('n, 'b, 'c) env \<Rightarrow> u64 \<Rightarrow> ('n, 'b, 'c) swap_space \<Rightarrow> err + ('n, 'b, 'c) swap_space" where
  "unpin env tgt s =
     (if tgt > 0 then
        bindE (obj_at tgt s) (\<lambda>ob.
        maybe_evict_something env (set_obj tgt (ob\<lparr>pincount := pincount ob - 1\<rparr>) s))
      else Inr s)"

definition access :: "('n, 'b, 'c) env \<Rightarrow> u64 \<Rightarrow> bool \<Rightarrow> ('n, 'b, 'c) swap_space \<Rightarrow> err + ('n, 'b, 'c) swap_space" where
  "access env tgt dirty s =
     bindE (obj_at tgt s) (\<lambda>ob.
     let q = lru_erase (access_time s) tgt (lru_pqueue s) in
     bindE (incr (next_access_time s)) (\<lambda>t.
     let s1 = set_obj tgt (ob\<lparr>last_access := next_access_time s, target_is_dirty := target_is_dirty ob \<or> dirty\<rparr>)
                (s\<lparr>next_access_time := t\<rparr>);
         s2 = s1\<lparr>lru_pqueue := lru_insert (access_time s1) tgt q\<rparr> in
     bindE (load env tgt s2) (maybe_evict_something env)))"

text \<open>\<open>p->\<close>: the pin is made, and its \<open>operator->\<close> accesses the object.\<close>

definition pin_access :: "('n, 'b, 'c) env \<Rightarrow> bool \<Rightarrow> u64 \<Rightarrow> ('n, 'b, 'c) swap_space \<Rightarrow> err + ('n, 'b, 'c) swap_space" where
  "pin_access env dirty tgt s = bindE (dopin tgt s) (\<lambda>s1. access env tgt dirty s1)"

subsection \<open>Pointers\<close>

definition pointer_copy :: "u64 \<Rightarrow> ('n, 'b, 'c) swap_space \<Rightarrow> err + ('n, 'b, 'c) swap_space" where
  "pointer_copy tgt s =
     (if tgt > 0 then
        bindE (obj_at tgt s) (\<lambda>ob. Inr (set_obj tgt (ob\<lparr>refcount := refcount ob + 1\<rparr>) s))
      else Inr s)"

fun foldE :: "('a \<Rightarrow> 's \<Rightarrow> err + 's) \<Rightarrow> 'a list \<Rightarrow> 's \<Rightarrow> err + 's" where
  "foldE f [] s = Inr s"
| "foldE f (x # xs) s = bindE (f x s) (foldE f xs)"

text \<open>
  Destroying the last pointer erases the object; deleting the node in memory destroys the pointers
  inside it.  The fuel is the depth of that recursion.
\<close>

definition erase_obj ::
  "(u64 \<Rightarrow> ('n, 'b, 'c) swap_space \<Rightarrow> err + ('n, 'b, 'c) swap_space) \<Rightarrow> ('n, 'b, 'c) env \<Rightarrow> u64
   \<Rightarrow> ('n, 'b, 'c) swap_space \<Rightarrow> err + ('n, 'b, 'c) swap_space" where
  "erase_obj destroy env tgt s =
     bindE (obj_at tgt s) (\<lambda>ob.
     let s1 = s\<lparr>objects := (objects s)(tgt := None), lru_pqueue := lru_erase (access_time s) tgt (lru_pqueue s)\<rparr> in
     bindE (case target ob of None \<Rightarrow> Inr s1 | Some n \<Rightarrow> foldE destroy (pointers env n) s1) (\<lambda>s2.
     let s3 = s2\<lparr>current_in_memory_objects := current_in_memory_objects s2 - 1\<rparr> in
     if bsid ob > 0 then
       bindE (bs_deallocate (disk env) (bsid ob) (backstore s3)) (\<lambda>bs. Inr (s3\<lparr>backstore := bs\<rparr>))
     else Inr s3))"

primrec depoint ::
  "nat \<Rightarrow> ('n, 'b, 'c) env \<Rightarrow> u64 \<Rightarrow> ('n, 'b, 'c) swap_space \<Rightarrow> err + ('n, 'b, 'c) swap_space" where
  "depoint 0 env tgt s = Inl Out_Of_Fuel"
| "depoint (Suc fuel) env tgt s =
     (if tgt = 0 then Inr s
      else
        bindE (obj_at tgt s) (\<lambda>ob.
        bindE (assertE (refcount ob > 0) (Assertion ''obj->refcount > 0'')) (\<lambda>_.
        let s1 = set_obj tgt (ob\<lparr>refcount := refcount ob - 1\<rparr>) s in
        if refcount ob - 1 = 0 then
          bindE (if target ob = None then
                   bindE (assertE (bsid ob > 0) (Assertion ''obj->bsid > 0'')) (\<lambda>_.
                   if obj_is_leaf ob then Inr s1 else load env tgt s1)
                 else Inr s1) (\<lambda>s2.
          erase_obj (depoint fuel env) env tgt s2)
        else Inr s1)))"

text \<open>\<open>pointer::operator=\<close>, on pointers that are not the same object.\<close>

definition pointer_assign ::
  "nat \<Rightarrow> ('n, 'b, 'c) env \<Rightarrow> u64 \<Rightarrow> u64 \<Rightarrow> ('n, 'b, 'c) swap_space \<Rightarrow> err + ('n, 'b, 'c) swap_space" where
  "pointer_assign fuel env old other s = bindE (depoint fuel env old s) (pointer_copy other)"

definition pointer_is_in_memory :: "u64 \<Rightarrow> ('n, 'b, 'c) swap_space \<Rightarrow> bool" where
  "pointer_is_in_memory tgt s = (case objects s tgt of None \<Rightarrow> False | Some ob \<Rightarrow> tgt > 0 \<and> target ob \<noteq> None)"

definition pointer_is_dirty :: "u64 \<Rightarrow> ('n, 'b, 'c) swap_space \<Rightarrow> bool" where
  "pointer_is_dirty tgt s =
     (case objects s tgt of None \<Rightarrow> False | Some ob \<Rightarrow> tgt > 0 \<and> target ob \<noteq> None \<and> target_is_dirty ob)"

text \<open>\<open>swap_space::allocate\<close>: an identifier is drawn and thrown away, and the node identifier the server sends is only logged.\<close>

definition allocate :: "('n, 'b, 'c) env \<Rightarrow> 'n \<Rightarrow> ('n, 'b, 'c) swap_space \<Rightarrow> err + u64 \<times> ('n, 'b, 'c) swap_space" where
  "allocate env tgt s =
     bindE (incr (next_id s)) (\<lambda>i.
     bindE (sc_GetNodeId (client env) 0 0 [] (sc s)) (\<lambda>(node_id, c).
     bindE (incr i) (\<lambda>i2.
     bindE (incr (next_access_time s)) (\<lambda>t.
     let ob = \<lparr>target = Some tgt, bsid = 0, obj_is_leaf = False, refcount = 1,
              last_access = next_access_time s, target_is_dirty = True, pincount = 0\<rparr> in
     bindE (assertE (objects s i = None) (Assertion ''objects.count(target) == 0'')) (\<lambda>_.
     let s1 = set_obj i ob (s\<lparr>sc := c, next_id := i2, next_access_time := t\<rparr>);
         s2 = s1\<lparr>lru_pqueue := lru_insert (access_time s1) i (lru_pqueue s1),
                 current_in_memory_objects := current_in_memory_objects s1 + 1\<rparr> in
     bindE (maybe_evict_something env s2) (\<lambda>s3. Inr (i, s3)))))))"

subsection \<open>The calls the tree makes\<close>

definition obj_target :: "u64 \<Rightarrow> ('n, 'b, 'c) swap_space \<Rightarrow> 'n option" where
  "obj_target i s = (case objects s i of None \<Rightarrow> None | Some ob \<Rightarrow> target ob)"

definition obj_assign :: "u64 \<Rightarrow> 'n \<Rightarrow> ('n, 'b, 'c) swap_space \<Rightarrow> ('n, 'b, 'c) swap_space" where
  "obj_assign i n s = (case objects s i of None \<Rightarrow> s | Some ob \<Rightarrow> set_obj i (ob\<lparr>target := Some n\<rparr>) s)"

definition space_ops :: "('n, 'b, 'c) env \<Rightarrow> (('n, 'b, 'c) swap_space, u64, 'n) swap_ops" where
  "space_ops env =
     \<lparr>ss_allocate = allocate env, ss_enter = pin_access env, ss_leave = unpin env,
      ss_object = obj_target, ss_store = obj_assign,
      ss_depoint = (\<lambda>p s. depoint (Suc (unat (next_id s))) env p s),
      ss_is_dirty = pointer_is_dirty, ss_is_in_memory = pointer_is_in_memory\<rparr>"

end
