(* ===== verification/Swap_Correct.thy ===== *)
theory Swap_Correct
  imports Swap_Space
begin

text \<open>
  The swap space keeps its contract.  The locale \<open>object_cache\<close> says what it relies on: a backing
  store, a storage client and a way to write and read a \<open>Referent\<close>.  \<open>view\<close> is what the table of
  objects stands for, in memory or on disk, and \<open>sinv\<close> is the invariant: every object that is
  evicted or clean has an image on disk from which it can be read back, no two objects share a
  file or an access time, and the queue holds the objects in memory in the order of their access
  times.  That evicting and loading do not change the view is what makes the cache invisible; the
  contract \<open>swap_contract\<close> of the tree follows.
\<close>

lemma lru_insert_last: "(\<And>j. j \<in> set q \<Longrightarrow> at j < at i) \<Longrightarrow> lru_insert at i q = q @ [i]"
proof (induction q)
  case (Cons j q)
  then have "at j < at i" "\<not> at i < at j" by (auto dest: order_less_not_sym)
  then show ?case using Cons by simp
qed simp

lemma obj_at_Some: "objects s i = Some ob \<Longrightarrow> obj_at i s = Inr ob"
  by (simp add: obj_at_def)

locale object_cache = disk: backing_contract "disk env" contents binv + net: client_contract "client env" cinv cerr
  for env :: "('n, 'b, 'c) env" and contents :: "'b \<Rightarrow> u64 \<Rightarrow> string option" and binv :: "'b \<Rightarrow> bool"
    and cinv :: "'c \<Rightarrow> bool" and cerr :: "err \<Rightarrow> bool" +
  fixes storable :: "'n \<Rightarrow> bool"
  assumes referent_lawful:
    "lawful_codec (referent env L) (\<lambda>n. storable n \<and> (\<forall>q\<in>set (pointers env n). q > 0 \<and> L q))"
    and referent_text: "\<forall>q\<in>set (pointers env n). q > 0 \<and> L q \<Longrightarrow> \<forall>q\<in>set (pointers env n). q > 0 \<and> L' q \<Longrightarrow>
      to_stream (referent env L) n = to_stream (referent env L') n"
begin

definition swap_err :: "err \<Rightarrow> bool" where
  "swap_err e \<longleftrightarrow> e = Counter_Wrap \<or> cerr e"

definition good :: "(u64 \<Rightarrow> bool) \<Rightarrow> 'n \<Rightarrow> bool" where
  "good L n \<longleftrightarrow> storable n \<and> (\<forall>q\<in>set (pointers env n). q > 0 \<and> L q)"

definition image :: "(u64 \<Rightarrow> string option) \<Rightarrow> (u64 \<Rightarrow> bool) \<Rightarrow> 'n \<Rightarrow> u64 \<Rightarrow> bool" where
  "image C L n b \<longleftrightarrow> b > 0 \<and> good L n \<and>
     (\<exists>t. C b = Some t \<and> to_stream (referent env (\<lambda>_. True)) n = Inr t \<and> length t \<le> BUFFER_SIZE)"

definition obj_ok :: "(u64 \<Rightarrow> string option) \<Rightarrow> (u64 \<Rightarrow> bool) \<Rightarrow> 'n ss_obj \<Rightarrow> bool" where
  "obj_ok C L ob \<longleftrightarrow> refcount ob = 1 \<and> (bsid ob > 0 \<longrightarrow> C (bsid ob) \<noteq> None) \<and>
     (case target ob of
        Some n \<Rightarrow> good L n \<and> (\<not> target_is_dirty ob \<longrightarrow> image C L n (bsid ob))
      | None \<Rightarrow> pincount ob = 0 \<and> \<not> target_is_dirty ob \<and>
          (\<exists>n. image C L n (bsid ob) \<and> obj_is_leaf ob = (pointers env n = [])))"

definition decode :: "string \<Rightarrow> 'n option" where
  "decode t = (case from_stream (referent env (\<lambda>_. True)) t of Inl _ \<Rightarrow> None | Inr (n, _) \<Rightarrow> Some n)"

definition node_at :: "(u64 \<Rightarrow> string option) \<Rightarrow> 'n ss_obj \<Rightarrow> 'n option" where
  "node_at C ob = (case target ob of
     Some n \<Rightarrow> Some n
   | None \<Rightarrow> (case C (bsid ob) of None \<Rightarrow> None | Some t \<Rightarrow> decode t))"

definition view :: "('n, 'b, 'c) swap_space \<Rightarrow> u64 \<Rightarrow> 'n option" where
  "view s i = (case objects s i of None \<Rightarrow> None | Some ob \<Rightarrow> node_at (contents (backstore s)) ob)"

definition pins :: "('n, 'b, 'c) swap_space \<Rightarrow> u64 \<Rightarrow> nat" where
  "pins s i = (case objects s i of None \<Rightarrow> 0 | Some ob \<Rightarrow> unat (pincount ob))"

definition queue_ok :: "('n, 'b, 'c) swap_space \<Rightarrow> bool" where
  "queue_ok s \<longleftrightarrow> sorted_wrt (\<lambda>i j. access_time s i < access_time s j) (lru_pqueue s) \<and>
     set (lru_pqueue s) = {i. obj_target i s \<noteq> None}"

definition entry_ok :: "('n, 'b, 'c) swap_space \<Rightarrow> u64 \<Rightarrow> 'n ss_obj \<Rightarrow> bool" where
  "entry_ok s i ob \<longleftrightarrow> 0 < i \<and> i < next_id s \<and> last_access ob < next_access_time s \<and>
     obj_ok (contents (backstore s)) (live s) ob"

definition apart :: "'n ss_obj \<Rightarrow> 'n ss_obj \<Rightarrow> bool" where
  "apart a b \<longleftrightarrow> last_access a \<noteq> last_access b \<and> (bsid a > 0 \<longrightarrow> bsid a \<noteq> bsid b)"

definition sinv :: "('n, 'b, 'c) swap_space \<Rightarrow> bool" where
  "sinv s \<longleftrightarrow> binv (backstore s) \<and> cinv (sc s) \<and> 0 < next_id s \<and>
     (\<forall>i ob. objects s i = Some ob \<longrightarrow> entry_ok s i ob) \<and>
     (\<forall>i j a b. objects s i = Some a \<longrightarrow> objects s j = Some b \<longrightarrow> i \<noteq> j \<longrightarrow> apart a b) \<and> queue_ok s"

lemma sinvD:
  assumes "sinv s"
  shows "binv (backstore s)" and "cinv (sc s)" and "0 < next_id s"
    and "objects s i = Some ob \<Longrightarrow> entry_ok s i ob"
    and "objects s i = Some a \<Longrightarrow> objects s j = Some b \<Longrightarrow> i \<noteq> j \<Longrightarrow> apart a b"
    and "queue_ok s"
  using assms unfolding sinv_def by blast+

subsection \<open>Images\<close>

lemma image_read:
  assumes "image C L n b"
  shows "\<exists>t r. C b = Some t \<and> from_stream (referent env L) t = Inr (n, r) \<and> decode t = Some n"
proof -
  obtain t where t: "C b = Some t" "to_stream (referent env (\<lambda>_. True)) n = Inr t" "length t < 2 ^ 31"
    and n: "storable n" "\<forall>q\<in>set (pointers env n). q > 0 \<and> L q"
    using assms by (auto simp: image_def good_def BUFFER_SIZE_def)
  have tL: "to_stream (referent env L) n = Inr t" using referent_text[of n L "\<lambda>_. True"] t(2) n(2) by simp
  obtain r where "from_stream (referent env L) (t @ []) = Inr (n, r)"
    using lawful_codec.round_trip[OF referent_lawful _ tL t(3)] n by blast
  moreover obtain r' where "from_stream (referent env (\<lambda>_. True)) (t @ []) = Inr (n, r')"
    using lawful_codec.round_trip[OF referent_lawful _ t(2,3)] n by blast
  ultimately show ?thesis using t(1) by (simp add: decode_def)
qed

lemma good_mono: "good L n \<Longrightarrow> (\<And>q. q \<in> set (pointers env n) \<Longrightarrow> L q \<Longrightarrow> L' q) \<Longrightarrow> good L' n"
  by (auto simp: good_def)

lemma image_mono:
  "image C L n b \<Longrightarrow> C' b = C b \<Longrightarrow> (\<And>q. q \<in> set (pointers env n) \<Longrightarrow> L q \<Longrightarrow> L' q) \<Longrightarrow> image C' L' n b"
  by (auto simp: image_def intro: good_mono)

lemma node_at_image: "target ob = None \<Longrightarrow> image C L n (bsid ob) \<Longrightarrow> node_at C ob = Some n"
  using image_read[of C L n "bsid ob"] by (auto simp: node_at_def)

lemma obj_ok_node:
  assumes "obj_ok C L ob"
  obtains n where "node_at C ob = Some n" and "good L n"
    and "target ob = Some n \<or> target ob = None \<and> pincount ob = 0 \<and> \<not> target_is_dirty ob \<and>
      image C L n (bsid ob) \<and> obj_is_leaf ob = (pointers env n = [])"
proof (cases "target ob")
  case None
  then obtain n where n: "image C L n (bsid ob)" "pincount ob = 0" "\<not> target_is_dirty ob" "obj_is_leaf ob = (pointers env n = [])"
    using assms by (auto simp: obj_ok_def)
  then show ?thesis using that[OF node_at_image[OF None n(1)]] None by (auto simp: image_def)
next
  case (Some n)
  then show ?thesis using assms that[of n] by (auto simp: obj_ok_def node_at_def)
qed

text \<open>What the invariant says of an object depends on its own file, and on the nodes it points to being live.\<close>

lemma obj_ok_mono:
  assumes ok: "obj_ok C L ob" and C: "bsid ob > 0 \<Longrightarrow> C' (bsid ob) = C (bsid ob)"
    and L: "\<And>n q. node_at C ob = Some n \<Longrightarrow> q \<in> set (pointers env n) \<Longrightarrow> L q \<Longrightarrow> L' q"
  shows "obj_ok C' L' ob" and "node_at C' ob = node_at C ob"
proof -
  obtain n where n: "node_at C ob = Some n" "good L n"
    and t: "target ob = Some n \<or> target ob = None \<and> pincount ob = 0 \<and> \<not> target_is_dirty ob \<and>
      image C L n (bsid ob) \<and> obj_is_leaf ob = (pointers env n = [])"
    using obj_ok_node[OF ok] by blast
  have g: "good L' n" using n L good_mono by blast
  have im: "image C' L' n (bsid ob)" if "image C L n (bsid ob)"
    using image_mono[OF that] C L n(1) that by (auto simp: image_def)
  show "obj_ok C' L' ob" using ok t g im C by (auto simp: obj_ok_def)
  show "node_at C' ob = node_at C ob" using t C by (auto simp: node_at_def image_def)
qed

subsection \<open>Changing one object\<close>

text \<open>A change of the object \<open>i\<close> alone, which may move its file: the invariant of the others and their nodes are kept.\<close>

lemma sinv_step:
  assumes inv: "sinv s" and old: "objects s i = Some ob"
    and new: "objects s' = (objects s)(i \<mapsto> ob')" "next_id s' = next_id s" "next_access_time s \<le> next_access_time s'"
    and bc: "binv (backstore s')" "cinv (sc s')"
    and ob': "last_access ob' < next_access_time s'" "obj_ok (contents (backstore s')) (live s) ob'"
    and ap: "\<And>j a. objects s j = Some a \<Longrightarrow> j \<noteq> i \<Longrightarrow> apart a ob' \<and> apart ob' a"
    and C: "\<And>j a. objects s j = Some a \<Longrightarrow> j \<noteq> i \<Longrightarrow> bsid a > 0 \<Longrightarrow>
      contents (backstore s') (bsid a) = contents (backstore s) (bsid a)"
    and q: "queue_ok s'"
  shows "sinv s'" and "view s' = (view s)(i := node_at (contents (backstore s')) ob')"
    and "pins s' = (pins s)(i := unat (pincount ob'))"
    and "pointer_is_dirty j s' = (if j = i then target ob' \<noteq> None \<and> target_is_dirty ob' else pointer_is_dirty j s)"
proof -
  let ?C = "contents (backstore s)" and ?C' = "contents (backstore s')"
  have L: "live s' = live s" using new(1) old by (auto simp: live_def fun_eq_iff)
  have e: "entry_ok s i ob" using sinvD(4)[OF inv old] .
  have other: "entry_ok s' j a \<and> node_at ?C' a = node_at ?C a" if j: "objects s j = Some a" "j \<noteq> i" for j a
  proof -
    have a: "entry_ok s j a" using sinvD(4)[OF inv j(1)] .
    have "obj_ok ?C' (live s) a" "node_at ?C' a = node_at ?C a"
      using a C[OF j] by (auto simp: entry_ok_def intro: obj_ok_mono[of ?C "live s"])
    then show ?thesis using a new by (auto simp: entry_ok_def L)
  qed
  show "sinv s'" unfolding sinv_def
  proof (intro conjI allI impI)
    fix j a assume "objects s' j = Some a"
    then show "entry_ok s' j a" using other e ob' new by (cases "j = i") (auto simp: entry_ok_def L)
  next
    fix j k a b assume "objects s' j = Some a" "objects s' k = Some b" "j \<noteq> k"
    then show "apart a b" using sinvD(5)[OF inv] ap new(1) by (auto split: if_splits)
  qed (use bc q new sinvD(3)[OF inv] in auto)
  show "view s' = (view s)(i := node_at ?C' ob')"
    using other new(1) by (auto simp: view_def fun_eq_iff split: option.splits)
  show "pins s' = (pins s)(i := unat (pincount ob'))" using new(1) by (auto simp: pins_def fun_eq_iff)
  have "i > 0" using e by (simp add: entry_ok_def)
  then show "pointer_is_dirty j s' = (if j = i then target ob' \<noteq> None \<and> target_is_dirty ob' else pointer_is_dirty j s)"
    using new(1) by (auto simp: pointer_is_dirty_def)
qed

lemma queue_erase:
  assumes inv: "sinv s" and old: "objects s i = Some ob"
  shows "set (lru_erase (access_time s) i (lru_pqueue s)) = {j. obj_target j s \<noteq> None} - {i}"
    and "sorted_wrt (\<lambda>i j. access_time s i < access_time s j) (lru_erase (access_time s) i (lru_pqueue s))"
proof -
  note q = sinvD(6)[OF inv, unfolded queue_ok_def]
  have "access_time s j \<noteq> access_time s i" if j: "obj_target j s \<noteq> None" "j \<noteq> i" for j
  proof -
    obtain a where "objects s j = Some a" using j(1) by (cases "objects s j") (auto simp: obj_target_def)
    then show ?thesis using sinvD(5)[OF inv _ old j(2)] old by (auto simp: access_time_def apart_def)
  qed
  then show "set (lru_erase (access_time s) i (lru_pqueue s)) = {j. obj_target j s \<noteq> None} - {i}"
    using q by (auto simp: lru_erase_def)
  show "sorted_wrt (\<lambda>i j. access_time s i < access_time s j) (lru_erase (access_time s) i (lru_pqueue s))"
    using q by (auto simp: lru_erase_def sorted_wrt_filter)
qed

lemma sorted_access_cong:
  assumes "sorted_wrt (\<lambda>i j. access_time s i < access_time s j) q" and "\<And>j. j \<in> set q \<Longrightarrow> access_time s' j = access_time s j"
  shows "sorted_wrt (\<lambda>i j. access_time s' i < access_time s' j) q"
  using assms(1) by (rule sorted_wrt_mono_rel[rotated]) (simp add: assms(2))

lemma queue_ok_cong:
  assumes "queue_ok s" and "lru_pqueue s' = lru_pqueue s" and "\<And>j. access_time s' j = access_time s j"
    and "\<And>j. obj_target j s' = None \<longleftrightarrow> obj_target j s = None"
  shows "queue_ok s'"
  using assms by (auto simp: queue_ok_def intro: sorted_access_cong)

subsection \<open>Evicting\<close>

text \<open>What a step that only moves objects between memory and disk keeps.\<close>

definition settles :: "('n, 'b, 'c) swap_space \<Rightarrow> ('n, 'b, 'c) swap_space \<Rightarrow> bool" where
  "settles s s' \<longleftrightarrow> sinv s' \<and> view s' = view s \<and> pins s' = pins s \<and> next_id s' = next_id s \<and>
     (\<forall>q. pins s q > 0 \<and> pointer_is_dirty q s \<longrightarrow> pointer_is_dirty q s') \<and>
     (\<forall>q. pointer_is_dirty q s' \<longrightarrow> pointer_is_dirty q s)"

lemma settles_refl: "sinv s \<Longrightarrow> settles s s"
  by (simp add: settles_def)

lemma settlesD:
  assumes "settles s s'"
  shows "sinv s'" and "view s' = view s" and "pins s' = pins s" and "next_id s' = next_id s"
    and "\<And>q. pins s q > 0 \<Longrightarrow> pointer_is_dirty q s \<Longrightarrow> pointer_is_dirty q s'"
    and "\<And>q. pointer_is_dirty q s' \<Longrightarrow> pointer_is_dirty q s"
  using assms unfolding settles_def by blast+

lemma settlesI:
  assumes "sinv s'" and "view s' = view s" and "pins s' = pins s" and "next_id s' = next_id s"
    and "\<And>q. pins s q > 0 \<Longrightarrow> pointer_is_dirty q s \<Longrightarrow> pointer_is_dirty q s'"
    and "\<And>q. pointer_is_dirty q s' \<Longrightarrow> pointer_is_dirty q s"
  shows "settles s s'"
  unfolding settles_def using assms by blast

lemma settles_trans:
  assumes 1: "settles s t" and 2: "settles t u"
  shows "settles s u"
proof (rule settlesI)
  show "pointer_is_dirty q u" if "pins s q > 0" "pointer_is_dirty q s" for q
    using settlesD(5)[OF 2, of q] settlesD(5)[OF 1 that] settlesD(3)[OF 1] that(1) by simp
  show "pointer_is_dirty q s" if "pointer_is_dirty q u" for q
    using settlesD(6)[OF 1 settlesD(6)[OF 2 that]] .
qed (simp_all only: settlesD(1)[OF 2] settlesD(2,3,4)[OF 2] settlesD(2,3,4)[OF 1])

text \<open>Writing an object back leaves it clean, with an image on disk.\<close>

lemma wp_write_back:
  assumes inv: "sinv s" and old: "objects s i = Some ob" "target ob = Some n"
  shows "wpE (write_back env i (s\<lparr>lru_pqueue := q\<rparr>)) swap_err (\<lambda>s'. \<exists>b.
     s' = s\<lparr>lru_pqueue := q, backstore := backstore s', sc := sc s',
            objects := (objects s)(i \<mapsto> ob\<lparr>obj_is_leaf := (pointers env n = []), bsid := b, target_is_dirty := False\<rparr>)\<rparr> \<and>
     binv (backstore s') \<and> cinv (sc s') \<and> image (contents (backstore s')) (live s) n b \<and>
     (\<forall>j a. objects s j = Some a \<longrightarrow> j \<noteq> i \<longrightarrow> bsid a \<noteq> b \<and>
        (bsid a > 0 \<longrightarrow> contents (backstore s') (bsid a) = contents (backstore s) (bsid a))))"
proof -
  let ?C = "contents (backstore s)" and ?s = "s\<lparr>lru_pqueue := q\<rparr>"
  note bc = sinvD(1,2)[OF inv]
  have ok: "obj_ok ?C (live s) ob" using sinvD(4)[OF inv old(1)] by (simp add: entry_ok_def)
  have g: "good (live s) n" using ok old(2) by (simp add: obj_ok_def)
  have apt: "bsid a > 0 \<Longrightarrow> bsid a \<noteq> bsid ob" "bsid ob > 0 \<Longrightarrow> bsid a \<noteq> bsid ob" if "objects s j = Some a" "j \<noteq> i" for j a
    using sinvD(5)[OF inv that(1) old(1) that(2)] sinvD(5)[OF inv old(1) that(1)] that(2) by (auto simp: apart_def)
  have has: "?C (bsid a) \<noteq> None" if "objects s j = Some a" "bsid a > 0" for j a
    using sinvD(4)[OF inv that(1)] that(2) by (simp add: entry_ok_def obj_ok_def)
  obtain t where t: "to_stream (referent env (live s)) n = Inr t"
    using lawful_codec.writes[OF referent_lawful, of n "live s"] g by (auto simp: good_def)
  then have tT: "to_stream (referent env (\<lambda>_. True)) n = Inr t"
    using referent_text[of n "live s" "\<lambda>_. True"] g by (auto simp: good_def)
  have at: "obj_at i ?s = Inr ob" "live ?s = live s" using old(1) by (simp_all add: obj_at_def live_def fun_eq_iff)
  show ?thesis
  proof (cases "target_is_dirty ob")
    case False
    then have im: "image ?C (live s) n (bsid ob)" using ok old(2) by (simp add: obj_ok_def)
    have same: "ob\<lparr>obj_is_leaf := x, target_is_dirty := False\<rparr> = ob\<lparr>obj_is_leaf := x\<rparr>" for x
      using False by (cases ob) simp
    show ?thesis
      using False im bc apt at old(2) t
      by (auto simp: write_back_def set_obj_def image_def same intro!: exI[of _ "bsid ob"])
  next
    case True
    let ?Q = "\<lambda>s'. \<exists>b. s' = s\<lparr>lru_pqueue := q, backstore := backstore s', sc := sc s',
        objects := (objects s)(i \<mapsto> ob\<lparr>obj_is_leaf := (pointers env n = []), bsid := b, target_is_dirty := False\<rparr>)\<rparr> \<and>
      binv (backstore s') \<and> cinv (sc s') \<and> image (contents (backstore s')) (live s) n b \<and>
      (\<forall>j a. objects s j = Some a \<longrightarrow> j \<noteq> i \<longrightarrow> bsid a \<noteq> b \<and>
         (bsid a > 0 \<longrightarrow> contents (backstore s') (bsid a) = ?C (bsid a)))"
    have fin: "wpE (bindE (if bsid ob > 0 then bs_deallocate (disk env) (bsid ob) bs2 else Inr bs2) (\<lambda>bs3.
         Inr (set_obj i (ob\<lparr>obj_is_leaf := (pointers env n = [])\<rparr>\<lparr>bsid := b, target_is_dirty := False\<rparr>)
           (?s\<lparr>backstore := bs3, sc := c\<rparr>)))) swap_err ?Q"
      if b: "b > 0" "?C b = None" and bs2: "binv bs2" "contents bs2 = ?C(b \<mapsto> t)" and c: "cinv c" and len: "length t \<le> BUFFER_SIZE" for b bs2 c
    proof -
      have nb: "bsid a \<noteq> b" if "objects s j = Some a" for j a using has[OF that] b by auto
      have "\<exists>bs3. (if bsid ob > 0 then bs_deallocate (disk env) (bsid ob) bs2 else Inr bs2) = Inr bs3 \<and> binv bs3 \<and>
          contents bs3 = (if bsid ob > 0 then (contents bs2)(bsid ob := None) else contents bs2)"
      proof (cases "bsid ob > 0")
        case True
        then obtain t0 where "contents bs2 (bsid ob) = Some t0" using has[OF old(1)] nb[OF old(1)] bs2(2) by auto
        then show ?thesis using disk.bs_deallocate_spec[OF bs2(1)] True by fastforce
      qed (use bs2 in auto)
      then obtain bs3 where bs3: "(if bsid ob > 0 then bs_deallocate (disk env) (bsid ob) bs2 else Inr bs2) = Inr bs3" "binv bs3"
        and C3: "contents bs3 = (if bsid ob > 0 then (contents bs2)(bsid ob := None) else contents bs2)" by blast
      have "image (contents bs3) (live s) n b" using b bs2(2) C3 nb[OF old(1)] g tT len by (auto simp: image_def)
      moreover have "contents bs3 (bsid a) = ?C (bsid a)" if "objects s j = Some a" "j \<noteq> i" "bsid a > 0" for j a
        using nb[OF that(1)] apt(1)[OF that] C3 bs2(2) by auto
      ultimately show ?thesis
        unfolding bs3(1) bindE_simps wpE_simps set_obj_def using bs3(2) c nb by (intro exI[of _ b]) auto
    qed
    have dirty: "write_back env i ?s =
       bindE (bindE (bs_allocate (disk env) (length t) (backstore s)) (\<lambda>(b, bs1). bindE (bs_write (disk env) b t bs1) (\<lambda>bs2. Inr (b, bs2)))) (\<lambda>(b, bs2).
       bindE (sc_EvictNode (client env) 0 0 i t (sc s)) (\<lambda>(_, c).
       bindE (if bsid ob > 0 then bs_deallocate (disk env) (bsid ob) bs2 else Inr bs2) (\<lambda>bs3.
       Inr (set_obj i (ob\<lparr>obj_is_leaf := (pointers env n = [])\<rparr>\<lparr>bsid := b, target_is_dirty := False\<rparr>)
         (?s\<lparr>backstore := bs3, sc := c\<rparr>)))))"
      using True t at old(2)
      by (cases "bs_allocate (disk env) (length t) (backstore s)") (auto simp: write_back_def Let_def bindE_def split: sum.splits)
    let ?R = "\<lambda>(b, bs2). b > 0 \<and> ?C b = None \<and> binv bs2 \<and> contents bs2 = ?C(b \<mapsto> t)"
    have new: "wpE (bindE (bs_allocate (disk env) (length t) (backstore s)) (\<lambda>(b, bs1). bindE (bs_write (disk env) b t bs1) (\<lambda>bs2. Inr (b, bs2)))) swap_err ?R"
      by (rule wpE_mono[OF disk.wp_write_new[OF bc(1), where Q = ?R]]) (auto simp: swap_err_def)
    have evict: "wpE (sc_EvictNode (client env) 0 0 i t (sc s)) swap_err (\<lambda>(_, c). cinv c \<and> length t \<le> BUFFER_SIZE)"
      by (rule wpE_mono[OF net.EvictNode_spec[OF bc(2)]]) (auto simp: swap_err_def)
    show ?thesis
      unfolding dirty
    proof (rule wpE_bind_rule[OF new])
      fix x assume "?R x"
      then obtain b bs2 where x: "x = (b, bs2)" "b > 0" "?C b = None" "binv bs2" "contents bs2 = ?C(b \<mapsto> t)" by (cases x) auto
      show "wpE (case x of (b, bs2) \<Rightarrow> bindE (sc_EvictNode (client env) 0 0 i t (sc s)) (\<lambda>(_, c).
         bindE (if bsid ob > 0 then bs_deallocate (disk env) (bsid ob) bs2 else Inr bs2) (\<lambda>bs3.
         Inr (set_obj i (ob\<lparr>obj_is_leaf := (pointers env n = [])\<rparr>\<lparr>bsid := b, target_is_dirty := False\<rparr>)
           (?s\<lparr>backstore := bs3, sc := c\<rparr>))))) swap_err ?Q"
        unfolding x(1) prod.case
      proof (rule wpE_bind_rule[OF evict])
        fix y :: "bool \<times> 'c" assume "case y of (_, c) \<Rightarrow> cinv c \<and> length t \<le> BUFFER_SIZE"
        then obtain v c where y: "y = (v, c)" "cinv c" "length t \<le> BUFFER_SIZE" by (cases y) auto
        show "wpE (case y of (_, c) \<Rightarrow> bindE (if bsid ob > 0 then bs_deallocate (disk env) (bsid ob) bs2 else Inr bs2) (\<lambda>bs3.
           Inr (set_obj i (ob\<lparr>obj_is_leaf := (pointers env n = [])\<rparr>\<lparr>bsid := b, target_is_dirty := False\<rparr>)
             (?s\<lparr>backstore := bs3, sc := c\<rparr>)))) swap_err ?Q"
          unfolding y(1) prod.case by (rule fin[OF x(2-5) y(2,3)])
      qed
    qed
  qed
qed

lemma settles_step:
  assumes inv: "sinv s" and old: "objects s i = Some ob"
    and new: "objects s' = (objects s)(i \<mapsto> ob')" "next_id s' = next_id s" "next_access_time s \<le> next_access_time s'"
    and bc: "binv (backstore s')" "cinv (sc s')"
    and ob': "last_access ob' < next_access_time s'" "obj_ok (contents (backstore s')) (live s) ob'"
    and ap: "\<And>j a. objects s j = Some a \<Longrightarrow> j \<noteq> i \<Longrightarrow> apart a ob' \<and> apart ob' a"
    and C: "\<And>j a. objects s j = Some a \<Longrightarrow> j \<noteq> i \<Longrightarrow> bsid a > 0 \<Longrightarrow>
      contents (backstore s') (bsid a) = contents (backstore s) (bsid a)"
    and q: "queue_ok s'"
    and same: "view s i = node_at (contents (backstore s')) ob'" "pincount ob' = pincount ob"
    and dirt: "pincount ob > 0 \<Longrightarrow> pointer_is_dirty i s \<Longrightarrow> target ob' \<noteq> None \<and> target_is_dirty ob'"
      "target ob' \<noteq> None \<Longrightarrow> target_is_dirty ob' \<Longrightarrow> pointer_is_dirty i s"
  shows "settles s s'"
proof -
  note st = sinv_step[OF inv old new bc ob' ap C q]
  have p: "pins s i = unat (pincount ob')" using old same(2) by (simp add: pins_def)
  have p0: "pins s i > 0 \<longleftrightarrow> pincount ob > 0" using p same(2) by (simp add: unat_gt_0 word_gt_0)
  have d: "pointer_is_dirty j s' = (if j = i then target ob' \<noteq> None \<and> target_is_dirty ob' else pointer_is_dirty j s)" for j
    using st(4) .
  show ?thesis
  proof (rule settlesI)
    show "view s' = view s" using st(2) unfolding same(1)[symmetric] fun_upd_triv .
    show "pins s' = pins s" using st(3) unfolding p[symmetric] fun_upd_triv .
    show "pointer_is_dirty k s'" if "pins s k > 0" "pointer_is_dirty k s" for k
      using that d[of k] dirt(1) p0 by (cases "k = i") simp_all
    show "pointer_is_dirty k s" if "pointer_is_dirty k s'" for k
      using that d[of k] dirt(2) by (cases "k = i") simp_all
  qed (use st(1) new(2) in auto)
qed

lemma wp_evict_one:
  assumes inv: "sinv s" and old: "objects s i = Some ob" "target ob = Some n" and pin: "pincount ob = 0"
  shows "wpE (evict_one env i s) swap_err (settles s)"
proof -
  let ?q = "lru_erase (access_time s) i (lru_pqueue s)"
  let ?ob = "\<lambda>b. ob\<lparr>obj_is_leaf := (pointers env n = []), bsid := b, target_is_dirty := False\<rparr>"
  show ?thesis
    unfolding evict_one_def
  proof (rule wpE_bind_rule[OF wp_write_back[OF inv old, of ?q]], elim exE conjE)
    fix s1 b assume s1: "s1 = s\<lparr>lru_pqueue := ?q, backstore := backstore s1, sc := sc s1, objects := (objects s)(i \<mapsto> ?ob b)\<rparr>"
      and bc: "binv (backstore s1)" "cinv (sc s1)" and im: "image (contents (backstore s1)) (live s) n b"
      and oth: "\<forall>j a. objects s j = Some a \<longrightarrow> j \<noteq> i \<longrightarrow> bsid a \<noteq> b \<and>
        (bsid a > 0 \<longrightarrow> contents (backstore s1) (bsid a) = contents (backstore s) (bsid a))"
    have o1: "objects s1 = (objects s)(i \<mapsto> ?ob b)" "lru_pqueue s1 = ?q" "next_id s1 = next_id s" "next_access_time s1 = next_access_time s"
      using arg_cong[OF s1, of objects] arg_cong[OF s1, of lru_pqueue] arg_cong[OF s1, of next_id] arg_cong[OF s1, of next_access_time] by simp_all
    define ob' where "ob' = ?ob b\<lparr>target := None\<rparr>"
    define s' where "s' = set_obj i ob' (s1\<lparr>current_in_memory_objects := current_in_memory_objects s1 - 1\<rparr>)"
    have at: "obj_at i s1 = Inr (?ob b)" by (rule obj_at_Some) (simp add: o1)
    have s': "objects s' = (objects s)(i \<mapsto> ob')" "lru_pqueue s' = ?q" "next_id s' = next_id s"
      "next_access_time s' = next_access_time s" "backstore s' = backstore s1" "sc s' = sc s1"
      by (simp_all add: s'_def set_obj_def o1)
    have ob': "target ob' = None" "bsid ob' = b" "last_access ob' = last_access ob" "pincount ob' = 0"
      by (simp_all add: ob'_def pin)
    have e: "entry_ok s i ob" using sinvD(4)[OF inv old(1)] .
    have "settles s s'"
    proof (rule settles_step[OF inv old(1) s'(1,3)])
      show "queue_ok s'" unfolding queue_ok_def s'(2)
      proof
        show "sorted_wrt (\<lambda>i j. access_time s' i < access_time s' j) ?q"
          using queue_erase(2)[OF inv old(1)] by (rule sorted_access_cong) (use old(1) s'(1) ob' in \<open>simp add: access_time_def\<close>)
        show "set ?q = {j. obj_target j s' \<noteq> None}"
          unfolding queue_erase(1)[OF inv old(1)] using s'(1) ob' by (auto simp: obj_target_def)
      qed
      show "obj_ok (contents (backstore s')) (live s) ob'"
        unfolding s' using e im pin by (auto simp: obj_ok_def entry_ok_def image_def ob'_def)
      show "apart a ob' \<and> apart ob' a" if j: "objects s j = Some a" "j \<noteq> i" for j a
        using sinvD(5)[OF inv j(1) old(1) j(2)] oth[rule_format, OF j] ob' by (auto simp: apart_def)
      have "node_at (contents (backstore s1)) ob' = Some n" using node_at_image[OF ob'(1)] im ob'(2) by simp
      then show "view s i = node_at (contents (backstore s')) ob'" using old s'(5) by (simp add: view_def node_at_def)
    qed (use s' bc e oth ob' pin in \<open>auto simp: entry_ok_def\<close>)
    then show "wpE (bindE (obj_at i s1) (\<lambda>ob. Inr (set_obj i (ob\<lparr>target := None\<rparr>)
        (s1\<lparr>current_in_memory_objects := current_in_memory_objects s1 - 1\<rparr>)))) swap_err (settles s)"
      unfolding at by (simp add: s'_def ob'_def)
  qed
qed

lemma wp_evict_loop: "sinv s \<Longrightarrow> wpE (evict_loop env limit s) swap_err (settles s)"
proof (induction "length (lru_pqueue s)" arbitrary: s rule: less_induct)
  case less
  note inv = less.prems
  show ?case
  proof (cases "current_in_memory_objects s > limit")
    case False
    then show ?thesis by (subst evict_loop.simps) (simp add: settles_refl[OF inv])
  next
    case more: True
    show ?thesis
    proof (cases "find (unpinned_obj s) (lru_pqueue s)")
      case None
      then show ?thesis by (subst evict_loop.simps) (simp add: settles_refl[OF inv])
    next
      case (Some i)
      note f = find_in_set[OF Some]
      have "obj_target i s \<noteq> None" using f sinvD(6)[OF inv] by (simp add: queue_ok_def)
      then obtain ob n where ob: "objects s i = Some ob" "target ob = Some n"
        by (cases "objects s i") (auto simp: obj_target_def)
      have pin: "pincount ob = 0" using f ob(1) by (simp add: unpinned_obj_def)
      have "wpE (bindE (evict_one env i s) (\<lambda>s'. evict_loop env limit s')) swap_err (settles s)"
      proof (rule wpE_bind_rule[OF wp_evict_one[OF inv ob pin]])
        fix s' assume e: "evict_one env i s = Inr s'" and st: "settles s s'"
        have "length (lru_pqueue s') < length (lru_pqueue s)"
          unfolding evict_one_queue[OF e] lru_erase_def using f by (auto intro!: length_filter_less)
        then show "wpE (evict_loop env limit s') swap_err (settles s)"
          using less.hyps[of s'] settlesD(1)[OF st] settles_trans[OF st] by (auto intro: wpE_mono)
      qed
      then show ?thesis using more Some by (subst evict_loop.simps) simp
    qed
  qed
qed

lemma wp_maybe_evict: "sinv s \<Longrightarrow> wpE (maybe_evict_something env s) swap_err (settles s)"
  by (simp add: maybe_evict_something_def wp_evict_loop)

subsection \<open>Pins and assignments\<close>

lemma pinned_obj:
  assumes "sinv s" and "pins s p > 0"
  obtains ob n where "objects s p = Some ob" and "target ob = Some n" and "pincount ob \<noteq> 0" and "view s p = Some n"
proof -
  obtain ob where ob: "objects s p = Some ob" using assms(2) by (cases "objects s p") (auto simp: pins_def)
  then have pc: "pincount ob \<noteq> 0" using assms(2) by (auto simp: pins_def)
  have "obj_ok (contents (backstore s)) (live s) ob" using sinvD(4)[OF assms(1) ob] by (simp add: entry_ok_def)
  then obtain n where "target ob = Some n" using pc by (cases "target ob") (auto simp: obj_ok_def)
  then show ?thesis using that[OF ob] pc ob by (simp add: view_def node_at_def)
qed

text \<open>A change of an object in memory that leaves its file, its last access and the disk alone.\<close>

lemma sinv_set_obj:
  assumes inv: "sinv s" and old: "objects s i = Some ob" "target ob \<noteq> None"
    and ob': "target ob' \<noteq> None" "bsid ob' = bsid ob" "last_access ob' = last_access ob"
      "obj_ok (contents (backstore s)) (live s) ob'"
  shows "sinv (set_obj i ob' s)" and "view (set_obj i ob' s) = (view s)(i := target ob')"
    and "pins (set_obj i ob' s) = (pins s)(i := unat (pincount ob'))"
    and "pointer_is_dirty j (set_obj i ob' s) = (if j = i then target_is_dirty ob' else pointer_is_dirty j s)"
proof -
  have e: "entry_ok s i ob" using sinvD(4)[OF inv old(1)] .
  have q: "queue_ok (set_obj i ob' s)"
    by (rule queue_ok_cong[OF sinvD(6)[OF inv]])
      (use old ob' in \<open>auto simp: set_obj_def access_time_def obj_target_def\<close>)
  have ap: "apart a ob' \<and> apart ob' a" if j: "objects s j = Some a" "j \<noteq> i" for j a
    using sinvD(5)[OF inv j(1) old(1) j(2)] sinvD(5)[OF inv old(1) j(1)] j(2) ob' by (auto simp: apart_def)
  note st = sinv_step[of s i ob "set_obj i ob' s" ob', OF inv old(1) _ _ _ _ _ _ _ ap _ q]
  have n: "node_at (contents (backstore s)) ob' = target ob'" using ob'(1) by (auto simp: node_at_def)
  show "sinv (set_obj i ob' s)" "view (set_obj i ob' s) = (view s)(i := target ob')"
    "pins (set_obj i ob' s) = (pins s)(i := unat (pincount ob'))"
    "pointer_is_dirty j (set_obj i ob' s) = (if j = i then target_is_dirty ob' else pointer_is_dirty j s)"
    using st e ob' n sinvD(1,2)[OF inv] by (auto simp: set_obj_def entry_ok_def)
qed

lemma wp_leave:
  assumes inv: "sinv s" and pin: "pins s p > 0"
  shows "wpE (unpin env p s) swap_err (\<lambda>s'.
     sinv s' \<and> view s' = view s \<and> pins s' = (pins s)(p := pins s p - 1) \<and>
     (\<forall>q. pins s' q > 0 \<and> pointer_is_dirty q s \<longrightarrow> pointer_is_dirty q s') \<and>
     (\<forall>q. pointer_is_dirty q s' \<longrightarrow> pointer_is_dirty q s))"
proof -
  obtain ob n where ob: "objects s p = Some ob" "target ob = Some n" "pincount ob \<noteq> 0" "view s p = Some n"
    by (rule pinned_obj[OF inv pin])
  have e: "entry_ok s p ob" using sinvD(4)[OF inv ob(1)] .
  define s1 where "s1 = set_obj p (ob\<lparr>pincount := pincount ob - 1\<rparr>) s"
  have s1: "sinv s1" "view s1 = (view s)(p := target (ob\<lparr>pincount := pincount ob - 1\<rparr>))"
    "pins s1 = (pins s)(p := unat (pincount ob - 1))"
    "pointer_is_dirty j s1 = (if j = p then target_is_dirty ob else pointer_is_dirty j s)" for j
    unfolding s1_def using e ob(2) by (simp_all add: sinv_set_obj[OF inv ob(1)] entry_ok_def obj_ok_def)
  have v: "view s1 = view s" using s1(2) ob(2,4) by (auto simp: fun_eq_iff)
  have "unat (pincount ob - 1) = pins s p - 1" using ob(1,3) by (simp add: pins_def unat_minus_one)
  then have pn: "pins s1 = (pins s)(p := pins s p - 1)" using s1(3) by simp
  have d: "pointer_is_dirty j s1 = pointer_is_dirty j s" for j
    using s1(4)[of j] ob e by (simp add: pointer_is_dirty_def entry_ok_def)
  have u: "unpin env p s = maybe_evict_something env s1"
    using e ob(1) by (simp add: unpin_def obj_at_def s1_def entry_ok_def)
  show ?thesis
    unfolding u
  proof (rule wpE_mono[OF wp_maybe_evict[OF s1(1)]])
    fix s' assume st: "settles s1 s'"
    have "pointer_is_dirty q s'" if "pins s' q > 0" "pointer_is_dirty q s" for q
      using settlesD(3,5)[OF st] that d by simp
    then show "sinv s' \<and> view s' = view s \<and> pins s' = (pins s)(p := pins s p - 1) \<and>
       (\<forall>q. pins s' q > 0 \<and> pointer_is_dirty q s \<longrightarrow> pointer_is_dirty q s') \<and>
       (\<forall>q. pointer_is_dirty q s' \<longrightarrow> pointer_is_dirty q s)"
      using settlesD(1,2,3,6)[OF st] d by (simp add: v pn)
  qed
qed

lemma live_iff_view: "sinv s \<Longrightarrow> live s q \<longleftrightarrow> view s q \<noteq> None"
proof -
  assume inv: "sinv s"
  show ?thesis
  proof (cases "objects s q")
    case (Some ob)
    then obtain n where "node_at (contents (backstore s)) ob = Some n"
      using obj_ok_node[of "contents (backstore s)" "live s" ob] sinvD(4)[OF inv Some] by (auto simp: entry_ok_def)
    then show ?thesis using Some by (simp add: live_def view_def)
  qed (simp add: live_def view_def)
qed

lemma live_pos: "sinv s \<Longrightarrow> live s q \<Longrightarrow> q > 0"
  using sinvD(4)[of s q] by (auto simp: live_def entry_ok_def)

lemma view_good:
  assumes "sinv s" and "view s q = Some m"
  shows "good (live s) m"
proof -
  obtain ob where ob: "objects s q = Some ob" "node_at (contents (backstore s)) ob = Some m"
    using assms(2) by (auto simp: view_def split: option.splits)
  then show ?thesis
    using obj_ok_node[of "contents (backstore s)" "live s" ob] sinvD(4)[OF assms(1) ob(1)] by (auto simp: entry_ok_def)
qed

lemma store_ok:
  assumes inv: "sinv s" and pin: "pins s p > 0" and d: "pointer_is_dirty p s" and n: "storable n"
    and refs: "\<And>q. q \<in> set (pointers env n) \<Longrightarrow> view s q \<noteq> None"
  shows "sinv (obj_assign p n s) \<and> view (obj_assign p n s) = (view s)(p \<mapsto> n) \<and> pins (obj_assign p n s) = pins s \<and>
     (\<forall>q. pointer_is_dirty q (obj_assign p n s) = pointer_is_dirty q s)"
proof -
  obtain ob n0 where ob: "objects s p = Some ob" "target ob = Some n0"
    by (rule pinned_obj[OF inv pin])
  have e: "entry_ok s p ob" using sinvD(4)[OF inv ob(1)] .
  have dirty: "target_is_dirty ob" using d ob(1) by (simp add: pointer_is_dirty_def)
  have "good (live s) n" using n refs live_iff_view[OF inv] live_pos[OF inv] by (auto simp: good_def)
  then have ok: "obj_ok (contents (backstore s)) (live s) (ob\<lparr>target := Some n\<rparr>)"
    using e dirty by (simp add: obj_ok_def entry_ok_def)
  note st = sinv_set_obj[OF inv ob(1), of "ob\<lparr>target := Some n\<rparr>"]
  have "obj_assign p n s = set_obj p (ob\<lparr>target := Some n\<rparr>) s" by (simp add: obj_assign_def ob(1))
  moreover have "(pins s)(p := unat (pincount ob)) = pins s" using ob(1) by (auto simp: pins_def fun_eq_iff)
  ultimately show ?thesis using st ok ob(2) dirty d by auto
qed

subsection \<open>Access\<close>

text \<open>
  The state in which \<open>operator->\<close> has pinned and loaded the object, before it looks for something
  to evict.
\<close>

definition accessed :: "bool \<Rightarrow> u64 \<Rightarrow> 'n ss_obj \<Rightarrow> 'n \<Rightarrow> ('n, 'b, 'c) swap_space \<Rightarrow> ('n, 'b, 'c) swap_space \<Rightarrow> bool" where
  "accessed d p ob n s s' \<longleftrightarrow>
     objects s' = (objects s)(p \<mapsto> ob\<lparr>pincount := pincount ob + 1, last_access := next_access_time s,
       target_is_dirty := target_is_dirty ob \<or> d, target := Some n\<rparr>) \<and>
     lru_pqueue s' = lru_erase (access_time s) p (lru_pqueue s) @ [p] \<and> next_id s' = next_id s \<and>
     next_access_time s' = next_access_time s + 1 \<and> backstore s' = backstore s \<and> sc s' = sc s"

lemma access_time_other: "access_time s' j = access_time s j" if "objects s' j = objects s j"
  using that by (simp add: access_time_def)

lemma queue_times:
  assumes inv: "sinv s" and j: "j \<in> set (lru_pqueue s)"
  shows "access_time s j < next_access_time s"
proof -
  have "obj_target j s \<noteq> None" using sinvD(6)[OF inv] j by (simp add: queue_ok_def)
  then obtain ob where "objects s j = Some ob" by (cases "objects s j") (auto simp: obj_target_def)
  then show ?thesis using sinvD(4)[OF inv, of j ob] by (simp add: entry_ok_def access_time_def)
qed

lemma word_incr: "(x :: u64) \<noteq> - 1 \<Longrightarrow> x < x + 1"
  by (simp add: incr_less)

lemma wp_pin_access:
  assumes inv: "sinv s" and ob: "objects s p = Some ob" and v: "view s p = Some n"
    and Q: "\<And>s'. accessed d p ob n s s' \<Longrightarrow> pincount ob \<noteq> - 1 \<Longrightarrow> next_access_time s \<noteq> - 1 \<Longrightarrow>
      wpE (maybe_evict_something env s') swap_err Q"
  shows "wpE (pin_access env d p s) swap_err Q"
proof -
  have e: "entry_ok s p ob" using sinvD(4)[OF inv ob] .
  let ?now = "next_access_time s"
  define ob1 where "ob1 = ob\<lparr>pincount := pincount ob + 1, last_access := ?now, target_is_dirty := target_is_dirty ob \<or> d\<rparr>"
  define q where "q = lru_erase (access_time s) p (lru_pqueue s)"
  define s0 where "s0 = set_obj p (ob\<lparr>pincount := pincount ob + 1\<rparr>) s"
  define s1 where "s1 = set_obj p ob1 (s0\<lparr>next_access_time := ?now + 1\<rparr>)"
  define s2 where "s2 = s1\<lparr>lru_pqueue := lru_insert (access_time s1) p q\<rparr>"
  have times: "access_time s0 = access_time s" by (auto simp: s0_def set_obj_def access_time_def fun_eq_iff ob)
  have ins: "lru_insert (access_time s1) p q = q @ [p]"
  proof (rule lru_insert_last)
    fix j assume "j \<in> set q"
    then have "j \<in> set (lru_pqueue s)" "j \<noteq> p" by (auto simp: q_def lru_erase_def)
    then show "access_time s1 j < access_time s1 p"
      using queue_times[OF inv] by (simp add: s1_def s0_def set_obj_def access_time_def ob1_def)
  qed
  have s2: "objects s2 = (objects s)(p \<mapsto> ob1)" "lru_pqueue s2 = q @ [p]" "next_id s2 = next_id s"
    "next_access_time s2 = ?now + 1" "backstore s2 = backstore s" "sc s2 = sc s"
    using ins by (simp_all add: s2_def s1_def s0_def set_obj_def)
  have L: "live s2 = live s" using s2(1) ob by (auto simp: live_def fun_eq_iff)
  have "\<exists>s3. load env p s2 = Inr s3 \<and> accessed d p ob n s s3"
  proof (cases "target ob")
    case (Some m)
    then have "m = n" using v ob by (simp add: view_def node_at_def)
    then show ?thesis
      using Some s2 by (auto simp: load_def obj_at_def accessed_def ob1_def q_def fun_eq_iff)
  next
    case None
    obtain m where m: "node_at (contents (backstore s)) ob = Some m" "image (contents (backstore s)) (live s) m (bsid ob)"
      using obj_ok_node[of "contents (backstore s)" "live s" ob] e None by (auto simp: entry_ok_def)
    then have "m = n" using v ob by (simp add: view_def)
    then obtain t r where t: "contents (backstore s) (bsid ob) = Some t" "from_stream (referent env (live s)) t = Inr (n, r)"
      using image_read[OF m(2)] by auto
    have "bs_get (disk env) (bsid ob) (backstore s) = Inr t" by (rule disk.bs_get_spec[OF sinvD(1)[OF inv] t(1)])
    then have "load env p s2 = Inr (set_obj p (ob1\<lparr>target := Some n\<rparr>) (s2\<lparr>current_in_memory_objects := current_in_memory_objects s2 + 1\<rparr>))"
      using t(2) s2 None L by (simp add: load_def obj_at_def ob1_def)
    moreover have "accessed d p ob n s (set_obj p (ob1\<lparr>target := Some n\<rparr>) (s2\<lparr>current_in_memory_objects := current_in_memory_objects s2 + 1\<rparr>))"
      using s2 by (simp add: accessed_def set_obj_def ob1_def q_def)
    ultimately show ?thesis by blast
  qed
  then obtain s3 where s3: "load env p s2 = Inr s3" "accessed d p ob n s s3" by blast
  have "pin_access env d p s = (if pincount ob = - 1 then Inl Counter_Wrap else if ?now = - 1 then Inl Counter_Wrap
      else bindE (load env p s2) (maybe_evict_something env))"
    using e ob times
    by (auto simp: pin_access_def dopin_def obj_at_def incr_def entry_ok_def access_def Let_def set_obj_def s0_def s1_def s2_def ob1_def q_def)
  then show ?thesis using s3 Q by (simp add: swap_err_def)
qed

lemma queue_append:
  assumes inv: "sinv s" and old: "objects s p = Some ob"
    and new: "objects s' = (objects s)(p \<mapsto> ob')" "last_access ob' = next_access_time s" "target ob' \<noteq> None"
      "lru_pqueue s' = lru_erase (access_time s) p (lru_pqueue s) @ [p]"
  shows "queue_ok s'"
proof -
  let ?q = "lru_erase (access_time s) p (lru_pqueue s)"
  have q: "j \<in> set (lru_pqueue s) \<and> j \<noteq> p" if "j \<in> set ?q" for j using that by (auto simp: lru_erase_def)
  have same: "access_time s' j = access_time s j" if "j \<in> set ?q" for j
    using q[OF that] new(1) by (intro access_time_other) simp
  have "sorted_wrt (\<lambda>i j. access_time s' i < access_time s' j) ?q"
    by (rule sorted_access_cong[OF queue_erase(2)[OF inv old] same])
  moreover have "access_time s' p = next_access_time s" using new by (simp add: access_time_def)
  moreover have "access_time s' j < next_access_time s" if "j \<in> set ?q" for j
    using same[OF that] queue_times[OF inv] q[OF that] by simp
  moreover have "set ?q \<union> {p} = {j. obj_target j s' \<noteq> None}"
    unfolding queue_erase(1)[OF inv old] using new(1,3) by (auto simp: obj_target_def)
  ultimately show ?thesis unfolding queue_ok_def new(4) by (auto simp: sorted_wrt_append)
qed

lemma accessed_step:
  assumes inv: "sinv s" and ob: "objects s p = Some ob" and v: "view s p = Some n"
    and acc: "accessed d p ob n s s'" and now: "next_access_time s \<noteq> - 1"
  shows "sinv s'" and "view s' = view s" and "pins s' = (pins s)(p := unat (pincount ob + 1))"
    and "pointer_is_dirty j s' = (if j = p then pointer_is_dirty p s \<or> d else pointer_is_dirty j s)"
proof -
  define ob' where "ob' = ob\<lparr>pincount := pincount ob + 1, last_access := next_access_time s,
       target_is_dirty := target_is_dirty ob \<or> d, target := Some n\<rparr>"
  have s': "objects s' = (objects s)(p \<mapsto> ob')" "lru_pqueue s' = lru_erase (access_time s) p (lru_pqueue s) @ [p]"
    "next_id s' = next_id s" "next_access_time s' = next_access_time s + 1" "backstore s' = backstore s" "sc s' = sc s"
    using acc by (simp_all add: accessed_def ob'_def)
  have e: "entry_ok s p ob" using sinvD(4)[OF inv ob] .
  have n: "node_at (contents (backstore s)) ob = Some n" using v ob by (simp add: view_def)
  have okb: "obj_ok (contents (backstore s)) (live s) ob" using e by (simp add: entry_ok_def)
  obtain m where "node_at (contents (backstore s)) ob = Some m" and g: "good (live s) m"
    and t: "target ob = Some m \<or> target ob = None \<and> pincount ob = 0 \<and> \<not> target_is_dirty ob \<and>
      image (contents (backstore s)) (live s) m (bsid ob) \<and> obj_is_leaf ob = (pointers env m = [])"
    by (rule obj_ok_node[OF okb])
  then have m: "m = n" using n by simp
  have ok: "obj_ok (contents (backstore s)) (live s) ob'"
    using okb g t unfolding obj_ok_def ob'_def m by (cases "target ob") simp_all
  have dirt: "target_is_dirty ob' \<longleftrightarrow> pointer_is_dirty p s \<or> d"
    using t e ob by (cases "target ob") (simp_all add: pointer_is_dirty_def ob'_def entry_ok_def)
  have ap: "apart a ob' \<and> apart ob' a" if j: "objects s j = Some a" "j \<noteq> p" for j a
    using sinvD(4)[OF inv j(1)] sinvD(5)[OF inv j(1) ob j(2)] sinvD(5)[OF inv ob j(1)] j(2)
    by (auto simp: apart_def entry_ok_def ob'_def)
  have q: "queue_ok s'" by (rule queue_append[OF inv ob s'(1) _ _ s'(2)]) (simp_all add: ob'_def)
  note st = sinv_step[OF inv ob s'(1,3) _ _ _ _ _ ap _ q]
  have nn: "node_at (contents (backstore s')) ob' = view s p" using v by (simp add: node_at_def ob'_def)
  have lt: "next_access_time s < next_access_time s + 1" using word_incr[OF now] .
  have all: "sinv s'" "view s' = (view s)(p := view s p)" "pins s' = (pins s)(p := unat (pincount ob'))"
    "pointer_is_dirty j s' = (if j = p then target ob' \<noteq> None \<and> target_is_dirty ob' else pointer_is_dirty j s)"
    using st ok s' lt sinvD(1,2)[OF inv] nn by (auto simp: ob'_def less_imp_le)
  then show "sinv s'" "view s' = view s" "pins s' = (pins s)(p := unat (pincount ob + 1))"
    "pointer_is_dirty j s' = (if j = p then pointer_is_dirty p s \<or> d else pointer_is_dirty j s)"
    using dirt by (simp_all add: ob'_def)
qed

lemma wp_enter:
  assumes inv: "sinv s" and v: "view s p = Some n"
  shows "wpE (pin_access env d p s) swap_err (\<lambda>s'.
     sinv s' \<and> view s' = view s \<and> pins s' = (pins s)(p := Suc (pins s p)) \<and> (d \<longrightarrow> pointer_is_dirty p s') \<and>
     (\<forall>q. pins s q > 0 \<and> pointer_is_dirty q s \<longrightarrow> pointer_is_dirty q s') \<and>
     (\<forall>q. pointer_is_dirty q s' \<longrightarrow> (d \<and> q = p) \<or> pointer_is_dirty q s))"
proof -
  obtain ob where ob: "objects s p = Some ob" using v by (cases "objects s p") (auto simp: view_def)
  show ?thesis
  proof (rule wp_pin_access[OF inv ob v])
    fix s1 assume acc: "accessed d p ob n s s1" and pc: "pincount ob \<noteq> - 1" and t: "next_access_time s \<noteq> - 1"
    note a = accessed_step[OF inv ob v acc t]
    have "1 + pincount ob \<noteq> 0" using pc by (simp add: add_eq_0_iff)
    then have "unat (pincount ob + 1) = Suc (pins s p)" using unatSuc[of "pincount ob"] ob by (simp add: pins_def add.commute)
    then have pn: "pins s1 = (pins s)(p := Suc (pins s p))" using a(3) by simp
    show "wpE (maybe_evict_something env s1) swap_err (\<lambda>s'.
       sinv s' \<and> view s' = view s \<and> pins s' = (pins s)(p := Suc (pins s p)) \<and> (d \<longrightarrow> pointer_is_dirty p s') \<and>
       (\<forall>q. pins s q > 0 \<and> pointer_is_dirty q s \<longrightarrow> pointer_is_dirty q s') \<and>
       (\<forall>q. pointer_is_dirty q s' \<longrightarrow> (d \<and> q = p) \<or> pointer_is_dirty q s))"
    proof (rule wpE_mono[OF wp_maybe_evict[OF a(1)]])
      fix s' assume st: "settles s1 s'"
      have "pointer_is_dirty q s'" if "q = p \<and> d \<or> pins s q > 0 \<and> pointer_is_dirty q s" for q
        by (rule settlesD(5)[OF st]) (use that in \<open>auto simp: pn a(4)\<close>)
      moreover have "(d \<and> q = p) \<or> pointer_is_dirty q s" if "pointer_is_dirty q s'" for q
        using settlesD(6)[OF st that] a(4)[of q] by (cases "q = p") auto
      ultimately show "sinv s' \<and> view s' = view s \<and> pins s' = (pins s)(p := Suc (pins s p)) \<and> (d \<longrightarrow> pointer_is_dirty p s') \<and>
         (\<forall>q. pins s q > 0 \<and> pointer_is_dirty q s \<longrightarrow> pointer_is_dirty q s') \<and>
         (\<forall>q. pointer_is_dirty q s' \<longrightarrow> (d \<and> q = p) \<or> pointer_is_dirty q s)"
        using settlesD(1-3)[OF st] a(2) pn by simp
    qed
  qed
qed

subsection \<open>Allocation\<close>

lemma sinv_insert:
  assumes inv: "sinv s" and i: "next_id s < i" "i < next_id s'" and t: "next_access_time s < next_access_time s'"
    and new: "objects s' = (objects s)(i \<mapsto> ob)" "lru_pqueue s' = lru_pqueue s @ [i]" "backstore s' = backstore s"
    and c: "cinv (sc s')"
    and ob: "target ob = Some n" "bsid ob = 0" "refcount ob = 1" "last_access ob = next_access_time s"
      "target_is_dirty ob" "pincount ob = 0"
    and n: "storable n" "pointers env n = []"
  shows "sinv s'" and "view s i = None" and "view s' = (view s)(i \<mapsto> n)" and "pins s' = pins s"
    and "pointer_is_dirty j s' \<longleftrightarrow> j = i \<or> pointer_is_dirty j s"
proof -
  let ?C = "contents (backstore s)"
  have fresh: "objects s i = None" using sinvD(4)[OF inv, of i] i(1) by (cases "objects s i") (auto simp: entry_ok_def)
  have i0: "0 < i" using i(1) by (meson word_gt_0 word_not_simps(1) order_le_less_trans word_zero_le)
  have L: "live s' = (live s)(i := True)" using new(1) by (auto simp: live_def fun_eq_iff)
  have e: "entry_ok s' j a" if j: "objects s j = Some a" for j a
  proof -
    have "entry_ok s j a" using sinvD(4)[OF inv j] .
    then show ?thesis
      using i t obj_ok_mono(1)[of ?C "live s" a ?C "live s'"] by (auto simp: entry_ok_def new(3) L)
  qed
  have lt: "last_access a < next_access_time s" if "objects s j = Some a" for j a
    using sinvD(4)[OF inv that] by (simp add: entry_ok_def)
  have ap: "apart a ob \<and> apart ob a" if "objects s j = Some a" for j a
    using lt[OF that] by (auto simp: apart_def ob)
  have ob_ok: "entry_ok s' i ob" using i(2) i0 t n by (simp add: entry_ok_def obj_ok_def good_def ob)
  show "sinv s'" unfolding sinv_def
  proof (intro conjI allI impI)
    fix j a assume "objects s' j = Some a"
    then show "entry_ok s' j a" using e ob_ok new(1) by (cases "j = i") auto
  next
    fix j k a b assume "objects s' j = Some a" "objects s' k = Some b" "j \<noteq> k"
    then show "apart a b" using sinvD(5)[OF inv] ap new(1) by (auto split: if_splits)
  next
    have same: "access_time s' j = access_time s j" if "j \<in> set (lru_pqueue s)" for j
      using sinvD(6)[OF inv] that fresh new(1) by (intro access_time_other) (auto simp: queue_ok_def obj_target_def)
    have "sorted_wrt (\<lambda>i j. access_time s' i < access_time s' j) (lru_pqueue s)"
      by (rule sorted_access_cong[OF _ same]) (use sinvD(6)[OF inv] in \<open>simp_all add: queue_ok_def\<close>)
    moreover have "access_time s' i = next_access_time s" using new(1) ob(4) by (simp add: access_time_def)
    moreover have "set (lru_pqueue s) \<union> {i} = {j. obj_target j s' \<noteq> None}"
      using sinvD(6)[OF inv] new(1) ob(1) fresh by (auto simp: queue_ok_def obj_target_def)
    ultimately show "queue_ok s'"
      unfolding queue_ok_def new(2) using queue_times[OF inv] same by (auto simp: sorted_wrt_append)
  qed (use sinvD[OF inv] new c i i0 in auto)
  show "view s i = None" using fresh by (simp add: view_def)
  show "view s' = (view s)(i \<mapsto> n)" unfolding view_def new(1,3) by (rule ext) (simp add: node_at_def ob(1))
  show "pins s' = pins s" using new(1) fresh ob(6) by (auto simp: pins_def fun_eq_iff)
  show "pointer_is_dirty j s' \<longleftrightarrow> j = i \<or> pointer_is_dirty j s" using new(1) ob(1,5) i0 by (auto simp: pointer_is_dirty_def)
qed

lemma wp_allocate_obj:
  assumes inv: "sinv s" and n: "storable n" "pointers env n = []"
  shows "wpE (allocate env n s) swap_err (\<lambda>(p, s').
     sinv s' \<and> view s p = None \<and> view s' = (view s)(p \<mapsto> n) \<and> pins s' = pins s \<and>
     (\<forall>q. pins s q > 0 \<and> pointer_is_dirty q s \<longrightarrow> pointer_is_dirty q s') \<and>
     (\<forall>q. pointer_is_dirty q s' \<longrightarrow> q = p \<or> pointer_is_dirty q s))"
    (is "wpE _ _ ?Q")
proof (cases "next_id s = - 1 \<or> next_id s + 1 = - 1 \<or> next_access_time s = - 1")
  case True
  then show ?thesis
    using wpE_mono[OF net.GetNodeId_spec[OF sinvD(2)[OF inv]], of swap_err "\<lambda>_. True"]
    by (auto simp: allocate_def wp_rules wpE_incr swap_err_def split_def)
next
  case False
  let ?t = "next_access_time s"
  define i where "i = next_id s + 1"
  have F: "next_id s \<noteq> - 1" "i \<noteq> - 1" "?t \<noteq> - 1" using False by (simp_all only: i_def) simp_all
  define ob where "ob = \<lparr>target = Some n, bsid = 0, obj_is_leaf = False, refcount = 1,
    last_access = ?t, target_is_dirty = True, pincount = 0\<rparr>"
  define s1 where "s1 = (\<lambda>c. set_obj i ob (s\<lparr>sc := c, next_id := i + 1, next_access_time := ?t + 1\<rparr>))"
  define s2 where "s2 = (\<lambda>c. s1 c\<lparr>lru_pqueue := lru_insert (access_time (s1 c)) i (lru_pqueue (s1 c)),
    current_in_memory_objects := current_in_memory_objects (s1 c) + 1\<rparr>)"
  have lts: "next_id s < i" "i < i + 1" "?t < ?t + 1" using word_incr[OF F(1)] word_incr[OF F(2)] word_incr[OF F(3)] by (simp_all only: i_def)
  have fresh: "objects s i = None" using sinvD(4)[OF inv, of i] lts(1) by (cases "objects s i") (auto simp: entry_ok_def)
  have run: "allocate env n s = bindE (sc_GetNodeId (client env) 0 0 [] (sc s)) (\<lambda>(_, c).
      bindE (maybe_evict_something env (s2 c)) (\<lambda>s3. Inr (i, s3)))"
    using F fresh
    by (cases "sc_GetNodeId (client env) 0 0 [] (sc s)") (auto simp: allocate_def incr_def Let_def s1_def s2_def ob_def simp flip: i_def)
  have after: "wpE (bindE (maybe_evict_something env (s2 c)) (\<lambda>s3. Inr (i, s3))) swap_err ?Q" if c: "cinv c" for c
  proof -
    have "lru_insert (access_time (s1 c)) i (lru_pqueue s) = lru_pqueue s @ [i]"
    proof (rule lru_insert_last)
      fix j assume j: "j \<in> set (lru_pqueue s)"
      then have "j \<noteq> i" using sinvD(6)[OF inv] fresh by (auto simp: queue_ok_def obj_target_def)
      then show "access_time (s1 c) j < access_time (s1 c) i"
        using queue_times[OF inv j] by (simp add: s1_def set_obj_def access_time_def ob_def)
    qed
    then have s2: "objects (s2 c) = (objects s)(i \<mapsto> ob)" "lru_pqueue (s2 c) = lru_pqueue s @ [i]" "backstore (s2 c) = backstore s"
      "next_id (s2 c) = i + 1" "next_access_time (s2 c) = ?t + 1" "sc (s2 c) = c"
      by (simp_all add: s2_def s1_def set_obj_def)
    have ins: "sinv (s2 c)" "view s i = None" "view (s2 c) = (view s)(i \<mapsto> n)" "pins (s2 c) = pins s"
      "pointer_is_dirty j (s2 c) \<longleftrightarrow> j = i \<or> pointer_is_dirty j s" for j
      using sinv_insert[OF inv, of i "s2 c" ob n] lts s2 c n by (simp_all add: ob_def)
    show ?thesis
      unfolding wpE_bindE
    proof (rule wpE_mono[OF wp_maybe_evict[OF ins(1)]])
      fix s3 assume st: "settles (s2 c) s3"
      have "pointer_is_dirty q s3" if "pins s q > 0" "pointer_is_dirty q s" for q
        by (rule settlesD(5)[OF st]) (use that in \<open>auto simp: ins\<close>)
      moreover have "q = i \<or> pointer_is_dirty q s" if "pointer_is_dirty q s3" for q
        using settlesD(6)[OF st that] ins(5) by blast
      ultimately show "wpE (Inr (i, s3)) swap_err ?Q"
        using settlesD(1-3)[OF st] ins(2-4) by simp
    qed
  qed
  show ?thesis
    unfolding run
  proof (rule wpE_bind_rule)
    show "wpE (sc_GetNodeId (client env) 0 0 [] (sc s)) swap_err (\<lambda>(_, c). cinv c)"
      by (rule wpE_mono[OF net.GetNodeId_spec[OF sinvD(2)[OF inv]]]) (auto simp: swap_err_def)
  qed (use after in auto)
qed

subsection \<open>Destroying the last pointer\<close>

lemma sinv_delete:
  assumes inv: "sinv s" and old: "objects s p = Some ob"
    and unref: "\<forall>q m. view s q = Some m \<longrightarrow> p \<notin> set (pointers env m)"
    and new: "objects s' = (objects s)(p := None)" "lru_pqueue s' = lru_erase (access_time s) p (lru_pqueue s)"
      "next_id s' = next_id s" "next_access_time s' = next_access_time s" "sc s' = sc s"
    and bs: "binv (backstore s')" "\<And>b. b \<noteq> bsid ob \<Longrightarrow> contents (backstore s') b = contents (backstore s) b"
  shows "sinv s'" and "view s' = (view s)(p := None)" and "pins s' = (pins s)(p := 0)"
    and "pointer_is_dirty j s' \<longleftrightarrow> j \<noteq> p \<and> pointer_is_dirty j s"
proof -
  let ?C = "contents (backstore s)" and ?C' = "contents (backstore s')"
  have other: "entry_ok s' j a \<and> node_at ?C' a = node_at ?C a" if j: "objects s j = Some a" "j \<noteq> p" for j a
  proof -
    have a: "entry_ok s j a" using sinvD(4)[OF inv j(1)] .
    have C: "?C' (bsid a) = ?C (bsid a)" if "bsid a > 0"
      by (rule bs(2)) (use sinvD(5)[OF inv j(1) old j(2)] that in \<open>auto simp: apart_def\<close>)
    have L: "live s' q" if "node_at ?C a = Some m" "q \<in> set (pointers env m)" "live s q" for m q
    proof -
      have "view s j = Some m" using j(1) that(1) by (simp add: view_def)
      then have "q \<noteq> p" using unref that(2) by blast
      then show ?thesis using that(3) new(1) by (simp add: live_def)
    qed
    have ok: "obj_ok ?C (live s) a" using a by (simp add: entry_ok_def)
    show ?thesis
      using obj_ok_mono[where C = ?C and C' = ?C' and L = "live s" and L' = "live s'", OF ok C L] a new(3,4)
      by (simp add: entry_ok_def)
  qed
  show "sinv s'" unfolding sinv_def
  proof (intro conjI allI impI)
    fix j a assume "objects s' j = Some a"
    then show "entry_ok s' j a" using other new(1) by (cases "j = p") auto
  next
    fix j k a b assume "objects s' j = Some a" "objects s' k = Some b" "j \<noteq> k"
    then show "apart a b" using sinvD(5)[OF inv] new(1) by (auto split: if_splits)
  next
    have "sorted_wrt (\<lambda>i j. access_time s' i < access_time s' j) (lru_pqueue s')"
      unfolding new(2) using queue_erase(2)[OF inv old]
      by (rule sorted_access_cong) (auto simp: new(1) access_time_def lru_erase_def)
    then show "queue_ok s'"
      using queue_erase(1)[OF inv old] new(1) by (auto simp: queue_ok_def new(2) obj_target_def)
  qed (use sinvD[OF inv] new bs in auto)
  show "view s' = (view s)(p := None)"
  proof
    fix j show "view s' j = ((view s)(p := None)) j"
    proof (cases "objects s j")
      case (Some a)
      then show ?thesis using other[OF Some] new(1) by (simp add: view_def)
    qed (use new(1) in \<open>simp add: view_def\<close>)
  qed
  show "pins s' = (pins s)(p := 0)" using new(1) by (auto simp: pins_def fun_eq_iff)
  show "pointer_is_dirty j s' \<longleftrightarrow> j \<noteq> p \<and> pointer_is_dirty j s" using new(1) by (auto simp: pointer_is_dirty_def)
qed

lemma depoint_last:
  assumes inv: "sinv s" and v: "view s p = Some n" "pointers env n = []"
    and unref: "\<forall>q m. view s q = Some m \<longrightarrow> p \<notin> set (pointers env m)"
  shows "\<exists>s'. depoint (Suc fuel) env p s = Inr s' \<and> sinv s' \<and> view s' = (view s)(p := None) \<and>
     pins s' = (pins s)(p := 0) \<and> (\<forall>j. pointer_is_dirty j s' \<longleftrightarrow> j \<noteq> p \<and> pointer_is_dirty j s)"
proof -
  obtain ob where ob: "objects s p = Some ob" using v(1) by (cases "objects s p") (auto simp: view_def)
  have e: "entry_ok s p ob" using sinvD(4)[OF inv ob] .
  then have okb: "obj_ok (contents (backstore s)) (live s) ob" and p: "p \<noteq> 0" by (auto simp: entry_ok_def)
  obtain m where m: "node_at (contents (backstore s)) ob = Some m"
    and t: "target ob = Some m \<or> target ob = None \<and> pincount ob = 0 \<and> \<not> target_is_dirty ob \<and>
      image (contents (backstore s)) (live s) m (bsid ob) \<and> obj_is_leaf ob = (pointers env m = [])"
    by (rule obj_ok_node[OF okb])
  have "m = n" using m v(1) ob by (simp add: view_def)
  with t v(2) have t: "target ob = Some n \<or> target ob = None \<and> bsid ob > 0 \<and> obj_is_leaf ob" by (auto simp: image_def)
  define s1 where "s1 = set_obj p (ob\<lparr>refcount := refcount ob - 1\<rparr>) s"
  define s2 where "s2 = s1\<lparr>objects := (objects s1)(p := None), lru_pqueue := lru_erase (access_time s1) p (lru_pqueue s1),
    current_in_memory_objects := current_in_memory_objects s1 - 1\<rparr>"
  have at: "access_time s1 = access_time s" by (auto simp: s1_def set_obj_def access_time_def fun_eq_iff ob)
  have rc: "refcount ob = 1" using okb by (simp add: obj_ok_def)
  have "erase_obj (depoint fuel env) env p s1 =
      (if bsid ob > 0 then bindE (bs_deallocate (disk env) (bsid ob) (backstore s)) (\<lambda>bs. Inr (s2\<lparr>backstore := bs\<rparr>)) else Inr s2)"
    using t v(2) by (auto simp: erase_obj_def obj_at_def s1_def s2_def set_obj_def Let_def)
  then have run: "depoint (Suc fuel) env p s =
      (if bsid ob > 0 then bindE (bs_deallocate (disk env) (bsid ob) (backstore s)) (\<lambda>bs. Inr (s2\<lparr>backstore := bs\<rparr>)) else Inr s2)"
    using t p ob rc by (auto simp: obj_at_def Let_def s1_def)
  have "\<exists>bs. (if bsid ob > 0 then bs_deallocate (disk env) (bsid ob) (backstore s) else Inr (backstore s)) = Inr bs \<and> binv bs \<and>
      (\<forall>b. b \<noteq> bsid ob \<longrightarrow> contents bs b = contents (backstore s) b)"
  proof (cases "bsid ob > 0")
    case True
    then obtain t where "contents (backstore s) (bsid ob) = Some t" using okb by (auto simp: obj_ok_def)
    then show ?thesis using disk.bs_deallocate_spec[OF sinvD(1)[OF inv]] True by fastforce
  qed (use sinvD(1)[OF inv] in auto)
  then obtain bs where bs: "(if bsid ob > 0 then bs_deallocate (disk env) (bsid ob) (backstore s) else Inr (backstore s)) = Inr bs"
    "binv bs" "\<And>b. b \<noteq> bsid ob \<Longrightarrow> contents bs b = contents (backstore s) b" by blast
  have "s2 = s2\<lparr>backstore := backstore s\<rparr>" by (simp add: s2_def s1_def set_obj_def)
  then have run': "depoint (Suc fuel) env p s = Inr (s2\<lparr>backstore := bs\<rparr>)" using run bs(1) by (auto split: if_splits)
  define s3 where "s3 = s2\<lparr>backstore := bs\<rparr>"
  have s3: "objects s3 = (objects s)(p := None)" "lru_pqueue s3 = lru_erase (access_time s) p (lru_pqueue s)"
    "next_id s3 = next_id s" "next_access_time s3 = next_access_time s" "sc s3 = sc s" "backstore s3 = bs"
    unfolding s3_def s2_def at by (simp_all add: s1_def set_obj_def)
  have "sinv s3" "view s3 = (view s)(p := None)" "pins s3 = (pins s)(p := 0)"
    "pointer_is_dirty j s3 \<longleftrightarrow> j \<noteq> p \<and> pointer_is_dirty j s" for j
    by (rule sinv_delete[OF inv ob unref s3(1-5)]; simp add: s3(6) bs(2,3))+
  then show ?thesis using run' by (simp add: s3_def)
qed

lemma wp_depoint_obj:
  assumes inv: "sinv s" and v: "view s p = Some n" "pointers env n = []" and pin: "pins s p = 0"
    and unref: "\<forall>q m. view s q = Some m \<longrightarrow> p \<notin> set (pointers env m)"
  shows "wpE (depoint (Suc fuel) env p s) swap_err (\<lambda>s'.
     sinv s' \<and> view s' = (view s)(p := None) \<and> pins s' = pins s \<and>
     (\<forall>q. pins s q > 0 \<and> pointer_is_dirty q s \<longrightarrow> pointer_is_dirty q s') \<and>
     (\<forall>q. pointer_is_dirty q s' \<longrightarrow> pointer_is_dirty q s))"
proof -
  obtain s' where s': "depoint (Suc fuel) env p s = Inr s'" "sinv s'" "view s' = (view s)(p := None)"
    "pins s' = (pins s)(p := 0)" "\<forall>j. pointer_is_dirty j s' \<longleftrightarrow> j \<noteq> p \<and> pointer_is_dirty j s"
    using depoint_last[OF inv v unref] by blast
  have "pins s' = pins s" using s'(4) pin by (auto simp: fun_eq_iff)
  moreover have "pointer_is_dirty q s'" if "pins s q > 0" "pointer_is_dirty q s" for q
    using that pin s'(5) by (cases "q = p") simp_all
  ultimately show ?thesis unfolding s'(1) wpE_simps using s'(2,3,5) by blast
qed

lemma refs_live_view:
  assumes "sinv s" and "view s q = Some m" and "r \<in> set (pointers env m)"
  shows "view s r \<noteq> None"
  using view_good[OF assms(1,2)] assms(3) live_iff_view[OF assms(1), of r] by (auto simp: good_def)

lemma object_view:
  assumes "sinv s" and "pins s p > 0"
  shows "obj_target p s = view s p" and "view s p \<noteq> None"
proof -
  obtain ob n where "objects s p = Some ob" "target ob = Some n" "view s p = Some n"
    by (rule pinned_obj[OF assms])
  then show "obj_target p s = view s p" "view s p \<noteq> None" by (simp_all add: obj_target_def)
qed

end

text \<open>The swap space keeps the contract of the tree.\<close>

sublocale object_cache \<subseteq> swap_contract "space_ops env" view pins sinv "pointers env" storable swap_err
proof unfold_locales
  fix s n assume "sinv s" "storable n" "pointers env n = []"
  from wp_allocate_obj[OF this] show "wpE (ss_allocate (space_ops env) n s) swap_err (\<lambda>(p, s').
       sinv s' \<and> view s p = None \<and> view s' = (view s)(p \<mapsto> n) \<and> pins s' = pins s \<and>
       (\<forall>q. pins s q > 0 \<and> ss_is_dirty (space_ops env) q s \<longrightarrow> ss_is_dirty (space_ops env) q s') \<and>
       (\<forall>q. ss_is_dirty (space_ops env) q s' \<longrightarrow> q = p \<or> ss_is_dirty (space_ops env) q s))"
    by (simp add: space_ops_def)
next
  fix s p n d assume "sinv s" "view s p = Some n"
  from wp_enter[OF this] show "wpE (ss_enter (space_ops env) d p s) swap_err (\<lambda>s'.
       sinv s' \<and> view s' = view s \<and> pins s' = (pins s)(p := Suc (pins s p)) \<and>
       (d \<longrightarrow> ss_is_dirty (space_ops env) p s') \<and>
       (\<forall>q. pins s q > 0 \<and> ss_is_dirty (space_ops env) q s \<longrightarrow> ss_is_dirty (space_ops env) q s') \<and>
       (\<forall>q. ss_is_dirty (space_ops env) q s' \<longrightarrow> (d \<and> q = p) \<or> ss_is_dirty (space_ops env) q s))"
    by (simp add: space_ops_def)
next
  fix s p assume "sinv s" "pins s p > 0"
  from wp_leave[OF this] show "wpE (ss_leave (space_ops env) p s) swap_err (\<lambda>s'.
       sinv s' \<and> view s' = view s \<and> pins s' = (pins s)(p := pins s p - 1) \<and>
       (\<forall>q. pins s' q > 0 \<and> ss_is_dirty (space_ops env) q s \<longrightarrow> ss_is_dirty (space_ops env) q s') \<and>
       (\<forall>q. ss_is_dirty (space_ops env) q s' \<longrightarrow> ss_is_dirty (space_ops env) q s))"
    by (simp add: space_ops_def)
next
  fix s p n assume "sinv s" "pins s p > 0" "ss_is_dirty (space_ops env) p s" "storable n"
    "\<And>q. q \<in> set (pointers env n) \<Longrightarrow> view s q \<noteq> None"
  then show "sinv (ss_store (space_ops env) p n s) \<and> view (ss_store (space_ops env) p n s) = (view s)(p \<mapsto> n) \<and>
     pins (ss_store (space_ops env) p n s) = pins s \<and>
     (\<forall>q. ss_is_dirty (space_ops env) q (ss_store (space_ops env) p n s) = ss_is_dirty (space_ops env) q s)"
    using store_ok[of s p n] by (simp add: space_ops_def)
next
  fix s p n assume a: "sinv s" "view s p = Some n" "pointers env n = []" "pins s p = 0"
    and "\<And>q m. view s q = Some m \<Longrightarrow> p \<notin> set (pointers env m)"
  then have "\<forall>q m. view s q = Some m \<longrightarrow> p \<notin> set (pointers env m)" by blast
  from wp_depoint_obj[OF a this] show "wpE (ss_depoint (space_ops env) p s) swap_err (\<lambda>s'.
       sinv s' \<and> view s' = (view s)(p := None) \<and> pins s' = pins s \<and>
       (\<forall>q. pins s q > 0 \<and> ss_is_dirty (space_ops env) q s \<longrightarrow> ss_is_dirty (space_ops env) q s') \<and>
       (\<forall>q. ss_is_dirty (space_ops env) q s' \<longrightarrow> ss_is_dirty (space_ops env) q s))"
    by (simp add: space_ops_def)
qed (auto simp: space_ops_def object_view dest: refs_live_view)

end
