(* ===== verification/Betree_Store.thy ===== *)
theory Betree_Store
  imports Betree_Iterate Swap_Correct
begin

text \<open>
  The tree over the swap space: \<open>betree<Key, Value>\<close> instantiates \<open>swap_space\<close> with its nodes, which
  are written and read by the serializers of client/betree.hpp, kept in one file per object by
  client/backing_store.cpp and announced to the server by client/storage_client.cpp.

  The locale \<open>stored_tree\<close> fixes a disk, a client and codecs of keys and values.  Its two
  sublocale statements say that the swap space over them keeps its contract and that the contract
  is the one the tree relies on, so that the theorems about the tree hold of the tree on disk.
  The interpretations instantiate it by the code's own store and client, with
  integers and with strings as keys.
\<close>

instantiation list :: (type) plus
begin

definition plus_list :: "'a list \<Rightarrow> 'a list \<Rightarrow> 'a list" where
  "plus_list xs ys = xs @ ys"

instance ..

end

definition node_env :: "'k :: linorder codec \<Rightarrow> 'v codec \<Rightarrow> 'b backing_ops \<Rightarrow> 'c client_ops \<Rightarrow> ((u64, 'k, 'v) node, 'b, 'c) env" where
  "node_env kc vc d c = \<lparr>referent = node_codec kc vc, pointers = node_refs, disk = d, client = c\<rparr>"

text \<open>\<open>betree::evict_all\<close>\<close>

definition betree_evict_all :: "('n, 'b, 'c) env \<Rightarrow> (u64, 'v) betree \<Rightarrow> ('n, 'b, 'c) swap_space \<Rightarrow> err + ('n, 'b, 'c) swap_space" where
  "betree_evict_all env bet s = evict_all env s"

lemma node_env_simps [simp]:
  "referent (node_env kc vc d c) = node_codec kc vc" "pointers (node_env kc vc d c) = node_refs"
  "disk (node_env kc vc d c) = d" "client (node_env kc vc d c) = c"
  by (simp_all add: node_env_def)

lemma storable_node_fit: "node_fit n \<Longrightarrow> Serialization.storable_node (\<lambda>_. True) (\<lambda>_. True) n"
  by (auto simp: node_fit_def Serialization.storable_node_def known_opcode_def)

locale stored_tree = disk: backing_contract d contents binv + net: client_contract c cinv cerr
  for d :: "'b backing_ops" and contents :: "'b \<Rightarrow> u64 \<Rightarrow> string option" and binv :: "'b \<Rightarrow> bool"
    and c :: "'c client_ops" and cinv :: "'c \<Rightarrow> bool" and cerr :: "err \<Rightarrow> bool" +
  fixes kc :: "'k :: linorder codec" and vc :: "'v :: plus codec"
  assumes key_codec: "lawful_codec kc (\<lambda>_. True)" and value_codec: "lawful_codec vc (\<lambda>_. True)"

sublocale stored_tree \<subseteq> cache: object_cache "node_env kc vc d c" contents binv cinv cerr "Serialization.storable_node (\<lambda>_. True) (\<lambda>_. True)"
proof -
  have "lawful_codec (node_codec kc vc L) (\<lambda>n. Serialization.storable_node (\<lambda>_. True) (\<lambda>_. True) n \<and> (\<forall>q\<in>set (node_refs n). q > 0 \<and> L q))" for L
    using lawful_node[OF key_codec value_codec, of L] by (simp add: refs_ok_def)
  then show "object_cache (node_env kc vc d c) contents binv cinv cerr (Serialization.storable_node (\<lambda>_. True) (\<lambda>_. True))"
    using disk.backing_contract_axioms net.client_contract_axioms
    by (intro object_cache.intro object_cache_axioms.intro) (simp_all, rule to_stream_live, simp_all add: refs_ok_def)
qed

sublocale stored_tree \<subseteq> node_store "space_ops (node_env kc vc d c)" cache.view cache.pins cache.sinv "Serialization.storable_node (\<lambda>_. True) (\<lambda>_. True)" cache.swap_err
  using cache.swap_contract_axioms by (auto simp: node_store_def node_store_axioms_def storable_node_fit)

context stored_tree
begin

abbreviation ops :: "(((u64, 'k, 'v) node, 'b, 'c) swap_space, u64, (u64, 'k, 'v) node) swap_ops" where
  "ops \<equiv> space_ops (node_env kc vc d c)"

lemma new_space: "binv b \<Longrightarrow> cinv cl \<Longrightarrow> cache.sinv (swap_space_new b cl n) \<and> cache.view (swap_space_new b cl n) = Map.empty"
  by (auto simp: cache.sinv_def cache.queue_ok_def swap_space_new_def cache.view_def obj_target_def)

lemma wp_evict_all:
  assumes "holds quiet bet s f"
  shows "wpE (betree_evict_all (node_env kc vc d c) bet s) cache.swap_err (\<lambda>s'. holds quiet bet s' f)"
proof -
  obtain T M dd where inv: "tree_inv quiet bet s T M dd" and f: "f = den (default_value bet) T" using assms by (auto simp: holds_def)
  have s: "cache.sinv s" using restingD[OF tree_invD(2)[OF inv]] by blast
  show ?thesis
    unfolding betree_evict_all_def evict_all_def
  proof (rule wpE_mono[OF cache.wp_evict_loop[OF s]])
    fix s' assume "cache.settles s s'"
    note st = cache.settlesD[OF this]
    have dirty: "ss_is_dirty ops = pointer_is_dirty" by (simp add: space_ops_def)
    have "keeps {} s s'" using st by (auto simp: keeps_def same_pins_def dirty)
    from tree_inv_keeps[OF inv st(2) this] show "holds quiet bet s' f" by (auto simp: holds_def f)
  qed simp
qed

end

interpretation u64_tree: stored_tree file_ops file_contents "\<lambda>b. 0 < nextid b" "storage_ops fuel loopback" loop.client_idle client_err u64_codec string_codec
  for fuel
  by unfold_locales

interpretation str_tree: stored_tree file_ops file_contents "\<lambda>b. 0 < nextid b" "storage_ops fuel loopback" loop.client_idle client_err string_codec string_codec
  for fuel
  by unfold_locales

context erpc_network
begin

lemma storage_client: "client_contract (storage_ops fuel rpc) client_idle client_err"
  by unfold_locales

end

lemma stored_tree_over:
  assumes "erpc_network rpc pending" and "lawful_codec kc (\<lambda>_. True)" and "lawful_codec vc (\<lambda>_. True)"
  shows "stored_tree file_ops file_contents (\<lambda>b. 0 < nextid b) (storage_ops fuel rpc) (erpc_network.client_idle pending) client_err kc vc"
  using assms by (simp add: stored_tree_def stored_tree_axioms_def one_file.backing_contract_axioms erpc_network.storage_client)

end
