(* ===== verification/Betree_Run.thy ===== *)
theory Betree_Run
  imports Betree_Store
begin

text \<open>
  Runs of the tree against its specification.  A client of client/betree.hpp makes a sequence of
  calls of the public interface; \<open>run\<close> makes them on a tree over the swap space and collects what
  they return.  The specification \<open>spec_call\<close> makes the same calls on an ordered map, a
  \<open>std::map\<close>.  The lemmas show that every run of the tree returns what the specification returns,
  whatever is cached, evicted, flushed or split on the way.
\<close>

datatype ('k, 'v) call =
    Insert 'k 'v
  | Update 'k 'v
  | Erase 'k
  | Query 'k
  | Scan nat
  | Scan_From 'k nat
  | Scan_After 'k nat
  | Evict_All

datatype ('k, 'v) answer = Done | Value "'v option" | Entries "('k \<times> 'v) list"

subsection \<open>Specification\<close>

definition spec_call :: "'v :: plus \<Rightarrow> ('k :: linorder, 'v) call \<Rightarrow> ('k \<times> 'v) list \<Rightarrow> ('k, 'v) answer \<times> ('k \<times> 'v) list" where
  "spec_call dflt c m = (case c of
     Insert k v \<Rightarrow> (Done, put m k v)
   | Update k v \<Rightarrow> (Done, put m k ((case map_of m k of None \<Rightarrow> dflt | Some u \<Rightarrow> u) + v))
   | Erase k \<Rightarrow> (Done, erase_key m k)
   | Query k \<Rightarrow> (Value (map_of m k), m)
   | Scan n \<Rightarrow> (Entries (take n m), m)
   | Scan_From k n \<Rightarrow> (Entries (take n (filter (\<lambda>e. k \<le> fst e) m)), m)
   | Scan_After k n \<Rightarrow> (Entries (take n (filter (\<lambda>e. k < fst e) m)), m)
   | Evict_All \<Rightarrow> (Done, m))"

fun spec_run :: "'v :: plus \<Rightarrow> ('k :: linorder, 'v) call list \<Rightarrow> ('k \<times> 'v) list \<Rightarrow> ('k, 'v) answer list" where
  "spec_run dflt [] m = []"
| "spec_run dflt (c # cs) m = (case spec_call dflt c m of (a, m') \<Rightarrow> a # spec_run dflt cs m')"

subsection \<open>Implementation\<close>

text \<open>\<open>for (; n > 0 && it != b.end(); ++it, n--)\<close>, collecting the entries.\<close>

primrec collect ::
  "nat \<Rightarrow> ('s, 'p, ('p, 'k :: linorder, 'v :: plus) node) swap_ops \<Rightarrow> 'k \<Rightarrow> 'v \<Rightarrow> ('p, 'v) betree
   \<Rightarrow> ('k, 'v) betree_iterator \<Rightarrow> 's \<Rightarrow> err + ('k \<times> 'v) list \<times> 's" where
  "collect 0 ops key0 value0 bet it s = Inr ([], s)"
| "collect (Suc n) ops key0 value0 bet it s =
     (if iterator_eq it (iterator_end key0 value0) then Inr ([], s)
      else bindE (iterator_next ops bet it s) (\<lambda>(it', s1).
        bindE (collect n ops key0 value0 bet it' s1) (\<lambda>(es, s2). Inr ((first it, second it) # es, s2))))"

definition run_call ::
  "((u64, 'k :: linorder, 'v :: plus) node, 'b, 'c) env \<Rightarrow> 'k \<Rightarrow> 'v \<Rightarrow> ('k, 'v) call
   \<Rightarrow> (u64, 'v) betree \<Rightarrow> ((u64, 'k, 'v) node, 'b, 'c) swap_space
   \<Rightarrow> err + ('k, 'v) answer \<times> (u64, 'v) betree \<times> ((u64, 'k, 'v) node, 'b, 'c) swap_space" where
  "run_call env key0 value0 call bet s =
     (let ops = space_ops env;
          scan = (\<lambda>n start. bindE start (\<lambda>(it, s1).
            bindE (collect n ops key0 value0 bet it s1) (\<lambda>(es, s2). Inr (Entries es, bet, s2)))) in
      case call of
        Insert k v \<Rightarrow> bindE (insert_key ops k v bet s) (\<lambda>(bet', s'). Inr (Done, bet', s'))
      | Update k v \<Rightarrow> bindE (update_key ops k v bet s) (\<lambda>(bet', s'). Inr (Done, bet', s'))
      | Erase k \<Rightarrow> bindE (erase ops k bet s) (\<lambda>(bet', s'). Inr (Done, bet', s'))
      | Query k \<Rightarrow> bindE (query_key ops k bet s) (\<lambda>(r, s'). Inr (Value r, bet, s'))
      | Scan n \<Rightarrow> scan n (begin_it ops key0 value0 bet s)
      | Scan_From k n \<Rightarrow> scan n (lower_bound_it ops key0 value0 bet k s)
      | Scan_After k n \<Rightarrow> scan n (upper_bound_it ops key0 value0 bet k s)
      | Evict_All \<Rightarrow> bindE (betree_evict_all env bet s) (\<lambda>s'. Inr (Done, bet, s')))"

fun run ::
  "((u64, 'k :: linorder, 'v :: plus) node, 'b, 'c) env \<Rightarrow> 'k \<Rightarrow> 'v \<Rightarrow> ('k, 'v) call list
   \<Rightarrow> (u64, 'v) betree \<Rightarrow> ((u64, 'k, 'v) node, 'b, 'c) swap_space
   \<Rightarrow> err + ('k, 'v) answer list \<times> (u64, 'v) betree \<times> ((u64, 'k, 'v) node, 'b, 'c) swap_space" where
  "run env key0 value0 [] bet s = Inr ([], bet, s)"
| "run env key0 value0 (c # cs) bet s =
     bindE (run_call env key0 value0 c bet s) (\<lambda>(a, bet1, s1).
     bindE (run env key0 value0 cs bet1 s1) (\<lambda>(answers, bet2, s2). Inr (a # answers, bet2, s2)))"

text \<open>A fresh tree over a fresh swap space with room for \<open>n\<close> nodes in memory.\<close>

definition run_new ::
  "((u64, 'k :: linorder, 'v :: plus) node, 'b, 'c) env \<Rightarrow> 'k \<Rightarrow> 'v \<Rightarrow> nat \<Rightarrow> nat \<Rightarrow> nat \<Rightarrow> u64
   \<Rightarrow> ('k, 'v) call list \<Rightarrow> 'b \<Rightarrow> 'c \<Rightarrow> err + ('k, 'v) answer list" where
  "run_new env key0 value0 maxnodesize minnodesize minflushsize n calls b c =
     bindE (betree_new (space_ops env) maxnodesize minnodesize minflushsize value0 (swap_space_new b c n)) (\<lambda>(bet, s).
     bindE (run env key0 value0 calls bet s) (\<lambda>(answers, _, _). Inr answers))"

subsection \<open>Room for upserts\<close>

text \<open>\<open>n\<close> more upserts fit into the timestamps and, in a quiet tree, into the buffers.\<close>

definition room :: "bool \<Rightarrow> nat \<Rightarrow> ('p, 'v) betree \<Rightarrow> bool" where
  "room quiet n bet \<longleftrightarrow> unat (next_timestamp bet) + n \<le> 2 ^ 29 \<and>
     (quiet \<longrightarrow> 2 * (unat (next_timestamp bet) + n) \<le> min_flush_size bet + 2)"

lemma room_less: "room quiet (Suc n) bet \<Longrightarrow> room quiet n bet"
  by (auto simp: room_def)

lemma room_upsert:
  assumes "room quiet (Suc n) bet" and "bet' = bet\<lparr>next_timestamp := next_timestamp bet + 1, root := r\<rparr>"
  shows "room quiet n bet'"
proof -
  have "unat (next_timestamp bet + 1) = Suc (unat (next_timestamp bet))"
    using assms(1) by (simp add: room_def unat_word_ariths)
  then show ?thesis using assms by (auto simp: room_def)
qed

context node_store
begin

lemma room_capacity: "room quiet (Suc n) bet \<Longrightarrow> capacity_ok quiet bet"
  by (auto simp: room_def capacity_ok_def)

lemma swap_errs: "swap_err e \<Longrightarrow> errs quiet e"
  by (simp add: errs_def)

text \<open>An upsert in the form the runs use it.\<close>

lemma wp_put:
  assumes h: "holds quiet bet s (map_of m)" and m: "map_ok m" and r: "room quiet (Suc n) bet" and known: "known_opcode (Message opc v)"
    and m': "map_ok m'" "map_of m' = (map_of m)(k := apply_msg (default_value bet) (map_of m k) (Message opc v))"
  shows "wpE (upsert ops opc k v bet s) (errs quiet)
    (\<lambda>(bet', s'). holds quiet bet' s' (map_of m') \<and> room quiet n bet' \<and> default_value bet' = default_value bet)"
  by (rule wpE_mono[OF wp_upsert[OF h room_capacity[OF r] known]])
    (auto simp: m'(2) intro: room_upsert[OF r] dest: arg_cong[of _ _ default_value])

lemma wp_collect:
  "iter_at quiet bet s f it R \<Longrightarrow>
   wpE (collect n ops key0 value0 bet it s) swap_err (\<lambda>(es, s'). es = take n R \<and> holds quiet bet s' f)"
proof (induction n arbitrary: it s R)
  case 0
  then show ?case by (simp add: iter_at_holds)
next
  case (Suc n)
  show ?case
  proof (cases R)
    case Nil
    then show ?thesis using Suc.prems iter_at_end iter_at_holds by (auto simp: Nil)
  next
    case (Cons e R')
    note at = Suc.prems[unfolded Cons]
    have "wpE (bindE (iterator_next ops bet it s) (\<lambda>(it', s1).
        bindE (collect n ops key0 value0 bet it' s1) (\<lambda>(es, s2). Inr ((first it, second it) # es, s2)))) swap_err
      (\<lambda>(es, s'). es = take (Suc n) R \<and> holds quiet bet s' f)"
      unfolding wpE_bindE
    proof (rule wpE_mono[OF wp_iterator_next[OF at]])
      fix x assume "case x of (it', s') \<Rightarrow> iter_at quiet bet s' f it' R'"
      then obtain it' s1 where x: "x = (it', s1)" and it': "iter_at quiet bet s1 f it' R'" by (cases x) auto
      show "wpE (case x of (it', s1) \<Rightarrow> bindE (collect n ops key0 value0 bet it' s1)
          (\<lambda>(es, s2). Inr ((first it, second it) # es, s2))) swap_err (\<lambda>(es, s'). es = take (Suc n) R \<and> holds quiet bet s' f)"
        unfolding x prod.case wpE_bindE
        by (rule wpE_mono[OF Suc.IH[OF it']]) (auto simp: Cons iter_at_entry[OF at])
    qed simp
    then show ?thesis using iter_at_entry(3)[OF at] by simp
  qed
qed

lemma wp_scan:
  assumes "wpE start swap_err (\<lambda>(it, s1). iter_at quiet bet s1 f it R)"
  shows "wpE (bindE start (\<lambda>(it, s1). bindE (collect n ops key0 value0 bet it s1) (\<lambda>(es, s2). Inr (Entries es, bet, s2)))) (errs quiet)
    (\<lambda>(a, bet', s'). a = Entries (take n R) \<and> bet' = bet \<and> holds quiet bet s' f)"
  unfolding wpE_bindE
proof (rule wpE_mono[OF assms])
  fix x assume "case x of (it, s1) \<Rightarrow> iter_at quiet bet s1 f it R"
  then show "wpE (case x of (it, s1) \<Rightarrow> bindE (collect n ops key0 value0 bet it s1) (\<lambda>(es, s2). Inr (Entries es, bet, s2))) (errs quiet)
    (\<lambda>(a, bet', s'). a = Entries (take n R) \<and> bet' = bet \<and> holds quiet bet s' f)"
    by (cases x) (auto simp: wpE_bindE swap_errs intro: wpE_mono[OF wp_collect])
qed (rule swap_errs)

end

lemma spec_call_ok: "map_ok m \<Longrightarrow> map_ok (snd (spec_call dflt c m))"
  by (cases c) (simp_all add: spec_call_def map_ok_put map_ok_erase_key)

lemma map_of_filter_key: "map_of (filter (\<lambda>e. P (fst e)) m) x = (if P x then map_of m x else None)"
  by (induction m) auto

context stored_tree
begin

definition call_ok :: "bool \<Rightarrow> nat \<Rightarrow> (u64, 'v) betree \<Rightarrow> ('k \<times> 'v) list
    \<Rightarrow> ('k, 'v) call \<Rightarrow> ('k, 'v) answer \<times> (u64, 'v) betree \<times> ((u64, 'k, 'v) node, 'b, 'c) swap_space \<Rightarrow> bool" where
  "call_ok quiet n bet m cmd r \<longleftrightarrow> (case r of (a, bet', s') \<Rightarrow>
     a = fst (spec_call (default_value bet) cmd m) \<and> holds quiet bet' s' (map_of (snd (spec_call (default_value bet) cmd m))) \<and>
     room quiet n bet' \<and> default_value bet' = default_value bet)"

lemma wp_upsert_call:
  assumes h: "holds quiet bet s (map_of m)" and m: "map_ok m" and r: "room quiet (Suc n) bet" and known: "known_opcode (Message opc v)"
    and a: "spec_call (default_value bet) cmd m = (Done, m')"
    and m': "map_of m' = (map_of m)(k := apply_msg (default_value bet) (map_of m k) (Message opc v))"
  shows "wpE (bindE (upsert ops opc k v bet s) (\<lambda>(bet', s'). Inr (Done, bet', s'))) (errs quiet) (call_ok quiet n bet m cmd)"
proof -
  have "map_ok m'" using spec_call_ok[OF m, of "default_value bet" cmd] a by simp
  then show ?thesis
    unfolding wpE_bindE by (intro wpE_mono[OF wp_put[OF h m r known _ m']]) (auto simp: call_ok_def a)
qed

lemma wp_scan_call:
  assumes start: "wpE start cache.swap_err (\<lambda>(it, s1). iter_at quiet bet s1 (map_of m) it R)" and r: "room quiet (Suc n) bet"
    and a: "spec_call (default_value bet) cmd m = (Entries (take l R), m)"
  shows "wpE (bindE start (\<lambda>(it, s1). bindE (collect l ops key0 value0 bet it s1) (\<lambda>(es, s2). Inr (Entries es, bet, s2))))
    (errs quiet) (call_ok quiet n bet m cmd)"
  by (rule wpE_mono[OF wp_scan[OF start]]) (auto simp: call_ok_def a room_less[OF r])

lemma wp_run_call:
  assumes h: "holds quiet bet s (map_of m)" and m: "map_ok m" and r: "room quiet (Suc n) bet"
  shows "wpE (run_call (node_env kc vc d c) key0 value0 call bet s) (errs quiet) (call_ok quiet n bet m call)"
proof (cases call)
  case (Insert k v)
  have "wpE (bindE (upsert ops INSERT k v bet s) (\<lambda>(bet', s'). Inr (Done, bet', s'))) (errs quiet) (call_ok quiet n bet m call)"
    by (rule wp_upsert_call[OF h m r]) (auto simp: Insert spec_call_def known_opcode_def map_of_put[OF m])
  then show ?thesis by (simp add: run_call_def Insert insert_key_def Let_def)
next
  case (Update k v)
  have "wpE (bindE (upsert ops UPDATE k v bet s) (\<lambda>(bet', s'). Inr (Done, bet', s'))) (errs quiet) (call_ok quiet n bet m call)"
    by (rule wp_upsert_call[OF h m r]) (auto simp: Update spec_call_def known_opcode_def map_of_put[OF m])
  then show ?thesis by (simp add: run_call_def Update update_key_def Let_def)
next
  case (Erase k)
  have "wpE (bindE (upsert ops DELETE k (default_value bet) bet s) (\<lambda>(bet', s'). Inr (Done, bet', s'))) (errs quiet) (call_ok quiet n bet m call)"
    by (rule wp_upsert_call[OF h m r]) (auto simp: Erase spec_call_def known_opcode_def map_of_erase_key[OF m])
  then show ?thesis by (simp add: run_call_def Erase erase_def Let_def)
next
  case (Query k)
  have "wpE (query_key ops k bet s) (errs quiet) (\<lambda>(q, s'). q = map_of m k \<and> holds quiet bet s' (map_of m))"
    by (rule wpE_mono[OF wp_query_key[OF h]]) (auto simp: swap_errs)
  then show ?thesis
    unfolding run_call_def Let_def Query call.case wpE_bindE
    by (rule wpE_mono) (auto simp: call_ok_def spec_call_def Query room_less[OF r])
next
  case (Scan l)
  then show ?thesis using wp_scan_call[OF wp_begin[OF h m refl] r, of call] by (simp add: run_call_def spec_call_def Let_def)
next
  case (Scan_From k l)
  then show ?thesis
    using wp_scan_call[OF wp_lower_bound[OF h map_ok_filter[OF m] map_of_filter_key] r, of call] by (simp add: run_call_def spec_call_def Let_def)
next
  case (Scan_After k l)
  then show ?thesis
    using wp_scan_call[OF wp_upper_bound[OF h map_ok_filter[OF m] map_of_filter_key] r, of call] by (simp add: run_call_def spec_call_def Let_def)
next
  case Evict_All
  have "wpE (betree_evict_all (node_env kc vc d c) bet s) (errs quiet) (\<lambda>s'. holds quiet bet s' (map_of m))"
    by (rule wpE_mono[OF wp_evict_all[OF h]]) (auto simp: swap_errs)
  then show ?thesis
    unfolding run_call_def Let_def Evict_All call.case wpE_bindE
    by (rule wpE_mono) (auto simp: call_ok_def spec_call_def Evict_All room_less[OF r])
qed

lemma wp_run:
  "holds quiet bet s (map_of m) \<Longrightarrow> map_ok m \<Longrightarrow> room quiet (length calls) bet \<Longrightarrow>
   wpE (run (node_env kc vc d c) key0 value0 calls bet s) (errs quiet) (\<lambda>(answers, _, _). answers = spec_run (default_value bet) calls m)"
proof (induction calls arbitrary: bet s m)
  case (Cons call calls)
  have r: "room quiet (Suc (length calls)) bet" using Cons.prems(3) by simp
  show ?case
    unfolding run.simps wpE_bindE
  proof (rule wpE_mono[OF wp_run_call[OF Cons.prems(1,2) r]])
    fix x assume "call_ok quiet (length calls) bet m call x"
    then obtain a bet' s' where x: "x = (a, bet', s')" and a: "a = fst (spec_call (default_value bet) call m)"
      and h: "holds quiet bet' s' (map_of (snd (spec_call (default_value bet) call m)))" and r': "room quiet (length calls) bet'"
      and dv: "default_value bet' = default_value bet"
      by (cases x) (auto simp: call_ok_def)
    show "wpE (case x of (a, bet1, s1) \<Rightarrow> bindE (run (node_env kc vc d c) key0 value0 calls bet1 s1)
        (\<lambda>(answers, bet2, s2). Inr (a # answers, bet2, s2))) (errs quiet)
        (\<lambda>(answers, _, _). answers = spec_run (default_value bet) (call # calls) m)"
      unfolding x prod.case wpE_bindE
      by (rule wpE_mono[OF Cons.IH[OF h spec_call_ok[OF Cons.prems(2)] r']])
        (auto simp: a dv split: prod.splits)
  qed simp
qed simp

lemma wp_run_new:
  assumes "binv b" and "cinv cl" and size: "3 \<le> maxn" "10 * maxn < 2 ^ 64" and len: "length calls < 2 ^ 29"
    and quiet: "quiet \<Longrightarrow> 2 * length calls \<le> minf"
  shows "wpE (run_new (node_env kc vc d c) key0 value0 maxn minn minf n calls b cl) (errs quiet) (\<lambda>answers. answers = spec_run value0 calls [])"
proof -
  have s: "cache.sinv (swap_space_new b cl n)" "cache.view (swap_space_new b cl n) = Map.empty" using new_space[OF assms(1,2)] by auto
  show ?thesis
    unfolding run_new_def wpE_bindE
  proof (rule wpE_mono[OF wp_betree_new[OF s size, where quiet = quiet]])
    fix x assume "case x of (bet, s') \<Rightarrow> holds quiet bet s' (\<lambda>_. None) \<and> next_timestamp bet = 1 \<and> min_flush_size bet = minf \<and>
      max_node_size bet = maxn \<and> default_value bet = value0"
    then obtain bet s' where x: "x = (bet, s')" and h: "holds quiet bet s' (map_of [])" and t: "next_timestamp bet = 1" "min_flush_size bet = minf"
      and dv: "default_value bet = value0" by (cases x) auto
    have "room quiet (length calls) bet" using len quiet by (auto simp: room_def t)
    from wp_run[OF h map_ok_Nil this] show "wpE (case x of (bet, s) \<Rightarrow> bindE (run (node_env kc vc d c) key0 value0 calls bet s)
        (\<lambda>(answers, _, _). Inr answers)) (errs quiet) (\<lambda>answers. answers = spec_run value0 calls [])"
      unfolding x prod.case wpE_bindE by (rule wpE_mono) (auto simp: dv)
  qed (rule swap_errs)
qed

lemma errs_iff: "errs quiet e \<longleftrightarrow> e = Counter_Wrap \<or> cerr e \<or> \<not> quiet \<and> (e = Assertion ''elt_start == elt_end'' \<or> e = Dangling_Iterator)"
  by (auto simp: errs_def cache.swap_err_def)

lemmas run_new_refines = wp_run_new[unfolded errs_iff]

end

end
