(* ===== verification/Driver.thy ===== *)
theory Driver
  imports Betree_Run
begin

text \<open>
  The test and benchmark programs of client/main.cpp: \<open>next_command\<close> reads a script, \<open>test\<close> runs a
  sequence of operations on a tree and on a \<open>std::map\<close> and asserts that they agree, and the
  benchmarks time upserts and queries.

  \<open>rand()\<close> is a parameter: \<open>rnd i\<close> is the number its \<open>i\<close>-th call returns after \<open>srand\<close>.  The keys of the program
  are made from strings by a constructor \<open>mk\<close>; \<open>mk\<close> and the key of the default constructor are
  parameters, and the order of keys is assumed linear, which the tree relies on (the program's
  own \<open>FKey\<close> is in \<open>Filesystem\<close>).  Timers and what is printed to standard output are left out; the script that \<open>test\<close> writes is part of its state.
  The loop of \<open>test\<close> counts with an \<open>unsigned int\<close>; its number of rounds is taken to be below \<open>2 ^ 32\<close>.
\<close>

subsection \<open>Scripts\<close>

text \<open>\<open>%s\<close> into a \<open>char\<close> array of the given size; \<open>None\<close> is the end of the input.\<close>

definition scan_word :: "nat \<Rightarrow> string \<Rightarrow> err + (string \<times> string) option" where
  "scan_word n s =
     (let r = skipws s; w = takeWhile (\<lambda>c. \<not> is_space c) r in
      if w = [] then Inr None
      else if length w < n then Inr (Some (c_str w, dropWhile (\<lambda>c. \<not> is_space c) r))
      else Inl Buffer_Overflow)"

text \<open>The directives \<open> -> \<close> before the second \<open>%s\<close> of a query.\<close>

definition scan_arrow :: "string \<Rightarrow> string option" where
  "scan_arrow s = (case skipws s of
     a # b # r \<Rightarrow> if a = CHR ''-'' \<and> b = CHR ''>'' then Some r else None
   | _ \<Rightarrow> None)"

definition next_command :: "string \<Rightarrow> err + (nat \<times> string) option \<times> string" where
  "next_command input =
     bindE (scan_word 64 input) (\<lambda>w. case w of
       None \<Rightarrow> Inr (None, [])
     | Some (command, r1) \<Rightarrow>
         bindE (scan_word 256 r1) (\<lambda>a. case a of
           None \<Rightarrow> Inl (Panic ''Parse error'')
         | Some (arg, r2) \<Rightarrow>
             if command = ''Inserting'' then Inr (Some (0, arg), r2)
             else if command = ''Updating'' then Inr (Some (1, arg), r2)
             else if command = ''Deleting'' then Inr (Some (2, arg), r2)
             else if command = ''Query'' then
               (case scan_arrow r2 of
                  None \<Rightarrow> Inl (Panic ''Parse error'')
                | Some r3 \<Rightarrow> bindE (scan_word 64 r3) (\<lambda>v. case v of
                    None \<Rightarrow> Inl (Panic ''Parse error'')
                  | Some (_, r4) \<Rightarrow> Inr (Some (3, arg), r4)))
             else if command = ''Full_scan'' then Inr (Some (4, arg), r2)
             else if command = ''Lower_bound_scan'' then Inr (Some (5, arg), r2)
             else if command = ''Upper_bound_scan'' then Inr (Some (6, arg), r2)
             else Inl (Panic ''Unknown command'')))"

subsection \<open>The test\<close>

text \<open>The iterator of the reference is the rest of its entries.\<close>

primrec do_scan ::
  "('s, 'p, ('p, 'k :: linorder, 'v :: plus) node) swap_ops \<Rightarrow> 'k \<Rightarrow> 'v \<Rightarrow> ('p, 'v) betree
   \<Rightarrow> ('k \<times> 'v) list \<Rightarrow> ('k, 'v) betree_iterator \<Rightarrow> 's \<Rightarrow> err + 's" where
  "do_scan ops key0 value0 b [] betit s =
     bindE (assertE (iterator_eq betit (iterator_end key0 value0)) (Assertion ''betit == b.end()'')) (\<lambda>_. Inr s)"
| "do_scan ops key0 value0 b (ref # refit) betit s =
     bindE (assertE (\<not> iterator_eq betit (iterator_end key0 value0)) (Assertion ''betit != b.end()'')) (\<lambda>_.
     bindE (assertE (first betit = fst ref) (Assertion ''betit.first == refit->first'')) (\<lambda>_.
     bindE (assertE (second betit = snd ref) (Assertion ''betit.second == refit->second'')) (\<lambda>_.
     bindE (iterator_next ops b betit s) (\<lambda>(betit', s').
     do_scan ops key0 value0 b refit betit' s'))))"

record ('s, 'p, 'k) test_state =
  tree :: "('p, string) betree"
  reference :: "('k \<times> string) list"
  script_output :: "string option"
  space :: 's

definition emit :: "string \<Rightarrow> ('s, 'p, 'k) test_state \<Rightarrow> ('s, 'p, 'k) test_state" where
  "emit line st = st\<lparr>script_output := map_option (\<lambda>out. out @ line) (script_output st)\<rparr>"

definition test_op ::
  "('s, 'p, ('p, 'k :: linorder, string) node) swap_ops \<Rightarrow> (string \<Rightarrow> 'k) \<Rightarrow> 'k \<Rightarrow> nat \<Rightarrow> string
   \<Rightarrow> ('s, 'p, 'k) test_state \<Rightarrow> err + ('s, 'p, 'k) test_state" where
  "test_op ops mk key0 opr t st =
     (let b = tree st; s = space st; ref = reference st; k = mk t; v = t @ '':'' in
      if opr = 0 then
        bindE (insert_key ops k v b s) (\<lambda>(b', s').
        Inr ((emit (''Inserting '' @ t @ endl) st)\<lparr>tree := b', space := s', reference := put ref k v\<rparr>))
      else if opr = 1 then
        bindE (update_key ops k v b s) (\<lambda>(b', s').
        Inr ((emit (''Updating '' @ t @ endl) st)\<lparr>tree := b', space := s',
          reference := (case map_of ref k of Some u \<Rightarrow> put ref k (u + v) | None \<Rightarrow> put ref k v)\<rparr>))
      else if opr = 2 then
        bindE (erase ops k b s) (\<lambda>(b', s').
        Inr ((emit (''Deleting '' @ t @ endl) st)\<lparr>tree := b', space := s', reference := erase_key ref k\<rparr>))
      else if opr = 3 then
        bindE (query_key ops k b s) (\<lambda>(r, s'). case r of
          Some bval \<Rightarrow>
            bindE (assertE (map_of ref k \<noteq> None) (Assertion ''reference.count(FKey(t)) > 0'')) (\<lambda>_.
            bindE (assertE (Some bval = map_of ref k) (Assertion ''bval == rval'')) (\<lambda>_.
            Inr ((emit (''Query '' @ t @ '' -> '' @ c_str bval @ endl) st)\<lparr>space := s'\<rparr>)))
        | None \<Rightarrow>
            bindE (assertE (map_of ref k = None) (Assertion ''reference.count(FKey(t)) == 0'')) (\<lambda>_.
            Inr ((emit (''Query '' @ t @ '' -> DNE'' @ endl) st)\<lparr>space := s'\<rparr>)))
      else if opr = 4 then
        bindE (begin_it ops key0 [] b s) (\<lambda>(betit, s1).
        bindE (do_scan ops key0 [] b ref betit s1) (\<lambda>s2.
        Inr ((emit (''Full_scan 0'' @ endl) st)\<lparr>space := s2\<rparr>)))
      else if opr = 5 then
        bindE (lower_bound_it ops key0 [] b k s) (\<lambda>(betit, s1).
        bindE (do_scan ops key0 [] b (drop (lower_bound ref k) ref) betit s1) (\<lambda>s2.
        Inr ((emit (''Lower_bound_scan '' @ t @ endl) st)\<lparr>space := s2\<rparr>)))
      else if opr = 6 then
        bindE (upper_bound_it ops key0 [] b k s) (\<lambda>(betit, s1).
        bindE (do_scan ops key0 [] b (drop (upper_bound ref k) ref) betit s1) (\<lambda>s2.
        Inr ((emit (''Upper_bound_scan '' @ t @ endl) st)\<lparr>space := s2\<rparr>)))
      else Inl (Panic ''abort''))"

text \<open>Where the operations come from: the rest of a script, or the number of the next call of \<open>rand()\<close>.\<close>

datatype input = Script string | Random nat

definition test_input :: "(nat \<Rightarrow> nat) \<Rightarrow> nat \<Rightarrow> input \<Rightarrow> err + (nat \<times> string) option \<times> input" where
  "test_input rnd nkeys inp = (case inp of
     Script txt \<Rightarrow> bindE (next_command txt) (\<lambda>(r, rest). Inr (r, Script rest))
   | Random i \<Rightarrow>
       if nkeys = 0 then Inl Division_By_Zero
       else Inr (Some (rnd i mod 7, dec (rnd (i + 1) mod nkeys)), Random (i + 2)))"

text \<open>
  \<open>test\<close> on a tree, from an empty reference.  The result tells whether the loop ran to its end
  and \<open>Test PASSED\<close> is printed, or a script ended and the program left with \<open>exit(0)\<close>.
\<close>

primrec test_loop ::
  "nat \<Rightarrow> ('s, 'p, ('p, 'k :: linorder, string) node) swap_ops \<Rightarrow> (string \<Rightarrow> 'k) \<Rightarrow> 'k \<Rightarrow> (nat \<Rightarrow> nat) \<Rightarrow> nat
   \<Rightarrow> input \<Rightarrow> ('s, 'p, 'k) test_state \<Rightarrow> err + bool \<times> ('s, 'p, 'k) test_state" where
  "test_loop 0 ops mk key0 rnd nkeys inp st = Inr (True, st)"
| "test_loop (Suc n) ops mk key0 rnd nkeys inp st =
     bindE (test_input rnd nkeys inp) (\<lambda>(r, inp'). case r of
       None \<Rightarrow> Inr (False, st)
     | Some (opr, t) \<Rightarrow>
         bindE (test_op ops mk key0 opr t st) (\<lambda>st'.
         test_loop n ops mk key0 rnd nkeys inp' st'))"

definition test ::
  "('s, 'p, ('p, 'k :: linorder, string) node) swap_ops \<Rightarrow> (string \<Rightarrow> 'k) \<Rightarrow> 'k \<Rightarrow> (nat \<Rightarrow> nat) \<Rightarrow> nat \<Rightarrow> nat
   \<Rightarrow> input \<Rightarrow> string option \<Rightarrow> ('p, string) betree \<Rightarrow> 's \<Rightarrow> err + bool \<times> ('s, 'p, 'k) test_state" where
  "test ops mk key0 rnd nops nkeys inp out b s =
     test_loop nops ops mk key0 rnd nkeys inp \<lparr>tree = b, reference = [], script_output = out, space = s\<rparr>"

subsection \<open>The benchmarks\<close>

primrec update_loop ::
  "nat \<Rightarrow> ('s, 'p, ('p, 'k :: linorder, string) node) swap_ops \<Rightarrow> (string \<Rightarrow> 'k) \<Rightarrow> (nat \<Rightarrow> nat) \<Rightarrow> nat \<Rightarrow> nat
   \<Rightarrow> ('p, string) betree \<Rightarrow> 's \<Rightarrow> err + ('p, string) betree \<times> 's" where
  "update_loop 0 ops mk rnd nkeys i b s = Inr (b, s)"
| "update_loop (Suc n) ops mk rnd nkeys i b s =
     bindE (assertE (nkeys \<noteq> 0) Division_By_Zero) (\<lambda>_.
     let t = dec (rnd i mod nkeys) in
     bindE (update_key ops (mk t) (t @ '':'') b s) (\<lambda>(b', s').
     update_loop n ops mk rnd nkeys (Suc i) b' s'))"

primrec upsert_rounds ::
  "nat \<Rightarrow> ('s, 'p, ('p, 'k :: linorder, string) node) swap_ops \<Rightarrow> (string \<Rightarrow> 'k) \<Rightarrow> (nat \<Rightarrow> nat) \<Rightarrow> nat \<Rightarrow> nat \<Rightarrow> nat
   \<Rightarrow> ('p, string) betree \<Rightarrow> 's \<Rightarrow> err + ('p, string) betree \<times> 's" where
  "upsert_rounds 0 ops mk rnd nops nkeys i b s = Inr (b, s)"
| "upsert_rounds (Suc j) ops mk rnd nops nkeys i b s =
     bindE (update_loop (nops div 100) ops mk rnd nkeys i b s) (\<lambda>(b', s').
     upsert_rounds j ops mk rnd nops nkeys (i + nops div 100) b' s')"

definition benchmark_upserts ::
  "('s, 'p, ('p, 'k :: linorder, string) node) swap_ops \<Rightarrow> (string \<Rightarrow> 'k) \<Rightarrow> (nat \<Rightarrow> nat) \<Rightarrow> nat \<Rightarrow> nat
   \<Rightarrow> ('p, string) betree \<Rightarrow> 's \<Rightarrow> err + ('p, string) betree \<times> 's" where
  "benchmark_upserts ops mk rnd nops nkeys b s = upsert_rounds 100 ops mk rnd nops nkeys 0 b s"

text \<open>\<open>b.query\<close> outside of a \<open>try\<close>: the exception ends the program.\<close>

primrec query_loop ::
  "nat \<Rightarrow> ('s, 'p, ('p, 'k :: linorder, string) node) swap_ops \<Rightarrow> (string \<Rightarrow> 'k) \<Rightarrow> (nat \<Rightarrow> nat) \<Rightarrow> nat \<Rightarrow> nat
   \<Rightarrow> ('p, string) betree \<Rightarrow> 's \<Rightarrow> err + 's" where
  "query_loop 0 ops mk rnd nkeys i b s = Inr s"
| "query_loop (Suc n) ops mk rnd nkeys i b s =
     bindE (assertE (nkeys \<noteq> 0) Division_By_Zero) (\<lambda>_.
     bindE (query_key ops (mk (dec (rnd i mod nkeys))) b s) (\<lambda>(r, s').
     case r of
       None \<Rightarrow> Inl Uncaught_Out_Of_Range
     | Some v \<Rightarrow> query_loop n ops mk rnd nkeys (Suc i) b s'))"

text \<open>\<open>srand\<close> is called again with the same seed before the queries, so they repeat the numbers of the updates.\<close>

definition benchmark_queries ::
  "('s, 'p, ('p, 'k :: linorder, string) node) swap_ops \<Rightarrow> (string \<Rightarrow> 'k) \<Rightarrow> (nat \<Rightarrow> nat) \<Rightarrow> nat \<Rightarrow> nat
   \<Rightarrow> ('p, string) betree \<Rightarrow> 's \<Rightarrow> err + ('p, string) betree \<times> 's" where
  "benchmark_queries ops mk rnd nops nkeys b s =
     bindE (update_loop nops ops mk rnd nkeys 0 b s) (\<lambda>(b', s').
     bindE (query_loop nops ops mk rnd nkeys 0 b' s') (\<lambda>s''. Inr (b', s'')))"

subsection \<open>A client fiber\<close>

definition DEFAULT_TEST_MAX_NODE_SIZE :: nat where
  "DEFAULT_TEST_MAX_NODE_SIZE = 2 ^ 6"

definition DEFAULT_TEST_MIN_FLUSH_SIZE :: nat where
  "DEFAULT_TEST_MIN_FLUSH_SIZE = DEFAULT_TEST_MAX_NODE_SIZE div 4"

definition DEFAULT_TEST_CACHE_SIZE :: u64 where
  "DEFAULT_TEST_CACHE_SIZE = 4"

definition DEFAULT_TEST_NDISTINCT_KEYS :: nat where
  "DEFAULT_TEST_NDISTINCT_KEYS = 2 ^ 10"

definition DEFAULT_TEST_NOPS :: nat where
  "DEFAULT_TEST_NOPS = 2 ^ 12"

text \<open>
  The constructor of the tree gets \<open>min_flush_size\<close> in the place of \<open>minnodesize\<close>, so that its own
  \<open>min_flush_size\<close> has the default value.
\<close>

definition client_fiber_func ::
  "nat \<Rightarrow> 'w erpc \<Rightarrow> 'k :: linorder codec \<Rightarrow> (string \<Rightarrow> 'k) \<Rightarrow> (nat \<Rightarrow> nat) \<Rightarrow> string \<Rightarrow> file_store \<Rightarrow> u64 list \<Rightarrow> storage_client
   \<Rightarrow> transport \<Rightarrow> 'w \<Rightarrow> err + ((u64, 'k, string) node, file_store, 'w client_state) swap_space" where
  "client_fiber_func fuel rpc kc mk rnd benchmark ofpobs ids junk tr w =
     (let env = node_env kc string_codec file_ops (storage_ops fuel rpc); ops = space_ops env in
      bindE (storage_client_new 0 ids junk tr) (\<lambda>(client, tr').
      let sspace = swap_space_new ofpobs (client, tr', w) DEFAULT_TEST_CACHE_SIZE in
      bindE (betree_new ops DEFAULT_TEST_MAX_NODE_SIZE DEFAULT_TEST_MIN_FLUSH_SIZE DEFAULT_MIN_FLUSH_SIZE [] sspace) (\<lambda>(b, s).
      bindE (if benchmark = ''benchmark-upserts'' then
               benchmark_upserts ops mk rnd DEFAULT_TEST_NOPS DEFAULT_TEST_NDISTINCT_KEYS b s
             else if benchmark = ''benchmark-queries'' then
               benchmark_queries ops mk rnd DEFAULT_TEST_NOPS DEFAULT_TEST_NDISTINCT_KEYS b s
             else Inr (b, s)) (\<lambda>(b', s').
      betree_evict_all env b' s'))))"

end
