(* ===== verification/Driver_Correct.thy ===== *)
theory Driver_Correct
  imports Driver
begin

text \<open>
  What the programs of client/main.cpp do, proved from the contract of the tree: \<open>test\<close> passes all
  of its assertions, whatever the operations are, and the queries of \<open>benchmark_queries\<close> find every
  key.  A script that \<open>test\<close> has written is read back by \<open>next_command\<close>.
\<close>

subsection \<open>Scripts\<close>

text \<open>A word of a script: what \<open>%s\<close> reads as one item into an array of size \<open>n\<close>.\<close>

definition plain_word :: "nat \<Rightarrow> string \<Rightarrow> bool" where
  "plain_word n w \<longleftrightarrow> w \<noteq> [] \<and> length w < n \<and> (\<forall>c\<in>set w. \<not> is_space c \<and> c \<noteq> CHR 0x00)"

definition script_err :: "err \<Rightarrow> bool" where
  "script_err e \<longleftrightarrow> e = Buffer_Overflow \<or> e = Panic ''Parse error'' \<or> e = Panic ''Unknown command''"

lemma wp_scan_word: "wpE (scan_word n s) script_err (\<lambda>_. True)"
  by (simp add: scan_word_def Let_def script_err_def)

lemma wp_next_command: "wpE (next_command txt) script_err (\<lambda>(r, _). case r of None \<Rightarrow> True | Some (opr, t) \<Rightarrow> opr < 7)"
proof -
  have "script_err (Panic ''Parse error'')" "script_err (Panic ''Unknown command'')" by (simp_all add: script_err_def)
  then show ?thesis
    unfolding next_command_def wpE_bindE
    by (intro wpE_mono[OF wp_scan_word])
      (auto simp: wpE_bindE split: option.split intro!: wpE_mono[OF wp_scan_word])
qed

lemma scan_word_plain:
  assumes "plain_word n w" and "is_space c"
  shows "scan_word n (w @ c # r) = Inr (Some (w, c # r))" and "is_space c' \<Longrightarrow> scan_word n (c' # w @ c # r) = Inr (Some (w, c # r))"
proof -
  have "skipws (w @ c # r) = w @ c # r" using assms(1) by (cases w) (auto simp: plain_word_def skipws_def)
  moreover have "takeWhile (\<lambda>c. \<not> is_space c) (w @ c # r) = w" and "dropWhile (\<lambda>c. \<not> is_space c) (w @ c # r) = c # r"
    using assms by (auto simp: plain_word_def takeWhile_append dropWhile_append)
  moreover have "c_str w = w" using assms(1) by (auto simp: plain_word_def c_str_def)
  ultimately have *: "scan_word n (w @ c # r) = Inr (Some (w, c # r))" using assms(1) by (simp add: scan_word_def plain_word_def)
  then show "scan_word n (w @ c # r) = Inr (Some (w, c # r))" .
  assume "is_space c'"
  then show "scan_word n (c' # w @ c # r) = Inr (Some (w, c # r))" using * by (simp add: scan_word_def skipws_def)
qed

lemma next_command_line:
  assumes w: "plain_word 64 w" and t: "plain_word 256 t"
    and c: "(w, opr) \<in> {(''Inserting'', 0), (''Updating'', 1), (''Deleting'', 2), (''Full_scan'', 4), (''Lower_bound_scan'', 5), (''Upper_bound_scan'', 6)}"
  shows "next_command (w @ '' '' @ t @ endl @ rest) = Inr (Some (opr, t), endl @ rest)"
proof -
  have sp: "is_space (CHR '' '')" "is_space (CHR 0x0A)" by (simp_all add: is_space_def)
  have "scan_word 64 (w @ CHR '' '' # t @ CHR 0x0A # rest) = Inr (Some (w, CHR '' '' # t @ CHR 0x0A # rest))"
    by (rule scan_word_plain(1)[OF w sp(1)])
  moreover have "scan_word 256 (CHR '' '' # t @ CHR 0x0A # rest) = Inr (Some (t, CHR 0x0A # rest))"
    by (rule scan_word_plain(2)[OF t sp(2,1)])
  ultimately show ?thesis using c by (auto simp: next_command_def endl_def)
qed

text \<open>The word that starts the line of an operation, and the key the line names.\<close>

definition command_word :: "nat \<Rightarrow> string" where
  "command_word opr = [''Inserting'', ''Updating'', ''Deleting'', ''Query'', ''Full_scan'', ''Lower_bound_scan'', ''Upper_bound_scan''] ! opr"

definition command_key :: "nat \<Rightarrow> string \<Rightarrow> string" where
  "command_key opr t = (if opr = 4 then ''0'' else t)"

lemma command_cases: "opr < 7 \<Longrightarrow> opr \<noteq> 3 \<Longrightarrow> opr \<in> {0, 1, 2, 4, 5, 6 :: nat}"
  by auto

lemma next_command_word:
  assumes "opr < 7" and "opr \<noteq> 3" and "plain_word 256 t"
  shows "next_command (command_word opr @ '' '' @ command_key opr t @ endl @ rest) = Inr (Some (opr, command_key opr t), endl @ rest)"
proof (rule next_command_line)
  show "plain_word 64 (command_word opr)"
    using command_cases[OF assms(1,2)] by (auto simp: command_word_def plain_word_def is_space_def)
  show "plain_word 256 (command_key opr t)" using assms(3) by (simp add: command_key_def plain_word_def is_space_def)
  show "(command_word opr, opr) \<in> {(''Inserting'', 0), (''Updating'', 1), (''Deleting'', 2), (''Full_scan'', 4), (''Lower_bound_scan'', 5), (''Upper_bound_scan'', 6)}"
    using command_cases[OF assms(1,2)] by (auto simp: command_word_def)
qed

lemma test_op_line:
  assumes "test_op ops mk nokey opr t st = Inr st'" and "opr \<noteq> 3"
  shows "opr < 7" and "script_output st' = map_option (\<lambda>out. out @ command_word opr @ '' '' @ command_key opr t @ endl) (script_output st)"
proof -
  show lt: "opr < 7"
  proof (rule ccontr)
    assume "\<not> opr < 7"
    then show False using assms(1) by (simp add: test_op_def Let_def)
  qed
  have "opr = 0 \<or> opr = 1 \<or> opr = 2 \<or> opr = 4 \<or> opr = 5 \<or> opr = 6" using command_cases[OF lt assms(2)] by simp
  then show "script_output st' = map_option (\<lambda>out. out @ command_word opr @ '' '' @ command_key opr t @ endl) (script_output st)"
    using assms(1) by (elim disjE) (auto simp: test_op_def Let_def emit_def bindE_eq_Inr_iff command_word_def command_key_def)
qed

lemma next_command_query:
  assumes t: "plain_word 256 t"
  shows "next_command (''Query '' @ t @ '' -> '' @ v @ endl @ rest) =
    bindE (scan_word 64 ('' '' @ v @ endl @ rest)) (\<lambda>r. case r of None \<Rightarrow> Inl (Panic ''Parse error'') | Some (_, r4) \<Rightarrow> Inr (Some (3, t), r4))"
proof -
  have sp: "is_space (CHR '' '')" by (simp add: is_space_def)
  have "plain_word 64 ''Query''" by (simp add: plain_word_def is_space_def)
  from scan_word_plain(1)[OF this sp] have "scan_word 64 (''Query'' @ CHR '' '' # t @ CHR '' '' # ''->'' @ '' '' @ v @ endl @ rest) =
      Inr (Some (''Query'', CHR '' '' # t @ CHR '' '' # ''->'' @ '' '' @ v @ endl @ rest))" .
  moreover have "scan_word 256 (CHR '' '' # t @ CHR '' '' # ''->'' @ '' '' @ v @ endl @ rest) = Inr (Some (t, CHR '' '' # ''->'' @ '' '' @ v @ endl @ rest))"
    by (rule scan_word_plain(2)[OF t sp sp])
  moreover have "scan_arrow (CHR '' '' # ''->'' @ '' '' @ v @ endl @ rest) = Some ('' '' @ v @ endl @ rest)"
    by (simp add: scan_arrow_def skipws_def is_space_def)
  ultimately show ?thesis by (simp add: next_command_def)
qed

lemma scan_word_long:
  assumes "n \<le> length v" and "\<forall>c\<in>set v. \<not> is_space c" and "0 < n"
  shows "scan_word n ('' '' @ v @ endl @ rest) = Inl Buffer_Overflow"
proof -
  have v: "v \<noteq> []" using assms by auto
  then have "skipws ('' '' @ v @ endl @ rest) = v @ endl @ rest" using assms(2) by (cases v) (auto simp: skipws_def is_space_def)
  moreover have "takeWhile (\<lambda>c. \<not> is_space c) (v @ endl @ rest) = v"
    using assms(2) by (auto simp: takeWhile_append endl_def is_space_def)
  ultimately show ?thesis using assms v by (simp add: scan_word_def)
qed

subsection \<open>Scans\<close>

context node_store
begin

lemma wp_do_scan:
  "iter_at quiet bet s f it R \<Longrightarrow> wpE (do_scan ops key0 value0 bet R it s) swap_err (\<lambda>s'. holds quiet bet s' f)"
proof (induction R arbitrary: it s)
  case Nil
  then show ?case using iter_at_end iter_at_holds by (auto simp: wp_rules)
next
  case (Cons e R)
  note at = Cons.prems
  have "wpE (bindE (iterator_next ops bet it s) (\<lambda>(it', s'). do_scan ops key0 value0 bet R it' s')) swap_err (\<lambda>s'. holds quiet bet s' f)"
    unfolding wpE_bindE by (rule wpE_mono[OF wp_iterator_next[OF at]]) (auto intro: Cons.IH)
  then show ?case using iter_at_entry[OF at] by simp
qed

lemma wp_started_scan:
  assumes "wpE start swap_err (\<lambda>(it, s1). iter_at quiet bet s1 f it R)"
    and Q: "\<And>s2. holds quiet bet s2 f \<Longrightarrow> Q (g s2)"
  shows "wpE (bindE start (\<lambda>(it, s1). bindE (do_scan ops key0 value0 bet R it s1) (\<lambda>s2. Inr (g s2)))) (errs quiet) Q"
  unfolding wpE_bindE
proof (rule wpE_mono[OF assms(1)])
  fix x assume "case x of (it, s1) \<Rightarrow> iter_at quiet bet s1 f it R"
  then show "wpE (case x of (it, s1) \<Rightarrow> bindE (do_scan ops key0 value0 bet R it s1) (\<lambda>s2. Inr (g s2))) (errs quiet) Q"
    by (cases x) (auto simp: wpE_bindE swap_errs intro!: wpE_mono[OF wp_do_scan] Q)
qed (rule swap_errs)

end

subsection \<open>The test\<close>

locale string_store = node_store ops view pins sinv storable swap_err
  for ops :: "('s, 'p, ('p, 'k :: linorder, string) node) swap_ops"
    and view :: "'s \<Rightarrow> 'p \<Rightarrow> ('p, 'k, string) node option"
    and pins :: "'s \<Rightarrow> 'p \<Rightarrow> nat" and sinv :: "'s \<Rightarrow> bool"
    and storable :: "('p, 'k, string) node \<Rightarrow> bool" and swap_err :: "err \<Rightarrow> bool"
begin

definition test_inv :: "bool \<Rightarrow> nat \<Rightarrow> ('s, 'p, 'k) test_state \<Rightarrow> bool" where
  "test_inv quiet n st \<longleftrightarrow> holds quiet (tree st) (space st) (map_of (reference st)) \<and> map_ok (reference st) \<and>
     room quiet n (tree st) \<and> default_value (tree st) = []"

lemma wp_test_upsert:
  assumes inv: "test_inv quiet (Suc n) st" and known: "known_opcode (Message opc v)"
    and m': "map_ok m'" "map_of m' = (map_of (reference st))(k := apply_msg [] (map_of (reference st) k) (Message opc v))"
  shows "wpE (bindE (upsert ops opc k v (tree st) (space st)) (\<lambda>(b', s'). Inr ((emit line st)\<lparr>tree := b', space := s', reference := m'\<rparr>)))
    (errs quiet) (test_inv quiet n)"
  unfolding wpE_bindE
  using inv m' by (intro wpE_mono[OF wp_put[where m' = m', OF _ _ _ known]]) (auto simp: test_inv_def emit_def)

lemma wp_test_scan:
  assumes inv: "test_inv quiet (Suc n) st"
    and start: "wpE start swap_err (\<lambda>(it, s1). iter_at quiet (tree st) s1 (map_of (reference st)) it R)"
  shows "wpE (bindE start (\<lambda>(it, s1). bindE (do_scan ops key0 value0 (tree st) R it s1) (\<lambda>s2. Inr ((emit line st)\<lparr>space := s2\<rparr>))))
    (errs quiet) (test_inv quiet n)"
  by (rule wp_started_scan[OF start]) (use inv room_less in \<open>auto simp: test_inv_def emit_def\<close>)

lemma wp_test_query:
  assumes inv: "test_inv quiet (Suc n) st"
  shows "wpE (test_op ops mk key0 3 t st) (errs quiet) (test_inv quiet n)"
proof -
  have h: "holds quiet (tree st) (space st) (map_of (reference st))" using inv by (simp add: test_inv_def)
  show ?thesis
    unfolding test_op_def Let_def
    by (simp add: wpE_bindE, rule wpE_mono[OF wp_query_key[OF h]])
      (use inv room_less in \<open>auto simp: test_inv_def emit_def wp_rules swap_errs split: option.split\<close>)
qed

lemma wp_test_op:
  assumes inv: "test_inv quiet (Suc n) st" and "opr < 7"
  shows "wpE (test_op ops mk key0 opr t st) (errs quiet) (test_inv quiet n)"
proof -
  have h: "holds quiet (tree st) (space st) (map_of (reference st))" and m: "map_ok (reference st)"
    and dv: "default_value (tree st) = []" using inv by (auto simp: test_inv_def)
  have plus: "([] :: string) + v = v" for v by (simp add: plus_list_def)
  consider "opr = 0" | "opr = 1" | "opr = 2" | "opr = 3" | "opr = 4" | "opr = 5" | "opr = 6" using assms(2) by linarith
  then show ?thesis
  proof cases
    case 1
    then show ?thesis
      using wp_test_upsert[OF inv, of INSERT "t @ '':''" "put (reference st) (mk t) (t @ '':'')" "mk t"] map_ok_put[OF m] map_of_put[OF m]
      by (simp add: test_op_def Let_def insert_key_def known_opcode_def)
  next
    case 2
    let ?m = "case map_of (reference st) (mk t) of Some u \<Rightarrow> put (reference st) (mk t) (u + (t @ '':'')) | None \<Rightarrow> put (reference st) (mk t) (t @ '':'')"
    have "map_ok ?m" "map_of ?m = (map_of (reference st))(mk t := apply_msg [] (map_of (reference st) (mk t)) (Message UPDATE (t @ '':'')))"
      using map_ok_put[OF m] map_of_put[OF m] plus by (auto split: option.split)
    from wp_test_upsert[OF inv _ this] 2 show ?thesis
      by (simp add: test_op_def Let_def update_key_def known_opcode_def)
  next
    case 3
    then show ?thesis
      using wp_test_upsert[OF inv, of DELETE "[]" "erase_key (reference st) (mk t)" "mk t"] map_ok_erase_key[OF m] map_of_erase_key[OF m]
      by (simp add: test_op_def Let_def erase_def known_opcode_def dv)
  next
    case 4
    then show ?thesis using wp_test_query[OF inv] by simp
  next
    case 5
    then show ?thesis using wp_test_scan[OF inv wp_begin[OF h m refl]] by (simp add: test_op_def Let_def)
  next
    case 6
    have "drop (lower_bound (reference st) (mk t)) (reference st) = filter (\<lambda>e. mk t \<le> fst e) (reference st)"
      by (simp add: map_view m not_less)
    then show ?thesis using 6 wp_test_scan[OF inv wp_lower_bound[OF h map_ok_filter[OF m] map_of_filter_key]]
      by (simp add: test_op_def Let_def)
  next
    case 7
    have "drop (upper_bound (reference st) (mk t)) (reference st) = filter (\<lambda>e. mk t < fst e) (reference st)"
      by (simp add: map_view m not_le)
    then show ?thesis using 7 wp_test_scan[OF inv wp_upper_bound[OF h map_ok_filter[OF m] map_of_filter_key]]
      by (simp add: test_op_def Let_def)
  qed
qed

end

definition input_ok :: "nat \<Rightarrow> input \<Rightarrow> bool" where
  "input_ok nkeys inp \<longleftrightarrow> (case inp of Script _ \<Rightarrow> True | Random _ \<Rightarrow> nkeys \<noteq> 0)"

definition scripted :: "input \<Rightarrow> bool" where
  "scripted inp \<longleftrightarrow> (case inp of Script _ \<Rightarrow> True | Random _ \<Rightarrow> False)"

lemma wp_test_input:
  assumes "input_ok nkeys inp"
  shows "wpE (test_input rnd nkeys inp) (\<lambda>e. scripted inp \<and> script_err e) (\<lambda>(r, inp').
    input_ok nkeys inp' \<and> scripted inp' = scripted inp \<and>
    (case r of None \<Rightarrow> scripted inp | Some (opr, t) \<Rightarrow> opr < 7))"
proof (cases inp)
  case (Script scr)
  have "wpE (next_command scr) (\<lambda>e. scripted inp \<and> script_err e) (\<lambda>(r, _). case r of None \<Rightarrow> True | Some (opr, t) \<Rightarrow> opr < 7)"
    by (rule wpE_mono[OF wp_next_command]) (auto simp: Script scripted_def)
  then show ?thesis
    unfolding test_input_def Script input.case wpE_bindE
    by (rule wpE_mono) (auto simp: input_ok_def scripted_def split: option.splits)
next
  case (Random i)
  then show ?thesis using assms by (simp add: test_input_def input_ok_def scripted_def)
qed

context string_store
begin

lemma wp_test_loop:
  assumes "test_inv quiet n st" and "input_ok nkeys inp"
  shows "wpE (test_loop n ops mk key0 rnd nkeys inp st) (\<lambda>e. errs quiet e \<or> scripted inp \<and> script_err e)
    (\<lambda>(passed, st'). (passed \<or> scripted inp) \<and> test_inv quiet 0 st')"
  using assms
proof (induction n arbitrary: inp st)
  case (Suc n)
  have less: "test_inv quiet 0 st" using Suc.prems(1) by (auto simp: test_inv_def room_def)
  show ?case
    unfolding test_loop.simps wpE_bindE
  proof (rule wpE_mono[OF wp_test_input[OF Suc.prems(2), of rnd]])
    fix x :: "(nat \<times> string) option \<times> input" assume "case x of (r, inp') \<Rightarrow> input_ok nkeys inp' \<and> scripted inp' = scripted inp \<and>
      (case r of None \<Rightarrow> scripted inp | Some (opr, t) \<Rightarrow> opr < 7)"
    then obtain r inp' where x: "x = (r, inp')" and i: "input_ok nkeys inp'" "scripted inp' = scripted inp"
      and r: "case r of None \<Rightarrow> scripted inp | Some (opr, t) \<Rightarrow> opr < 7" by (cases x) auto
    show "wpE (case x of (r, inp') \<Rightarrow> (case r of None \<Rightarrow> Inr (False, st)
        | Some (opr, t) \<Rightarrow> bindE (test_op ops mk key0 opr t st) (\<lambda>st'. test_loop n ops mk key0 rnd nkeys inp' st')))
      (\<lambda>e. errs quiet e \<or> scripted inp \<and> script_err e) (\<lambda>(passed, st'). (passed \<or> scripted inp) \<and> test_inv quiet 0 st')"
    proof (cases r)
      case None
      then show ?thesis using r less by (simp add: x)
    next
      case (Some ot)
      obtain opr t where ot: "ot = (opr, t)" by (cases ot)
      have op7: "opr < 7" using r by (simp add: Some ot)
      show ?thesis
        unfolding x Some ot prod.case option.case wpE_bindE
        by (rule wpE_mono[OF wp_test_op[OF Suc.prems(1) op7]]) (use Suc.IH[OF _ i(1)] i(2) in auto)
    qed
  qed simp
qed (auto simp: test_inv_def)

subsubsection \<open>Benchmarks\<close>

lemma wp_update_loop:
  assumes "holds quiet b s f" and "room quiet (l + n) b" and "nkeys \<noteq> 0"
  shows "wpE (update_loop n ops mk rnd nkeys i b s) (errs quiet) (\<lambda>(b', s'). room quiet l b' \<and>
    (\<exists>f'. holds quiet b' s' f' \<and> dom f \<union> (\<lambda>j. mk (dec (rnd j mod nkeys))) ` {i..<i + n} \<subseteq> dom f'))"
  using assms(1,2)
proof (induction n arbitrary: b s f i)
  case 0
  then show ?case by auto
next
  case (Suc n)
  let ?t = "dec (rnd i mod nkeys)"
  have r: "room quiet (Suc (l + n)) b" using Suc.prems(2) by simp
  have "wpE (bindE (update_key ops (mk ?t) (?t @ '':'') b s) (\<lambda>(b', s'). update_loop n ops mk rnd nkeys (Suc i) b' s')) (errs quiet)
    (\<lambda>(b', s'). room quiet l b' \<and> (\<exists>f'. holds quiet b' s' f' \<and> dom f \<union> (\<lambda>j. mk (dec (rnd j mod nkeys))) ` {i..<i + Suc n} \<subseteq> dom f'))"
    unfolding wpE_bindE update_key_def
  proof (rule wpE_mono[OF wp_upsert[OF Suc.prems(1) room_capacity[OF r]]])
    let ?v = "apply_msg (default_value b) (f (mk ?t)) (Message UPDATE (?t @ '':''))"
    fix x assume "case x of (b', s') \<Rightarrow> holds quiet b' s' (f(mk ?t := ?v)) \<and> b' = b\<lparr>next_timestamp := next_timestamp b + 1, root := root b'\<rparr>"
    then obtain b' s' where x: "x = (b', s')" and h: "holds quiet b' s' (f(mk ?t := ?v))"
      and b': "b' = b\<lparr>next_timestamp := next_timestamp b + 1, root := root b'\<rparr>" by (cases x) auto
    have dom: "dom f \<union> (\<lambda>j. mk (dec (rnd j mod nkeys))) ` {i..<i + Suc n} \<subseteq> dom f'"
      if "dom (f(mk ?t := ?v)) \<union> (\<lambda>j. mk (dec (rnd j mod nkeys))) ` {Suc i..<Suc i + n} \<subseteq> dom f'" for f' :: "'k \<Rightarrow> string option"
    proof -
      have ins: "{i..<i + Suc n} = insert i {Suc i..<Suc i + n}" by auto
      have "mk ?t \<in> dom (f(mk ?t := ?v))" "dom f \<subseteq> dom (f(mk ?t := ?v))" by (auto simp: apply_msg_def)
      then show ?thesis using that unfolding ins image_insert by blast
    qed
    show "wpE (case x of (b', s') \<Rightarrow> update_loop n ops mk rnd nkeys (Suc i) b' s') (errs quiet)
      (\<lambda>(b', s'). room quiet l b' \<and> (\<exists>f'. holds quiet b' s' f' \<and> dom f \<union> (\<lambda>j. mk (dec (rnd j mod nkeys))) ` {i..<i + Suc n} \<subseteq> dom f'))"
      unfolding x prod.case
      by (rule wpE_mono[OF Suc.IH[OF h room_upsert[OF r b']]]) (use dom in blast)+
  qed (simp_all add: known_opcode_def)
  then show ?case using assms(3) by (simp add: Let_def)
qed

lemma wp_query_loop:
  assumes "holds quiet b s f" and "nkeys \<noteq> 0" and "(\<lambda>j. mk (dec (rnd j mod nkeys))) ` {i..<i + n} \<subseteq> dom f"
  shows "wpE (query_loop n ops mk rnd nkeys i b s) swap_err (\<lambda>s'. holds quiet b s' f)"
  using assms(1,3)
proof (induction n arbitrary: s i)
  case (Suc n)
  have "{i..<i + Suc n} = insert i {Suc i..<Suc i + n}" by auto
  then have "mk (dec (rnd i mod nkeys)) \<in> dom f" and rest: "(\<lambda>j. mk (dec (rnd j mod nkeys))) ` {Suc i..<Suc i + n} \<subseteq> dom f"
    using Suc.prems(2) by simp_all
  then obtain v where v: "f (mk (dec (rnd i mod nkeys))) = Some v" by blast
  have "wpE (bindE (query_key ops (mk (dec (rnd i mod nkeys))) b s) (\<lambda>(r, s'). case r of None \<Rightarrow> Inl Uncaught_Out_Of_Range
      | Some v \<Rightarrow> query_loop n ops mk rnd nkeys (Suc i) b s')) swap_err (\<lambda>s'. holds quiet b s' f)"
    unfolding wpE_bindE by (rule wpE_mono[OF wp_query_key[OF Suc.prems(1)]]) (auto simp: v Suc.IH[OF _ rest])
  then show ?case using assms(2) by simp
qed simp

lemma wp_benchmark_queries:
  assumes "holds quiet b s f" and "room quiet nops b" and "nkeys \<noteq> 0"
  shows "wpE (benchmark_queries ops mk rnd nops nkeys b s) (errs quiet) (\<lambda>(b', s'). \<exists>f'. holds quiet b' s' f')"
  unfolding benchmark_queries_def wpE_bindE
proof (rule wpE_mono[OF wp_update_loop[OF assms(1) _ assms(3), where l = 0 and n = nops]])
  fix x assume "case x of (b', s') \<Rightarrow> room quiet 0 b' \<and>
    (\<exists>f'. holds quiet b' s' f' \<and> dom f \<union> (\<lambda>j. mk (dec (rnd j mod nkeys))) ` {0..<0 + nops} \<subseteq> dom f')"
  then obtain b' s' f' where x: "x = (b', s')" and h: "holds quiet b' s' f'"
    and dom: "(\<lambda>j. mk (dec (rnd j mod nkeys))) ` {0..<0 + nops} \<subseteq> dom f'" by (cases x) auto
  show "wpE (case x of (b', s') \<Rightarrow> bindE (query_loop nops ops mk rnd nkeys 0 b' s') (\<lambda>s''. Inr (b', s''))) (errs quiet)
    (\<lambda>(b', s'). \<exists>f'. holds quiet b' s' f')"
    unfolding x prod.case wpE_bindE by (rule wpE_mono[OF wp_query_loop[OF h assms(3) dom]]) (auto simp: swap_errs)
qed (use assms(2) in simp_all)

lemma wp_upsert_rounds:
  assumes "holds quiet b s f" and "room quiet (j * (nops div 100)) b" and "nkeys \<noteq> 0"
  shows "wpE (upsert_rounds j ops mk rnd nops nkeys i b s) (errs quiet) (\<lambda>(b', s'). \<exists>f'. holds quiet b' s' f')"
  using assms(1,2)
proof (induction j arbitrary: b s f i)
  case (Suc j)
  show ?case
    unfolding upsert_rounds.simps wpE_bindE
    by (rule wpE_mono[OF wp_update_loop[OF Suc.prems(1) _ assms(3), where l = "j * (nops div 100)"]])
      (use Suc.prems(2) Suc.IH in \<open>auto simp: add.commute\<close>)
qed auto

end

subsection \<open>On a fresh swap space\<close>

locale stored_strings = stored_tree d contents binv c cinv cerr kc vc
  for d :: "'b backing_ops" and contents :: "'b \<Rightarrow> u64 \<Rightarrow> string option" and binv :: "'b \<Rightarrow> bool"
    and c :: "'c client_ops" and cinv :: "'c \<Rightarrow> bool" and cerr :: "err \<Rightarrow> bool"
    and kc :: "'k :: linorder codec" and vc :: "string codec"

sublocale stored_strings \<subseteq> string_store "space_ops (node_env kc vc d c)" cache.view cache.pins cache.sinv
    "Serialization.storable_node (\<lambda>_. True) (\<lambda>_. True)" cache.swap_err
  by unfold_locales

context stored_strings
begin

text \<open>A run that starts with a fresh tree: what follows may assume an empty tree with room for \<open>n\<close> upserts.\<close>

lemma wp_new_tree:
  assumes "binv b" and "cinv cl" and size: "3 \<le> maxn" "10 * maxn < 2 ^ 64" and n: "n < 2 ^ 29" "2 * n \<le> minf"
    and cont: "\<And>bet s. holds True bet s (\<lambda>_. None) \<Longrightarrow> room True n bet \<Longrightarrow> default_value bet = [] \<Longrightarrow> wpE (f bet s) E Q"
    and E: "\<And>e. cache.swap_err e \<Longrightarrow> E e"
  shows "wpE (bindE (betree_new ops maxn minn minf [] (swap_space_new b cl cachesize)) (\<lambda>(bet, s). f bet s)) E Q"
  unfolding wpE_bindE
proof (rule wpE_mono[OF wp_betree_new[where quiet = True]])
  show "cache.sinv (swap_space_new b cl cachesize)" "cache.view (swap_space_new b cl cachesize) = Map.empty"
    using new_space[OF assms(1,2)] by auto
  fix x assume "case x of (bet, s') \<Rightarrow> holds True bet s' (\<lambda>_. None) \<and> next_timestamp bet = 1 \<and> min_flush_size bet = minf \<and>
      max_node_size bet = maxn \<and> default_value bet = []"
  then show "wpE (case x of (bet, s) \<Rightarrow> f bet s) E Q" using n by (cases x) (auto intro!: cont simp: room_def)
qed (use size E in auto)

lemma errs_quiet: "errs True e \<longleftrightarrow> cache.swap_err e"
  by (simp add: errs_def)

lemma wp_test_new:
  assumes "binv b" and "cinv cl" and "3 \<le> maxn" "10 * maxn < 2 ^ 64" and n: "nops < 2 ^ 29" "2 * nops \<le> minf" and inp: "input_ok nkeys inp"
  shows "wpE (bindE (betree_new ops maxn minn minf [] (swap_space_new b cl cachesize)) (\<lambda>(bet, s). test ops mk key0 rnd nops nkeys inp out bet s))
    (\<lambda>e. cache.swap_err e \<or> scripted inp \<and> script_err e) (\<lambda>(passed, _). passed \<or> scripted inp)"
proof (rule wp_new_tree[OF assms(1-4) n])
  fix bet s assume h: "holds True bet s (\<lambda>_. None)" "room True nops bet" "default_value bet = []"
  have "test_inv True nops \<lparr>tree = bet, reference = [], script_output = out, space = s\<rparr>" using h by (simp add: test_inv_def)
  from wp_test_loop[OF this inp, of mk key0 rnd] show "wpE (test ops mk key0 rnd nops nkeys inp out bet s)
    (\<lambda>e. cache.swap_err e \<or> scripted inp \<and> script_err e) (\<lambda>(passed, _). passed \<or> scripted inp)"
    unfolding test_def by (rule wpE_mono) (auto simp: errs_quiet)
qed simp

lemma wp_fiber:
  assumes "binv b" and "cinv cl"
  shows "wpE (bindE (betree_new ops DEFAULT_TEST_MAX_NODE_SIZE minn DEFAULT_MIN_FLUSH_SIZE [] (swap_space_new b cl cachesize)) (\<lambda>(bet, s).
      bindE (if bench = ''benchmark-upserts'' then
               benchmark_upserts ops mk rnd DEFAULT_TEST_NOPS DEFAULT_TEST_NDISTINCT_KEYS bet s
             else if bench = ''benchmark-queries'' then
               benchmark_queries ops mk rnd DEFAULT_TEST_NOPS DEFAULT_TEST_NDISTINCT_KEYS bet s
             else Inr (bet, s)) (\<lambda>(bet', s'). betree_evict_all (node_env kc vc d c) bet' s'))) cache.swap_err (\<lambda>_. True)"
proof (rule wp_new_tree[OF assms, where n = "2 ^ 12"])
  fix bet s assume h: "holds True bet s (\<lambda>_. None)" and r: "room True (2 ^ 12) bet"
  let ?bench = "if bench = ''benchmark-upserts'' then
        benchmark_upserts ops mk rnd DEFAULT_TEST_NOPS DEFAULT_TEST_NDISTINCT_KEYS bet s
      else if bench = ''benchmark-queries'' then
        benchmark_queries ops mk rnd DEFAULT_TEST_NOPS DEFAULT_TEST_NDISTINCT_KEYS bet s
      else Inr (bet, s)"
  have r': "room True (100 * (2 ^ 12 div 100)) bet" using r by (auto simp: room_def)
  have "wpE ?bench (errs True) (\<lambda>(bet', s'). \<exists>f'. holds True bet' s' f')"
    using wp_benchmark_queries[OF h r] wp_upsert_rounds[OF h r'] h
    by (auto simp: benchmark_upserts_def DEFAULT_TEST_NOPS_def DEFAULT_TEST_NDISTINCT_KEYS_def)
  then show "wpE (bindE ?bench (\<lambda>(bet', s'). betree_evict_all (node_env kc vc d c) bet' s')) cache.swap_err (\<lambda>_. True)"
    unfolding wpE_bindE by (rule wpE_mono) (auto simp: errs_quiet intro: wpE_mono[OF wp_evict_all])
qed (simp_all add: DEFAULT_TEST_MAX_NODE_SIZE_def DEFAULT_MIN_FLUSH_SIZE_def DEFAULT_MAX_NODE_SIZE_def)

lemmas test_new_passes = wp_test_new[unfolded cache.swap_err_def]

lemmas fiber_runs = wp_fiber[unfolded cache.swap_err_def]

end

interpretation str_client: stored_strings file_ops file_contents "\<lambda>b. 0 < nextid b" "storage_ops fuel loopback" loop.client_idle client_err string_codec string_codec
  for fuel
  by unfold_locales

end
