(* ===== verification/Loopback.thy ===== *)
theory Loopback
  imports Storage
begin

text \<open>
  Client and server in one process.  Over the network \<open>loopback\<close>, whose event loop hands each
  queued request to the server's handler, the calls of the client do return: the wait for a reply
  ends after one turn.  So the contract of the client holds with the overflow of the request
  buffer as its only error, for any fuel but 0.
\<close>

lemma loop_session:
  assumes "loop.net_ok tr"
  shows "\<exists>i tr'. GetSession f rcv loopback 0 d (r, tr, w) = Inr (i, r, tr', w) \<and> tr' = tr\<lparr>sessions := sessions tr'\<rparr>"
proof (cases "sessions tr (0, d)")
  case (Some i)
  then show ?thesis by (simp add: GetSession_def)
next
  case None
  have "GetServerAddress (tr_config tr) (uint (0 :: u8)) = Inr (servers (tr_config tr) ! 0)"
    using assms by (simp add: GetServerAddress_def loop.net_ok_def)
  then show ?thesis by (simp add: GetSession_def None wait_until.simps loopback_def)
qed

lemma loop_send:
  assumes net: "loop.net_ok tr" "loop_queue w = []" and blocked: "blocked cl"
    and srv: "ReceiveRequest t (loop_app w) msg blank_response = Inr (app, resp, len)"
    and reply: "\<not> blocked (client_ReceiveResponse t resp cl)"
  shows "\<exists>tr'. SendRequestToServer (Suc f) client_receiver loopback t 0 d msg (cl, tr, w) =
    Inr (client_ReceiveResponse t resp cl, tr', w\<lparr>loop_app := app, loop_queue := []\<rparr>)"
proof -
  obtain i tr1 where s: "GetSession (Suc f) client_receiver loopback 0 d (cl, tr, w) = Inr (i, cl, tr1, w)"
    using loop_session[OF net(1), of "Suc f" client_receiver d cl w] by (elim exE conjE) (rule that)
  have a: "assertE ((0 :: u32) < word_of_int (conf_n (tr_config tr))) (Assertion ''serverIdx < config.n'') = Inr ()"
    using net(1) by (simp add: loop.net_ok_def)
  have u: "(ucast (0 :: u32) :: u8) = 0" by simp
  let ?tag = "crt_req_tag tr1"
  have turn: "run_event_loop_once loopback (enqueue_request loopback i t msg ?tag w) =
    ([(?tag, resp)], w\<lparr>loop_app := app, loop_queue := []\<rparr>)"
    using net(2) srv by (simp add: loopback_def)
  show ?thesis
    unfolding SendRequestToServer_def fst_conv snd_conv a bindE_simps u s prod.case Let_def
    by (subst wait_until.simps) (simp add: blocked event_loop_once_def turn fasttransport_response_def client_receiver_def
        wait_until.simps reply)
qed

lemma loop_request_buf:
  assumes "loop.client_idle (cl, tr, w)"
  shows "\<exists>tr'. GetRequestBuf loopback (tr, w) = Inr (blank_request, tr', w) \<and> loop.net_ok tr'"
proof -
  have "wpE (GetRequestBuf loopback (tr, w)) (\<lambda>_. False) (\<lambda>(buf, tr', w'). loop.client_prepared (cl, tr', w'))"
    by (rule loop.wp_GetRequestBuf[OF assms])
  then show ?thesis
    by (cases "pool_alloc (req_tag_pool tr)") (auto simp: GetRequestBuf_def loopback_def loop.client_prepared_def)
qed

text \<open>\<open>GetNodeId\<close> returns the number the server is at, and the server goes on to the next.\<close>

lemma loop_GetNodeId:
  assumes "loop.client_idle (cl, tr, w)"
  shows "\<exists>reply cl' tr' w'. GetNodeId (Suc f) loopback d 0 request (cl, tr, w) = Inr (reply, cl', tr', w') \<and>
    nid_nodeIdx reply = current_id (loop_app w) \<and> current_id (loop_app w') = current_id (loop_app w) + 1 \<and>
    loop.client_idle (cl', tr', w')"
proof -
  let ?cl = "cl\<lparr>lastReqId := lastReqId cl + 1, blocked := True\<rparr>" and ?msg = "blank_request\<lparr>req_nr := lastReqId cl + 1\<rparr>"
  let ?resp = "blank_response\<lparr>resp_req_nr := lastReqId cl + 1, resp_id := ucast (current_id (loop_app w))\<rparr>"
  obtain tr1 where b: "GetRequestBuf loopback (tr, w) = Inr (blank_request, tr1, w)" "loop.net_ok tr1"
    using loop_request_buf[OF assms] by blast
  have q: "loop_queue w = []" using assms by (simp add: loop.client_idle_def loop_pending_def)
  have srv: "ReceiveRequest getNodeIdReqType (loop_app w) ?msg blank_response =
      Inr ((loop_app w)\<lparr>current_id := current_id (loop_app w) + 1\<rparr>, ?resp, 16)"
    by (simp add: ReceiveRequest_def HandleGetNodeId_def app_GetNodeId_def)
  have reply: "\<not> blocked (client_ReceiveResponse getNodeIdReqType ?resp ?cl)"
    by (simp add: client_ReceiveResponse_def HandleGetNodeIdReply_def)
  obtain tr2 where s: "SendRequestToServer (Suc f) client_receiver loopback getNodeIdReqType 0 d ?msg (?cl, tr1, w) =
      Inr (client_ReceiveResponse getNodeIdReqType ?resp ?cl, tr2,
        w\<lparr>loop_app := (loop_app w)\<lparr>current_id := current_id (loop_app w) + 1\<rparr>, loop_queue := []\<rparr>)"
    using loop_send[OF b(2) q _ srv reply] by auto
  have "ucast (ucast (current_id (loop_app w)) :: u64) = current_id (loop_app w)" by (simp add: ucast_up_ucast_id is_up)
  then show ?thesis
    using loop.wp_GetNodeId[OF assms, of "Suc f" d request]
    by (simp add: Let_def GetNodeId_def b(1) s client_ReceiveResponse_def HandleGetNodeIdReply_def)
qed

lemma loop_EvictNode:
  assumes "loop.client_idle (cl, tr, w)" and "length request \<le> BUFFER_SIZE"
  shows "\<exists>cl' tr' w'. EvictNode (Suc f) loopback d 0 i request (cl, tr, w) = Inr (True, cl', tr', w') \<and>
    loop.client_idle (cl', tr', w')"
proof -
  let ?cl = "cl\<lparr>lastReqId := lastReqId cl + 1, blocked := True\<rparr>"
  let ?msg = "\<lparr>req_nr = lastReqId cl + 1, req_node_id = i, req_buffer = request @ drop (length request) (req_buffer blank_request)\<rparr>"
  let ?resp = "blank_response\<lparr>resp_req_nr := lastReqId cl + 1, resp_success := True\<rparr>"
  obtain tr1 where b: "GetRequestBuf loopback (tr, w) = Inr (blank_request, tr1, w)" "loop.net_ok tr1"
    using loop_request_buf[OF assms(1)] by blast
  have q: "loop_queue w = []" using assms(1) by (simp add: loop.client_idle_def loop_pending_def)
  have srv: "ReceiveRequest evictNodeReqType (loop_app w) ?msg blank_response = Inr (loop_app w, ?resp, 16)"
    by (simp add: ReceiveRequest_def HandleEvictNode_def getNodeIdReqType_def evictNodeReqType_def)
  have h: "client_ReceiveResponse evictNodeReqType r x = HandleEvictNodeReply r x" for r x
    by (simp add: client_ReceiveResponse_def getNodeIdReqType_def evictNodeReqType_def)
  have reply: "\<not> blocked (client_ReceiveResponse evictNodeReqType ?resp ?cl)" by (simp add: h HandleEvictNodeReply_def)
  obtain tr2 where s: "SendRequestToServer (Suc f) client_receiver loopback evictNodeReqType 0 d ?msg (?cl, tr1, w) =
      Inr (client_ReceiveResponse evictNodeReqType ?resp ?cl, tr2, w\<lparr>loop_app := loop_app w, loop_queue := []\<rparr>)"
    using loop_send[OF b(2) q _ srv reply] by auto
  show ?thesis
    using loop.wp_EvictNode[OF assms(1), of "Suc f" d i request] assms(2)
    by (simp add: Let_def EvictNode_def b(1) copy_to_buffer_def s h HandleEvictNodeReply_def)
qed

interpretation prompt: client_contract "storage_ops (Suc f) loopback" loop.client_idle "\<lambda>e. e = Buffer_Overflow" for f
proof unfold_locales
  fix st :: "loop_net client_state" and r assume st: "loop.client_idle st"
  obtain cl tr w where s: "st = (cl, tr, w)" by (cases st)
  show "wpE (sc_GetNodeId (storage_ops (Suc f) loopback) 0 0 r st) (\<lambda>e. e = Buffer_Overflow) (\<lambda>(_, c'). loop.client_idle c')"
    using loop_GetNodeId[OF st[unfolded s], of f 0 r] by (auto simp: storage_ops_def s)
next
  fix st :: "loop_net client_state" and i t assume st: "loop.client_idle st"
  obtain cl tr w where s: "st = (cl, tr, w)" by (cases st)
  have "wpE (GetRequestBuf loopback (tr, w)) (\<lambda>_. False) (\<lambda>_. True)"
    using loop_request_buf[OF st[unfolded s]] by auto
  then have "EvictNode (Suc f) loopback 0 0 i t st = Inl Buffer_Overflow" if "\<not> length t \<le> BUFFER_SIZE"
    using that loop_request_buf[OF st[unfolded s]] by (auto simp: EvictNode_def s copy_to_buffer_def)
  then show "wpE (sc_EvictNode (storage_ops (Suc f) loopback) 0 0 i t st) (\<lambda>e. e = Buffer_Overflow)
      (\<lambda>(_, c'). loop.client_idle c' \<and> length t \<le> BUFFER_SIZE)"
    using loop_EvictNode[OF st[unfolded s], of t f 0 i] by (cases "length t \<le> BUFFER_SIZE") (auto simp: storage_ops_def s)
qed

end
