(* ===== verification/Server.thy ===== *)
theory Server
  imports Loopback Serialization
begin

text \<open>
  The server program (server/main.cpp, and the receiving side of network/fasttransport.cpp): the
  constructor of the transport, the handling of one request from the call of eRPC to the response,
  and the start of the program.

  A server is a state machine: \<open>server_step\<close> is the handling of one request in \<open>Run\<close>, and \<open>server_run\<close>
  its closure over the requests that arrive.  The state keeps the responses that were sent, which
  are what the clients see.
\<close>

subsection \<open>The transport of a server\<close>

text \<open>\<open>FastTransport::FastTransport\<close>: the configuration is copied and the context is new; \<open>junk\<close> is what the other members held.\<close>

definition fast_transport_new :: "configuration \<Rightarrow> transport \<Rightarrow> err + transport" where
  "fast_transport_new config junk =
     bindE (configuration_copy config) (\<lambda>c.
     Inr (junk\<lparr>tr_config := c, req_tag_pool := mem_pool_new, tags := Map.empty, sessions := Map.empty\<rparr>))"

definition local_uri :: "'w erpc \<Rightarrow> string \<Rightarrow> u8 \<Rightarrow> string" where
  "local_uri rpc ip tid = ip @ '':'' @ dec (kBaseSmUdpPort rpc + unat tid)"

text \<open>The request types a function is registered for.\<close>

definition registered :: "u8 \<Rightarrow> bool" where
  "registered reqType \<longleftrightarrow> reqType \<in> {1, 2, 3, 4, 5}"

record server_ctx =
  app :: storage_app
  sent :: "(response_buf \<times> nat) list"

definition SendResponse :: "response_buf \<Rightarrow> nat \<Rightarrow> server_ctx \<Rightarrow> server_ctx" where
  "SendResponse resp msgLen c = c\<lparr>sent := sent c @ [(resp, msgLen)]\<rparr>"

definition fasttransport_request :: "u8 \<Rightarrow> request_buf \<Rightarrow> response_buf \<Rightarrow> server_ctx \<Rightarrow> err + server_ctx" where
  "fasttransport_request reqType req pre_resp c =
     bindE (ReceiveRequest reqType (app c) req pre_resp) (\<lambda>(app', resp, respLen).
     Inr (SendResponse resp respLen (c\<lparr>app := app'\<rparr>)))"

text \<open>\<open>StorageServer::StorageServer\<close>\<close>

definition storage_server_new :: "int \<Rightarrow> transport \<Rightarrow> storage_app \<Rightarrow> err + transport \<times> server_ctx" where
  "storage_server_new myIdx tr a =
     bindE (Register myIdx tr) (\<lambda>tr'. Inr (tr', \<lparr>app = a, sent = []\<rparr>))"

subsection \<open>Starting\<close>

text \<open>
  \<open>main\<close> of the server.  A missing option ends the program with a message; an index that is
  out of bounds only prints one, and \<open>server_thread_func\<close> goes on to use it.
\<close>

datatype 'a program_start = Exit_Failure string | Running 'a

definition server_thread_func :: "'w erpc \<Rightarrow> int \<Rightarrow> storage_app \<Rightarrow> configuration \<Rightarrow> u8 \<Rightarrow> transport \<Rightarrow> err + string \<times> transport \<times> server_ctx" where
  "server_thread_func rpc serverIndex storageApp config thread_id junk =
     bindE (GetServerAddress config serverIndex) (\<lambda>addr.
     bindE (fast_transport_new config junk) (\<lambda>tr.
     bindE (storage_server_new serverIndex tr storageApp) (\<lambda>(tr', c).
     Inr (local_uri rpc (host addr) thread_id, tr', c))))"

definition server_main ::
  "'w erpc \<Rightarrow> string \<Rightarrow> int \<Rightarrow> (string \<Rightarrow> string option) \<Rightarrow> transport
   \<Rightarrow> (err + (string \<times> transport \<times> server_ctx) program_start) option" where
  "server_main rpc configFile serverIndex files junk =
     (if configFile = [] then Some (Inr (Exit_Failure ''option --configFile is required''))
      else if serverIndex = - 1 then Some (Inr (Exit_Failure ''option --serverIndex is required''))
      else map_option (\<lambda>r.
        bindE r (\<lambda>config.
        bindE (configuration_copy config) (\<lambda>config'.
        bindE (server_thread_func rpc serverIndex storage_app_new config' 0 junk) (\<lambda>s. Inr (Running s)))))
        (configuration_read (open_file (files configFile))))"

subsection \<open>Serving\<close>

inductive server_step :: "server_ctx \<Rightarrow> u8 \<times> request_buf \<Rightarrow> server_ctx \<Rightarrow> bool" where
  request: "registered t \<Longrightarrow> fasttransport_request t req pre c = Inr c' \<Longrightarrow> server_step c (t, req) c'"

inductive server_run :: "server_ctx \<Rightarrow> (u8 \<times> request_buf) list \<Rightarrow> server_ctx \<Rightarrow> bool" where
  idle: "server_run c [] c"
| serve: "server_run c rs c' \<Longrightarrow> server_step c' r c'' \<Longrightarrow> server_run c (rs @ [r]) c''"

inductive_cases server_stepE: "server_step c r c'"

text \<open>How many of the requests ask for a node identifier.\<close>

definition node_requests :: "(u8 \<times> request_buf) list \<Rightarrow> nat" where
  "node_requests rs = length (filter (\<lambda>r. fst r = getNodeIdReqType) rs)"

lemma server_stepD:
  assumes "server_step c (t, req) c'"
  shows "t = getNodeIdReqType \<and> (\<exists>resp. sent c' = sent c @ [(resp, 16)] \<and> resp_req_nr resp = req_nr req \<and> resp_id resp = ucast (current_id (app c))) \<and>
      current_id (app c') = current_id (app c) + 1 \<or>
    t = evictNodeReqType \<and> (\<exists>resp. sent c' = sent c @ [(resp, 16)] \<and> resp_req_nr resp = req_nr req \<and> resp_success resp) \<and> app c' = app c"
  using assms
  by (auto elim!: server_stepE simp: fasttransport_request_def ReceiveRequest_def HandleGetNodeId_def HandleEvictNode_def app_GetNodeId_def
      SendResponse_def getNodeIdReqType_def evictNodeReqType_def split: if_splits)

lemma server_run_answers:
  assumes "server_run c rs c'" and "sent c = []"
  shows "map (resp_req_nr \<circ> fst) (sent c') = map (req_nr \<circ> snd) rs"
  using assms
proof (induction rule: server_run.induct)
  case (serve c rs c' r c'')
  obtain t req where r: "r = (t, req)" by (cases r)
  show ?case using server_stepD[OF serve(2)[unfolded r]] serve(3,4) by (auto simp: r)
qed simp

lemma server_run_counter:
  assumes "server_run c rs c'"
  shows "current_id (app c') = current_id (app c) + of_nat (node_requests rs)"
  using assms
proof (induction rule: server_run.induct)
  case (serve c rs c' r c'')
  obtain t req where r: "r = (t, req)" by (cases r)
  have "getNodeIdReqType \<noteq> evictNodeReqType" by (simp add: getNodeIdReqType_def evictNodeReqType_def)
  then show ?case using server_stepD[OF serve(2)[unfolded r]] serve(3) by (auto simp: r node_requests_def)
qed (simp add: node_requests_def)

text \<open>The identifiers that were given out.\<close>

definition given_ids :: "(u8 \<times> request_buf) list \<Rightarrow> (response_buf \<times> nat) list \<Rightarrow> u64 list" where
  "given_ids rs out = map (\<lambda>(r, a). resp_id (fst a)) (filter (\<lambda>(r, a). fst r = getNodeIdReqType) (zip rs out))"

lemma server_run_ids:
  assumes "server_run c rs c'" and "sent c = []"
  shows "given_ids rs (sent c') = map (\<lambda>i. ucast (current_id (app c) + of_nat i)) [0..<node_requests rs]"
  using assms
proof (induction rule: server_run.induct)
  case (serve c rs c' r c'')
  obtain t req where r: "r = (t, req)" by (cases r)
  have ne: "getNodeIdReqType \<noteq> evictNodeReqType" by (simp add: getNodeIdReqType_def evictNodeReqType_def)
  have len: "length rs = length (sent c')"
    using arg_cong[OF server_run_answers[OF serve(1,4)], of length] by simp
  from server_stepD[OF serve(2)[unfolded r]] show ?case
    using serve(3,4) len server_run_counter[OF serve(1)] ne by (auto simp: r given_ids_def node_requests_def)
qed (simp add: given_ids_def node_requests_def)

lemma ids_distinct:
  assumes "n \<le> 2 ^ 32"
  shows "distinct (map (\<lambda>i. ucast (a + of_nat i :: u32) :: u64) [0..<n])"
proof -
  have "i = j" if "i < n" "j < n" and e: "ucast (a + of_nat i :: u32) = (ucast (a + of_nat j :: u32) :: u64)" for i j
  proof -
    have "a + of_nat i = (a + of_nat j :: u32)" using arg_cong[OF e, of "ucast :: u64 \<Rightarrow> u32"] by (simp add: ucast_up_ucast_id is_up)
    then have "(of_nat i :: u32) = of_nat j" by simp
    then show "i = j" using that(1,2) assms by (simp add: word_of_nat_eq_iff take_bit_nat_eq_self)
  qed
  then show ?thesis by (auto simp: distinct_map inj_on_def)
qed

end
