(* ===== verification/Client_Program.thy ===== *)
theory Client_Program
  imports Driver_Correct Server
begin

text \<open>
  The client program from its start (client/main.cpp, \<open>main\<close>, \<open>client_thread_func\<close> and
  \<open>client_fiber_func\<close>), with one thread and one fiber, the defaults of both options.  The identifiers
  \<open>client_thread_func\<close> computes for its fibers are \<open>fiber_ids\<close>.
\<close>

record client_flags =
  configFile :: string
  benchmark :: string
  backingStoreDir :: string
  clientIP :: string

definition missing_option :: "client_flags \<Rightarrow> string option" where
  "missing_option fl =
     (if configFile fl = [] then Some ''option --configFile is required''
      else if benchmark fl = [] then Some ''option --benchmark is required''
      else if backingStoreDir fl = [] then Some ''option --backingStoreDir is required''
      else if clientIP fl = [] then Some ''option --clientIP is required''
      else None)"

definition fiber_ids :: "u32 \<Rightarrow> u32 \<Rightarrow> u32 list" where
  "fiber_ids thread_id numClientFibers = map (\<lambda>i. thread_id * numClientFibers + of_nat i) [0..<unat numClientFibers]"

definition client_thread_func ::
  "nat \<Rightarrow> 'w erpc \<Rightarrow> 'k :: linorder codec \<Rightarrow> (string \<Rightarrow> 'k) \<Rightarrow> (nat \<Rightarrow> nat) \<Rightarrow> client_flags \<Rightarrow> configuration \<Rightarrow> (string \<Rightarrow> string option)
   \<Rightarrow> u64 list \<Rightarrow> storage_client \<Rightarrow> transport \<Rightarrow> 'w
   \<Rightarrow> err + ((u64, 'k, string) node, file_store, 'w client_state) swap_space" where
  "client_thread_func fuel rpc kc mk rnd fl config fs ids junk trjunk w =
     bindE (fast_transport_new config trjunk) (\<lambda>tr.
     client_fiber_func fuel rpc kc mk rnd (benchmark fl) (file_store_new (backingStoreDir fl) fs) ids junk tr w)"

definition client_main ::
  "nat \<Rightarrow> 'w erpc \<Rightarrow> 'k :: linorder codec \<Rightarrow> (string \<Rightarrow> 'k) \<Rightarrow> (nat \<Rightarrow> nat) \<Rightarrow> client_flags \<Rightarrow> (string \<Rightarrow> string option)
   \<Rightarrow> u64 list \<Rightarrow> storage_client \<Rightarrow> transport \<Rightarrow> 'w
   \<Rightarrow> (err + ((u64, 'k, string) node, file_store, 'w client_state) swap_space program_start) option" where
  "client_main fuel rpc kc mk rnd fl fs ids junk trjunk w =
     (case missing_option fl of
        Some msg \<Rightarrow> Some (Inr (Exit_Failure msg))
      | None \<Rightarrow> map_option (\<lambda>r.
          bindE r (\<lambda>config.
          bindE (configuration_copy config) (\<lambda>config'.
          bindE (client_thread_func fuel rpc kc mk rnd fl config' fs ids junk trjunk w) (\<lambda>s. Inr (Running s)))))
          (configuration_read (open_file (fs (configFile fl)))))"

lemma wp_pick_clientid: "wpE (pick_clientid c rs) (\<lambda>e. e = Out_Of_Fuel) (\<lambda>i. i \<noteq> 0)"
  by (induction c rs rule: pick_clientid.induct) (subst pick_clientid.simps, auto split: list.split)

lemma new_pool_idle: "erpc_network rpc pending \<Longrightarrow> erpc_network.idle_pool mem_pool_new"
  by (simp add: erpc_network.idle_pool_def pool_inv_new) (simp add: mem_pool_new_def)

lemma wp_client_thread:
  assumes net: "erpc_network rpc pending" "pending w = []" and kc: "lawful_codec kc (\<lambda>_. True)"
    and config: "servers config \<noteq> []" "conf_n config = int (length (servers config))" "length (servers config) < 2 ^ 31" "\<not> hasMulticast config"
  shows "wpE (client_thread_func fuel rpc kc mk rnd fl config fs ids junk trjunk w)
    (\<lambda>e. e = Counter_Wrap \<or> client_err e) (\<lambda>_. True)"
proof -
  have st: "stored_tree file_ops file_contents (\<lambda>b. 0 < nextid b) (storage_ops fuel rpc) (erpc_network.client_idle pending) client_err kc string_codec"
    by (rule stored_tree_over[OF net(1) kc str.lawful_codec_axioms])
  then have ss: "stored_strings file_ops file_contents (\<lambda>b. 0 < nextid b) (storage_ops fuel rpc) (erpc_network.client_idle pending) client_err kc string_codec"
    by (simp add: stored_strings_def)
  have copy: "configuration_copy config = Inr (Configuration (conf_n config) (servers config) None False)"
    using config(4) by (simp add: configuration_copy_def)
  have idle: "erpc_network.client_idle pending (cl, tr\<lparr>receiverIdx := - 1\<rparr>, w)"
    if "fast_transport_new config trjunk = Inr tr" for cl :: storage_client and tr
  proof -
    have "0 < (word_of_int (conf_n config) :: u32)"
      using config(1-3) by (simp add: word_less_nat_alt unat_of_nat)
    then show ?thesis
      using that net(2) config(1) new_pool_idle[OF net(1)]
      by (auto simp: fast_transport_new_def copy erpc_network.client_idle_def[OF net(1)] erpc_network.net_ok_def[OF net(1)])
  qed
  obtain tr where tr: "fast_transport_new config trjunk = Inr tr" and cfg: "conf_n (tr_config tr) = conf_n config"
    by (simp add: fast_transport_new_def copy)
  have reg: "Register (- 1) tr = Inr (tr\<lparr>receiverIdx := - 1\<rparr>)" using config(2) by (simp add: Register_def cfg)
  have "wpE (storage_client_new 0 ids junk tr) (\<lambda>e. e = Counter_Wrap \<or> client_err e)
      (\<lambda>(cl, tr'). tr' = tr\<lparr>receiverIdx := - 1\<rparr>)"
    unfolding storage_client_new_def reg bindE_simps wpE_bindE
    by (rule wpE_mono[OF wp_pick_clientid]) (auto simp: client_err_def)
  then show ?thesis
    unfolding client_thread_func_def tr bindE_simps client_fiber_func_def Let_def wpE_bindE[of "storage_client_new _ _ _ _"]
  proof (rule wpE_mono)
    fix x :: "storage_client \<times> transport" assume "case x of (cl, tr') \<Rightarrow> tr' = tr\<lparr>receiverIdx := - 1\<rparr>"
    then obtain cl where x: "x = (cl, tr\<lparr>receiverIdx := - 1\<rparr>)" by (cases x) auto
    have "0 < nextid (file_store_new (backingStoreDir fl) fs)" by (simp add: file_store_new_def)
    from stored_strings.fiber_runs[OF ss this idle[OF tr, of cl]]
    show "wpE (case x of (cl', tr') \<Rightarrow>
        bindE (betree_new (space_ops (node_env kc string_codec file_ops (storage_ops fuel rpc))) DEFAULT_TEST_MAX_NODE_SIZE
            DEFAULT_TEST_MIN_FLUSH_SIZE DEFAULT_MIN_FLUSH_SIZE []
            (swap_space_new (file_store_new (backingStoreDir fl) fs) (cl', tr', w) DEFAULT_TEST_CACHE_SIZE)) (\<lambda>(b, s).
        bindE (if benchmark fl = ''benchmark-upserts'' then
            benchmark_upserts (space_ops (node_env kc string_codec file_ops (storage_ops fuel rpc))) mk rnd DEFAULT_TEST_NOPS DEFAULT_TEST_NDISTINCT_KEYS b s
          else if benchmark fl = ''benchmark-queries'' then
            benchmark_queries (space_ops (node_env kc string_codec file_ops (storage_ops fuel rpc))) mk rnd DEFAULT_TEST_NOPS DEFAULT_TEST_NDISTINCT_KEYS b s
          else Inr (b, s)) (\<lambda>(b', s').
        betree_evict_all (node_env kc string_codec file_ops (storage_ops fuel rpc)) b' s')))
      (\<lambda>e. e = Counter_Wrap \<or> client_err e) (\<lambda>_. True)"
      unfolding x prod.case .
  qed simp
qed

subsection \<open>Identifiers of fibers\<close>

lemma fiber_ids_all: "concat (map (\<lambda>t. fiber_ids (of_nat t) n) [0..<k]) = map of_nat [0..<k * unat n]"
proof (induction k)
  case (Suc k)
  have "map (\<lambda>i. of_nat k * n + of_nat i) [0..<unat n] = map (of_nat :: nat \<Rightarrow> u32) (map (\<lambda>i. i + k * unat n) [0..<unat n])"
    by (simp add: add.commute)
  also have "map (\<lambda>i. i + k * unat n) [0..<unat n] = [k * unat n..<k * unat n + unat n]"
    by (simp only: map_add_upt add.commute)
  finally have "fiber_ids (of_nat k) n = map of_nat [k * unat n..<k * unat n + unat n]" by (simp only: fiber_ids_def)
  moreover have "[0..<Suc k * unat n] = [0..<k * unat n] @ [k * unat n..<k * unat n + unat n]"
    using upt_add_eq_append[of 0 "k * unat n" "unat n"] by (simp add: add.commute)
  ultimately show ?case using Suc by simp
qed simp

end
