(* ===== verification/Betree_Small.thy ===== *)
theory Betree_Small
  imports Betree_Run Loopback
begin

text \<open>
  Runs that certainly return.  The theorems of \<open>Betree_Run\<close> allow a run to end because a 64-bit
  counter is used up or because a node is too large for the request buffer.  Here the tree is one
  leaf that stays in memory: then nothing is evicted, the number of accesses to the swap space is counted by \<open>call_cost\<close>, and neither
  can happen.  \<open>leaf_space c p es m\<close> is the state of the swap space: its only object is \<open>p\<close>, a leaf
  with the messages \<open>es\<close> and \<open>c\<close> pins, and there is room for \<open>m\<close> more accesses.
\<close>

definition leaf_space :: "u64 \<Rightarrow> u64 \<Rightarrow> ('k, 'v) message_map \<Rightarrow> nat \<Rightarrow> ((u64, 'k, 'v) node, 'b, 'c) swap_space \<Rightarrow> bool" where
  "leaf_space c p es m s \<longleftrightarrow> 0 < p \<and>
     (\<exists>ob. objects s = [p \<mapsto> ob] \<and> target ob = Some \<lparr>pivots = [], elements = es\<rparr> \<and> pincount ob = c) \<and>
     lru_pqueue s = [p] \<and> current_in_memory_objects s \<le> max_in_memory_objects s \<and> unat (next_access_time s) + m < 2 ^ 64"

text \<open>The errors the theorems of \<open>Betree_Run\<close> exclude, for a server in the same process.\<close>

definition excluded :: "err \<Rightarrow> bool" where
  "excluded e \<longleftrightarrow> e \<noteq> Counter_Wrap \<and> e \<noteq> Buffer_Overflow"

definition call_cost :: "nat \<Rightarrow> ('k, 'v) call \<Rightarrow> nat" where
  "call_cost F c = (case c of
     Scan n \<Rightarrow> Suc (Suc n * Suc F) | Scan_From _ n \<Rightarrow> Suc (Suc n * Suc F) | Scan_After _ n \<Rightarrow> Suc (Suc n * Suc F) | _ \<Rightarrow> 1)"

lemma leaf_space_less: "leaf_space c p es m s \<Longrightarrow> m' \<le> m \<Longrightarrow> leaf_space c p es m' s"
  by (auto simp: leaf_space_def)

subsection \<open>The swap space\<close>

lemma leaf_evicts_nothing: "leaf_space c p es m s \<Longrightarrow> maybe_evict_something env s = Inr s"
  by (subst maybe_evict_something_def, subst evict_loop.simps) (auto simp: leaf_space_def)

lemma leaf_enter:
  assumes "leaf_space 0 p es (Suc m) s"
  shows "\<exists>s'. ss_enter (space_ops env) d p s = Inr s' \<and> leaf_space 1 p es m s'"
proof -
  obtain ob where ob: "objects s = [p \<mapsto> ob]" "target ob = Some \<lparr>pivots = [], elements = es\<rparr>" "pincount ob = 0"
    using assms by (auto simp: leaf_space_def)
  have t: "next_access_time s \<noteq> - 1" "unat (next_access_time s + 1) = Suc (unat (next_access_time s))"
    using assms by (auto simp: leaf_space_def unat_word_ariths unsigned_minus_1_eq_mask mask_eq_exp_minus_1)
  define s2 where "s2 = s\<lparr>next_access_time := next_access_time s + 1,
    objects := [p \<mapsto> ob\<lparr>pincount := 1, last_access := next_access_time s, target_is_dirty := target_is_dirty ob \<or> d\<rparr>], lru_pqueue := [p]\<rparr>"
  have "leaf_space 1 p es m s2" using assms t ob by (auto simp: leaf_space_def s2_def)
  moreover have "pin_access env d p s = maybe_evict_something env s2"
    using assms ob t(1)
    by (simp add: leaf_space_def pin_access_def dopin_def obj_at_def incr_def access_def lru_erase_def load_def set_obj_def Let_def s2_def)
  ultimately show ?thesis by (simp add: space_ops_def leaf_evicts_nothing)
qed

lemma leaf_leave:
  assumes "leaf_space 1 p es m s"
  shows "\<exists>s'. ss_leave (space_ops env) p s = Inr s' \<and> leaf_space 0 p es m s'"
proof -
  obtain ob where ob: "objects s = [p \<mapsto> ob]" "target ob = Some \<lparr>pivots = [], elements = es\<rparr>" "pincount ob = 1"
    using assms by (auto simp: leaf_space_def)
  let ?s = "set_obj p (ob\<lparr>pincount := 0\<rparr>) s"
  have l: "leaf_space 0 p es m ?s" using assms ob by (auto simp: leaf_space_def set_obj_def)
  then show ?thesis using assms ob leaf_evicts_nothing[OF l, of env] by (simp add: leaf_space_def space_ops_def unpin_def obj_at_def)
qed

lemma leaf_object: "leaf_space c p es m s \<Longrightarrow> this_node (space_ops env) p s = Inr \<lparr>pivots = [], elements = es\<rparr>"
  by (auto simp: leaf_space_def space_ops_def this_node_def obj_target_def)

lemma leaf_store: "leaf_space c p es m s \<Longrightarrow> leaf_space c p es' m (ss_store (space_ops env) p \<lparr>pivots = [], elements = es'\<rparr> s)"
  by (auto simp: leaf_space_def space_ops_def obj_assign_def set_obj_def)

lemma wp_leaf_arrow:
  assumes "leaf_space 0 p es (Suc m) s"
    and "\<And>s1. leaf_space 1 p es m s1 \<Longrightarrow> wpE (body s1) E (\<lambda>(r, s2). \<exists>es'. leaf_space 1 p es' m s2 \<and> R r es')"
  shows "wpE (arrow (space_ops env) d p body s) E (\<lambda>(r, s'). \<exists>es'. leaf_space 0 p es' m s' \<and> R r es')"
proof -
  obtain s1 where s1: "ss_enter (space_ops env) d p s = Inr s1" "leaf_space 1 p es m s1" using leaf_enter[OF assms(1)] by blast
  have "wpE (bindE (ss_leave (space_ops env) p s2) (\<lambda>s3. Inr (r, s3))) E (\<lambda>(r, s'). \<exists>es'. leaf_space 0 p es' m s' \<and> R r es')"
    if "leaf_space 1 p es' m s2" "R r es'" for r s2 es'
    using leaf_leave[OF that(1), of env] that(2) by auto
  then show ?thesis
    using s1(1) by (auto simp: arrow_def intro!: wpE_bind_rule[OF assms(2)[OF s1(2)]])
qed

subsection \<open>Operations on a leaf\<close>

lemma length_takeWhile_le: "(\<And>x. P x \<Longrightarrow> Q x) \<Longrightarrow> length (takeWhile P xs) \<le> length (takeWhile Q xs)"
  by (induction xs) auto

lemma length_put: "length (put m k v) \<le> Suc (length m)"
proof -
  have "lower_bound m k \<le> upper_bound m k" unfolding lower_bound_def upper_bound_def by (rule length_takeWhile_le) simp
  then show ?thesis by (simp add: put_def)
qed

lemma length_erase_messages: "length (erase_messages es k) \<le> length es"
proof -
  have "range_start k \<le> range_end k" by (auto simp: range_start_def range_end_def less_eq_message_key_def less_message_key_def word_neq_0_conv[symmetric])
  then have "lower_bound es (range_start k) \<le> upper_bound es (range_end k)"
    unfolding lower_bound_def upper_bound_def by (intro length_takeWhile_le) (meson less_imp_le order_trans)
  then show ?thesis by (simp add: erase_messages_def erase_range_def)
qed

lemma leaf_apply:
  fixes mk :: "'k :: linorder message_key"
  assumes "opcode msg \<in> {INSERT, UPDATE, DELETE}"
  shows "\<exists>es'. node_apply dflt \<lparr>pivots = [], elements = es\<rparr> mk msg = Inr \<lparr>pivots = [], elements = es'\<rparr> \<and> length es' \<le> Suc (length es)"
proof -
  have "length (put (erase_messages es k) mk x) \<le> Suc (length es)" for k x
    using length_put[of "erase_messages es k" mk x] length_erase_messages[of es k] by simp
  moreover have "length (erase_messages es k) \<le> Suc (length es)" for k using length_erase_messages[of es k] by simp
  ultimately show ?thesis using assms length_put[of es mk msg] by (auto simp: node_apply_def apply_insert_def is_leaf_def Let_def)
qed

lemma wp_leaf_upsert:
  assumes "leaf_space 0 (root bet) es (Suc m) s" and "opc \<in> {INSERT, UPDATE, DELETE}" and "Suc (length es) < max_node_size bet"
    and "next_timestamp bet \<noteq> - 1"
  shows "wpE (upsert (space_ops env) opc k v bet s) E (\<lambda>(bet', s').
    bet' = bet\<lparr>next_timestamp := next_timestamp bet + 1\<rparr> \<and> (\<exists>es'. leaf_space 0 (root bet) es' m s' \<and> length es' \<le> Suc (length es)))"
proof -
  let ?bet = "bet\<lparr>next_timestamp := next_timestamp bet + 1\<rparr>" and ?mk = "MessageKey k (next_timestamp bet)" and ?p = "root bet"
  have "next_timestamp bet + 1 \<noteq> 0" using assms(4) by (metis add.commute add_eq_0_iff)
  then obtain f where f: "fuel_of ?bet = Suc f" by (cases "fuel_of ?bet") (auto simp: fuel_of_def unat_eq_0)
  obtain es' where a: "node_apply (default_value bet) \<lparr>pivots = [], elements = es\<rparr> ?mk (Message opc v) = Inr \<lparr>pivots = [] :: (_, u64) pivot_map, elements = es'\<rparr>"
    and es': "length es' \<le> Suc (length es)" using leaf_apply[of "Message opc v" "default_value bet" es ?mk] assms(2) by auto
  have "wpE (flush (Suc f) (space_ops env) ?bet ?p [(?mk, Message opc v)] s1) E
      (\<lambda>(r, s2). \<exists>es'. leaf_space 1 ?p es' m s2 \<and> (r = [] \<and> length es' \<le> Suc (length es)))" if "leaf_space 1 ?p es m s1" for s1
    using leaf_store[OF that, of es' env] es' assms(3)
    by (auto simp: leaf_object[OF that] is_leaf_def flush_leaf_def a node_size_def Let_def)
  then have "wpE (arrow (space_ops env) True ?p (flush (Suc f) (space_ops env) ?bet ?p [(?mk, Message opc v)]) s) E
      (\<lambda>(r, s'). \<exists>es'. leaf_space 0 ?p es' m s' \<and> (r = [] \<and> length es' \<le> Suc (length es)))"
    by (rule wp_leaf_arrow[OF assms(1)])
  then show ?thesis
    unfolding upsert_def Let_def f wpE_bindE
    by (auto simp: put_def lower_bound_def upper_bound_def f elim!: wpE_mono)
qed

lemma wp_leaf_query:
  assumes "leaf_space 0 (root bet) es (Suc m) s" and "next_timestamp bet \<noteq> 0"
  shows "wpE (query_key (space_ops env) k bet s) excluded (\<lambda>(r, s'). leaf_space 0 (root bet) es m s')"
proof -
  obtain f where f: "fuel_of bet = Suc f" using assms(2) by (cases "fuel_of bet") (auto simp: fuel_of_def unat_eq_0)
  have "wpE (arrow (space_ops env) False (root bet) (query (Suc f) (space_ops env) (default_value bet) k (root bet)) s) excluded
      (\<lambda>(r, s'). \<exists>es'. leaf_space 0 (root bet) es' m s' \<and> es' = es)"
    by (rule wp_leaf_arrow[OF assms(1)]) (auto simp: leaf_object is_leaf_def query_leaf_def excluded_def wp_rules Let_def)
  then show ?thesis by (auto simp: query_key_def f elim!: wpE_mono)
qed

subsection \<open>Scans of a leaf\<close>

lemma wp_leaf_next:
  assumes "leaf_space 0 (root bet) es (Suc m) s" and "next_timestamp bet \<noteq> 0"
  shows "wpE (root_next (space_ops env) bet mk s) excluded (\<lambda>(r, s'). leaf_space 0 (root bet) es m s')"
proof -
  obtain f where f: "fuel_of bet = Suc f" using assms(2) by (cases "fuel_of bet") (auto simp: fuel_of_def unat_eq_0)
  have "wpE (arrow (space_ops env) False (root bet) (get_next_message (Suc f) (space_ops env) mk (root bet)) s) excluded
      (\<lambda>(r, s'). \<exists>es'. leaf_space 0 (root bet) es' m s' \<and> es' = es)"
    by (rule wp_leaf_arrow[OF assms(1)]) (auto simp: leaf_object is_leaf_def Let_def)
  then show ?thesis by (auto simp: root_next_def f elim!: wpE_mono)
qed

lemma wp_leaf_setup:
  assumes "leaf_space 0 (root bet) es (m + f) s" and "next_timestamp bet \<noteq> 0"
  shows "wpE (setup_loop f (space_ops env) bet it s) excluded (\<lambda>(it', s'). leaf_space 0 (root bet) es m s')"
  using assms(1)
proof (induction f arbitrary: it s)
  case (Suc f)
  have ap: "wpE (it_apply (default_value bet) (fst (position it)) (snd (position it)) it) excluded (\<lambda>_. True)"
    by (simp add: it_apply_def excluded_def)
  have nx: "wpE (root_next (space_ops env) bet (Some (fst (position it))) s) excluded (\<lambda>(r, s'). leaf_space 0 (root bet) es (m + f) s')"
    by (rule wp_leaf_next) (use Suc.prems assms(2) in auto)
  have "wpE (bindE (it_apply (default_value bet) (fst (position it)) (snd (position it)) it) (\<lambda>it1.
      bindE (root_next (space_ops env) bet (Some (fst (position it))) s) (\<lambda>(r, s1).
      setup_loop f (space_ops env) bet (case r of Some m \<Rightarrow> it1\<lparr>position := m\<rparr> | None \<Rightarrow> it1\<lparr>pos_is_valid := False\<rparr>) s1))) excluded
      (\<lambda>(it', s'). leaf_space 0 (root bet) es m s')"
    by (rule wpE_bind_rule[OF ap], rule wpE_bind_rule[OF nx]) (auto intro!: Suc.IH)
  then show ?case using leaf_space_less[OF Suc.prems, of m] by simp
qed (simp add: excluded_def)

lemma wp_leaf_setup_next:
  assumes "leaf_space 0 (root bet) es (m + Suc F) s" and "next_timestamp bet \<noteq> 0" and "fuel_of bet \<le> F"
  shows "wpE (setup_next_element (space_ops env) bet it s) excluded (\<lambda>(it', s'). leaf_space 0 (root bet) es m s')"
  unfolding setup_next_element_def by (rule wp_leaf_setup[OF leaf_space_less[OF assms(1)] assms(2)]) (use assms(3) in simp)

lemma wp_leaf_start:
  assumes "leaf_space 0 (root bet) es (Suc (m + Suc F)) s" and "next_timestamp bet \<noteq> 0" and "fuel_of bet \<le> F"
  shows "wpE (iterator_at (space_ops env) nokey noval bet mk s) excluded (\<lambda>(it, s'). leaf_space 0 (root bet) es m s')"
proof -
  have "wpE (case r of None \<Rightarrow> Inr (iterator_end nokey noval, s1)
      | Some x \<Rightarrow> setup_next_element (space_ops env) bet ((iterator_end nokey noval)\<lparr>position := x, pos_is_valid := True\<rparr>) s1) excluded
      (\<lambda>(it, s'). leaf_space 0 (root bet) es m s')" if "leaf_space 0 (root bet) es (m + Suc F) s1" for r s1
    using wp_leaf_setup_next[OF that assms(2,3)] leaf_space_less[OF that, of m] by (simp split: option.split)
  then show ?thesis
    unfolding iterator_at_def by (intro wpE_bind_rule[OF wp_leaf_next[OF assms(1,2)]]) auto
qed

lemma wp_leaf_collect:
  assumes "leaf_space 0 (root bet) es (m + n * Suc F) s" and "next_timestamp bet \<noteq> 0" and "fuel_of bet \<le> F"
  shows "wpE (collect n (space_ops env) nokey noval bet it s) excluded (\<lambda>(xs, s'). leaf_space 0 (root bet) es m s')"
  using assms(1)
proof (induction n arbitrary: it s)
  case (Suc n)
  have "wpE (iterator_next (space_ops env) bet it s) excluded (\<lambda>(it', s'). leaf_space 0 (root bet) es (m + n * Suc F) s')"
    unfolding iterator_next_def by (rule wp_leaf_setup_next[OF _ assms(2,3)]) (use Suc.prems in \<open>simp add: algebra_simps\<close>)
  then have "wpE (bindE (iterator_next (space_ops env) bet it s) (\<lambda>(it', s1).
      bindE (collect n (space_ops env) nokey noval bet it' s1) (\<lambda>(xs, s2). Inr ((first it, second it) # xs, s2)))) excluded
      (\<lambda>(xs, s'). leaf_space 0 (root bet) es m s')"
    by (rule wpE_bind_rule) (auto intro!: wpE_bind_rule[OF Suc.IH])
  then show ?case using leaf_space_less[OF Suc.prems, of m] by simp
qed (use leaf_space_less in auto)

lemma wp_leaf_scan:
  assumes "leaf_space 0 (root bet) es (m + Suc (Suc n * Suc F)) s" and "next_timestamp bet \<noteq> 0" and "fuel_of bet \<le> F"
  shows "wpE (bindE (iterator_at (space_ops env) nokey noval bet mk s) (\<lambda>(it, s1).
      bindE (collect n (space_ops env) nokey noval bet it s1) (\<lambda>(xs, s2). Inr (Entries xs, bet, s2)))) excluded
    (\<lambda>(a, bet', s'). bet' = bet \<and> leaf_space 0 (root bet) es m s')"
proof -
  have start: "wpE (iterator_at (space_ops env) nokey noval bet mk s) excluded (\<lambda>(it, s'). leaf_space 0 (root bet) es (m + n * Suc F) s')"
    by (rule wp_leaf_start[OF _ assms(2,3)]) (use assms(1) in \<open>simp add: algebra_simps\<close>)
  show ?thesis
    by (rule wpE_bind_rule[OF start]) (auto intro!: wpE_bind_rule[OF wp_leaf_collect[OF _ assms(2,3)]])
qed

subsection \<open>Runs on a leaf\<close>

lemma wp_leaf_call:
  assumes "leaf_space 0 (root bet) es (m + call_cost F c) s" and "next_timestamp bet \<notin> {0, - 1}" and "fuel_of bet \<le> F"
    and "c \<noteq> Evict_All" and "Suc (length es) < max_node_size bet"
  shows "wpE (run_call env nokey noval c bet s) excluded (\<lambda>(a, bet', s').
    (bet' = bet \<or> bet' = bet\<lparr>next_timestamp := next_timestamp bet + 1\<rparr>) \<and>
    (\<exists>es'. leaf_space 0 (root bet) es' m s' \<and> length es' \<le> Suc (length es)))"
proof -
  have t: "next_timestamp bet \<noteq> 0" "next_timestamp bet \<noteq> - 1" using assms(2) by auto
  have u: "wpE (bindE (upsert (space_ops env) opc k v bet s) (\<lambda>(bet', s'). Inr (Done, bet', s'))) excluded (\<lambda>(a, bet', s').
      (bet' = bet \<or> bet' = bet\<lparr>next_timestamp := next_timestamp bet + 1\<rparr>) \<and>
      (\<exists>es'. leaf_space 0 (root bet) es' m s' \<and> length es' \<le> Suc (length es)))"
    if "call_cost F c = 1" "opc \<in> {INSERT, UPDATE, DELETE}" for opc k v
    by (rule wpE_bind_rule[OF wp_leaf_upsert[OF _ that(2) assms(5) t(2), where m = m and s = s]]) (use assms(1) that(1) in auto)
  have sc: "wpE (bindE (iterator_at (space_ops env) nokey noval bet mk s) (\<lambda>(it, s1).
      bindE (collect n (space_ops env) nokey noval bet it s1) (\<lambda>(xs, s2). Inr (Entries xs, bet, s2)))) excluded (\<lambda>(a, bet', s').
      (bet' = bet \<or> bet' = bet\<lparr>next_timestamp := next_timestamp bet + 1\<rparr>) \<and>
      (\<exists>es'. leaf_space 0 (root bet) es' m s' \<and> length es' \<le> Suc (length es)))"
    if "call_cost F c = Suc (Suc n * Suc F)" for n mk
    by (rule wpE_mono[OF wp_leaf_scan[OF _ t(1) assms(3)]]) (use assms(1) that in auto)
  have q: "wpE (bindE (query_key (space_ops env) k bet s) (\<lambda>(r, s'). Inr (Value r, bet, s'))) excluded (\<lambda>(a, bet', s').
      (bet' = bet \<or> bet' = bet\<lparr>next_timestamp := next_timestamp bet + 1\<rparr>) \<and>
      (\<exists>es'. leaf_space 0 (root bet) es' m s' \<and> length es' \<le> Suc (length es)))" if "call_cost F c = 1" for k
    by (rule wpE_bind_rule[OF wp_leaf_query[OF _ t(1), where m = m and es = es]]) (use assms(1) that in \<open>auto intro!: exI[of _ es]\<close>)
  show ?thesis
  proof (cases c)
    case (Insert k v)
    then show ?thesis using u[of INSERT k v] by (simp add: run_call_def Let_def insert_key_def call_cost_def)
  next
    case (Update k v)
    then show ?thesis using u[of UPDATE k v] by (simp add: run_call_def Let_def update_key_def call_cost_def)
  next
    case (Erase k)
    then show ?thesis using u[of DELETE k "default_value bet"] by (simp add: run_call_def Let_def erase_def call_cost_def)
  next
    case (Query k)
    then show ?thesis using q[of k] by (simp add: run_call_def Let_def call_cost_def)
  next
    case (Scan n)
    then show ?thesis using sc[of n None] by (simp only: run_call_def Let_def call_cost_def call.case begin_it_def)
  next
    case (Scan_From k n)
    then show ?thesis using sc[of n "Some (range_start k)"] by (simp only: run_call_def Let_def call_cost_def call.case lower_bound_it_def)
  next
    case (Scan_After k n)
    then show ?thesis using sc[of n "Some (range_end k)"] by (simp only: run_call_def Let_def call_cost_def call.case upper_bound_it_def)
  qed (use assms(4) in simp)
qed

lemma wp_leaf_run:
  assumes "leaf_space 0 (root bet) es (sum_list (map (call_cost F) cs)) s" and "0 < unat (next_timestamp bet)"
    and "unat (next_timestamp bet) + length cs \<le> F" and "F < 2 ^ 64" and "Evict_All \<notin> set cs"
    and "length es + length cs < max_node_size bet"
  shows "wpE (run env nokey noval cs bet s) excluded (\<lambda>_. True)"
  using assms(1-3,5,6)
proof (induction cs arbitrary: bet es s)
  case (Cons c cs)
  let ?m = "sum_list (map (call_cost F) cs)"
  have t: "next_timestamp bet \<notin> {0, - 1}"
    using Cons.prems(2,3) assms(4) by (auto simp: unsigned_minus_1_eq_mask mask_eq_exp_minus_1)
  then have t1: "unat (next_timestamp bet + 1) = Suc (unat (next_timestamp bet))"
    using Cons.prems(3) assms(4) by (simp add: unat_word_ariths)
  have call: "wpE (run_call env nokey noval c bet s) excluded (\<lambda>(a, bet', s').
      (bet' = bet \<or> bet' = bet\<lparr>next_timestamp := next_timestamp bet + 1\<rparr>) \<and>
      (\<exists>es'. leaf_space 0 (root bet) es' ?m s' \<and> length es' \<le> Suc (length es)))"
    by (rule wp_leaf_call[OF _ t]) (use Cons.prems in \<open>auto simp: fuel_of_def add.commute\<close>)
  have rest: "wpE (run env nokey noval cs bet' s') excluded (\<lambda>_. True)"
    if "bet' = bet \<or> bet' = bet\<lparr>next_timestamp := next_timestamp bet + 1\<rparr>" "leaf_space 0 (root bet) es' ?m s'" "length es' \<le> Suc (length es)"
    for bet' es' s'
    by (rule Cons.IH[of bet' es' s']) (use that Cons.prems t1 in auto)
  have "wpE (bindE (run env nokey noval cs bet' s') (\<lambda>(answers, bet2, s2). Inr (a # answers, bet2, s2))) excluded (\<lambda>_. True)"
    if "bet' = bet \<or> bet' = bet\<lparr>next_timestamp := next_timestamp bet + 1\<rparr>" "\<exists>es'. leaf_space 0 (root bet) es' ?m s' \<and> length es' \<le> Suc (length es)"
    for a bet' s'
    using that rest by (auto intro!: wpE_bind_rule[of "run env nokey noval cs bet' s'"])
  then show ?case unfolding run.simps by (intro wpE_bind_rule[OF call]) auto
qed simp

lemma leaf_new:
  assumes "loop.client_idle cl" and "0 < n" and "m < 2 ^ 64 - 1"
  shows "\<exists>s. betree_new (space_ops (node_env kc vc d (storage_ops (Suc f) loopback))) maxnodesize minnodesize minflushsize noval (swap_space_new b cl n) =
      Inr (\<lparr>min_flush_size = minflushsize, max_node_size = maxnodesize, min_node_size = minnodesize, root = 2, next_timestamp = 1, default_value = noval\<rparr>, s) \<and>
    leaf_space 0 2 [] m s"
proof -
  obtain c tr w where cl: "cl = (c, tr, w)" by (cases cl)
  obtain reply cl' where g: "sc_GetNodeId (storage_ops (Suc f) loopback) 0 0 [] cl = Inr (reply, cl')"
    using loop_GetNodeId[OF assms(1)[unfolded cl], of f 0 "[]"] unfolding cl storage_ops_def by auto
  let ?ob = "\<lparr>target = Some new_node, bsid = 0, obj_is_leaf = False, refcount = 1, last_access = 0, target_is_dirty = True, pincount = 0\<rparr>"
  let ?s = "(swap_space_new b cl' n)\<lparr>next_id := 3, next_access_time := 1, objects := [2 \<mapsto> ?ob], lru_pqueue := [2], current_in_memory_objects := 1\<rparr>"
  have "1 \<le> n" using assms(2) by (simp add: word_le_nat_alt word_less_nat_alt)
  then have l: "leaf_space 0 2 [] m ?s" using assms(3) by (auto simp: leaf_space_def swap_space_new_def new_node_def)
  then show ?thesis
    using leaf_evicts_nothing[OF l, of "node_env kc vc d (storage_ops (Suc f) loopback)"]
    by (simp add: betree_new_def space_ops_def allocate_def swap_space_new_def incr_def g set_obj_def Let_def)
qed

text \<open>A run whose messages fit into the root returns, whatever it does but evict.\<close>

lemma leaf_run_returns:
  assumes "loop.client_idle cl" and "0 < n" and "length calls < 2 ^ 29" and "length calls < maxnodesize" and "Evict_All \<notin> set calls"
    and "sum_list (map (call_cost (Suc (length calls))) calls) < 2 ^ 64 - 1"
  shows "wpE (run_new (node_env kc vc d (storage_ops (Suc f) loopback)) nokey noval maxnodesize minnodesize minflushsize n calls b cl) excluded (\<lambda>_. True)"
proof -
  let ?env = "node_env kc vc d (storage_ops (Suc f) loopback)"
  obtain s where s: "betree_new (space_ops ?env) maxnodesize minnodesize minflushsize noval (swap_space_new b cl n) =
      Inr (\<lparr>min_flush_size = minflushsize, max_node_size = maxnodesize, min_node_size = minnodesize, root = 2, next_timestamp = 1, default_value = noval\<rparr>, s)"
    and l: "leaf_space 0 2 [] (sum_list (map (call_cost (Suc (length calls))) calls)) s"
    using leaf_new[OF assms(1,2,6), where kc = kc and vc = vc and d = d and f = f and maxnodesize = maxnodesize and minnodesize = minnodesize
        and minflushsize = minflushsize and noval = noval and b = b] by blast
  have "wpE (run ?env nokey noval calls \<lparr>min_flush_size = minflushsize, max_node_size = maxnodesize, min_node_size = minnodesize,
      root = 2, next_timestamp = 1, default_value = noval\<rparr> s) excluded (\<lambda>_. True)"
    by (rule wp_leaf_run[where es = "[]" and F = "Suc (length calls)"]) (use l assms(3-5) in simp_all)
  then show ?thesis unfolding run_new_def s bindE_simps prod.case by (auto intro: wpE_bind_rule)
qed

end
