(* ===== verification/Filesystem.thy ===== *)
theory Filesystem
  imports Serialization "HOL-Library.List_Lexorder" "HOL-Library.Char_ord" "HOL-Library.Monad_Syntax"
begin

text \<open>
  The path keys of client/filesystem.hpp: \<open>FKey\<close>, a path and its components, with the order that
  puts short paths first and compares paths of the same depth component by component.

  The loop over the components counts in a \<open>uint8_t\<close> and need not end, so the comparisons are
  \<open>partial_function\<close>s and \<open>None\<close> is a comparison that does not return.  The lemmas describe the
  order on keys made from a path, and what becomes of it on keys that have been read back.
\<close>

datatype fkey = FKey (path: string) (tokens: "string list")

text \<open>The \<open>getline\<close> loop of \<open>split_path\<close>: what follows the last separator counts only if it is not empty.\<close>

function split_path :: "string \<Rightarrow> string list" where
  "split_path [] = []"
| "split_path (c # s) =
     takeWhile (\<lambda>x. x \<noteq> CHR ''/'') (c # s) # split_path (tl (dropWhile (\<lambda>x. x \<noteq> CHR ''/'') (c # s)))"
  by pat_completeness auto

termination split_path
proof (relation "measure length")
  fix c and s :: string
  have "length (dropWhile (\<lambda>x. x \<noteq> CHR ''/'') (c # s)) \<le> length (c # s)" by (rule length_dropWhile_le)
  then show "(tl (dropWhile (\<lambda>x. x \<noteq> CHR ''/'') (c # s)), c # s) \<in> measure length"
    by (cases "dropWhile (\<lambda>x. x \<noteq> CHR ''/'') (c # s)") auto
qed simp

definition FKey_new :: "string \<Rightarrow> fkey" where
  "FKey_new k = FKey k (split_path k)"

partial_function (option) less_loop :: "string list \<Rightarrow> string list \<Rightarrow> 8 word \<Rightarrow> bool option" where
  "less_loop ts us i =
     (if unat i < length ts then
        (if ts ! unat i > us ! unat i then Some False
         else if ts ! unat i < us ! unat i then Some True
         else less_loop ts us (i + 1))
      else Some True)"

definition fkey_less :: "fkey \<Rightarrow> fkey \<Rightarrow> bool option" where
  "fkey_less a b =
     (if path a = path b then Some False
      else if length (tokens a) < length (tokens b) then Some True
      else if length (tokens a) > length (tokens b) then Some False
      else less_loop (tokens a) (tokens b) 0)"

partial_function (option) greater_loop :: "string list \<Rightarrow> string list \<Rightarrow> 8 word \<Rightarrow> bool option" where
  "greater_loop ts us i =
     (if unat i < length ts then
        (if ts ! unat i < us ! unat i then Some False
         else if ts ! unat i > us ! unat i then Some True
         else greater_loop ts us (i + 1))
      else Some True)"

definition fkey_greater :: "fkey \<Rightarrow> fkey \<Rightarrow> bool option" where
  "fkey_greater a b =
     (if path a = path b then Some False
      else if length (tokens a) > length (tokens b) then Some True
      else if length (tokens a) < length (tokens b) then Some False
      else greater_loop (tokens a) (tokens b) 0)"

definition fkey_eq :: "fkey \<Rightarrow> fkey \<Rightarrow> bool" where
  "fkey_eq a b \<longleftrightarrow> path a = path b"

text \<open>The path is written twice, once up to a space and once with its length; the components are not written.\<close>

definition fkey_codec :: "fkey codec" where
  "fkey_codec =
     \<lparr>to_stream = (\<lambda>k. bindE (to_stream string_codec (path k)) (\<lambda>t. Inr (path k @ '' '' @ t))),
      from_stream = (\<lambda>s.
        bindE (read_word s) (\<lambda>(_, s1).
        bindE (from_stream string_codec s1) (\<lambda>(k, s2). Inr (FKey k [], s2))))\<rparr>"

subsection \<open>Components\<close>

fun join :: "string list \<Rightarrow> string" where
  "join [] = []"
| "join [t] = t"
| "join (t # ts) = t @ ''/'' @ join ts"

definition no_slash_end :: "string \<Rightarrow> bool" where
  "no_slash_end s \<longleftrightarrow> s = [] \<or> last s \<noteq> CHR ''/''"

lemma join_Cons: "ts \<noteq> [] \<Longrightarrow> join (t # ts) = t @ ''/'' @ join ts"
  by (cases ts) auto

lemma split_path_eq_Nil [simp]: "split_path s = [] \<longleftrightarrow> s = []"
  by (cases s) simp_all

lemma join_split_path: "no_slash_end s \<Longrightarrow> join (split_path s) = s"
proof (induction s rule: split_path.induct)
  case (2 c s)
  define w r where "w = takeWhile (\<lambda>x. x \<noteq> CHR ''/'') (c # s)" and "r = dropWhile (\<lambda>x. x \<noteq> CHR ''/'') (c # s)"
  have cs: "c # s = w @ r" by (simp only: w_def r_def takeWhile_dropWhile_id)
  have sp: "split_path (c # s) = w # split_path (tl r)" by (simp only: split_path.simps w_def r_def)
  show ?case
  proof (cases r)
    case Nil
    then show ?thesis using cs sp by simp
  next
    case (Cons x r')
    then have x: "x = CHR ''/''" using hd_dropWhile[of "\<lambda>x. x \<noteq> CHR ''/''" "c # s", folded r_def] by simp
    then have r': "r' \<noteq> []" "last r' \<noteq> CHR ''/''"
      using 2(2) unfolding cs Cons no_slash_end_def by (auto split: if_splits)
    then have "join (split_path r') = r'" using 2(1) unfolding r_def[symmetric] Cons by (simp add: no_slash_end_def)
    then show ?thesis using cs sp r' x by (simp add: Cons join_Cons)
  qed
qed simp

lemma split_path_inject: "no_slash_end a \<Longrightarrow> no_slash_end b \<Longrightarrow> split_path a = split_path b \<Longrightarrow> a = b"
  by (metis join_split_path)

subsection \<open>The order on fresh keys\<close>

lemma less_loop_drop:
  assumes "length ts = length us" and "length ts < 256" and "unat i \<le> length ts"
  shows "less_loop ts us i = Some (drop (unat i) ts \<le> drop (unat i) us)"
  using assms(3)
proof (induction "length ts - unat i" arbitrary: i)
  case 0
  then show ?case using assms by (subst less_loop.simps) simp
next
  case (Suc n)
  then have i: "unat i < length ts" by simp
  then have "unat (i + 1) = Suc (unat i)" using assms(2) by (simp add: unat_word_ariths)
  then have IH: "less_loop ts us (i + 1) = Some (drop (Suc (unat i)) ts \<le> drop (Suc (unat i)) us)"
    using Suc.hyps(1)[of "i + 1"] Suc.hyps(2) i by simp
  have "drop (unat i) ts = ts ! unat i # drop (Suc (unat i)) ts" "drop (unat i) us = us ! unat i # drop (Suc (unat i)) us"
    using i assms(1) by (simp_all add: Cons_nth_drop_Suc)
  then show ?case using i by (subst less_loop.simps) (auto simp: IH)
qed

lemma fkey_less_tokens:
  assumes "length (tokens a) < 256"
  shows "fkey_less a b = Some (path a \<noteq> path b \<and>
    (length (tokens a) < length (tokens b) \<or> length (tokens a) = length (tokens b) \<and> tokens a \<le> tokens b))"
  using assms less_loop_drop[of "tokens a" "tokens b" 0] by (auto simp: fkey_less_def)

lemma greater_loop_swap:
  assumes "length ts = length us" and "length ts < 256" and "unat i \<le> length ts"
  shows "greater_loop ts us i = less_loop us ts i"
  using assms(3)
proof (induction "length ts - unat i" arbitrary: i)
  case 0
  then show ?case using assms by (subst greater_loop.simps, subst less_loop.simps) simp
next
  case (Suc n)
  then have "unat (i + 1) = Suc (unat i)" using assms(2) by (simp add: unat_word_ariths)
  then have "greater_loop ts us (i + 1) = less_loop us ts (i + 1)" using Suc.hyps(1)[of "i + 1"] Suc.hyps(2) by simp
  then show ?case using assms(1) by (subst greater_loop.simps, subst less_loop.simps) simp
qed

text \<open>The two comparisons are each other's converse.\<close>

lemma fkey_greater_swap: "length (tokens a) < 256 \<Longrightarrow> fkey_greater a b = fkey_less b a"
  using greater_loop_swap[of "tokens a" "tokens b" 0] by (auto simp: fkey_greater_def fkey_less_def)

subsection \<open>A loop that does not end\<close>

lemma less_loop_returns:
  assumes "less_loop ts us i = Some r"
  shows "\<not> ((\<forall>j<256. ts ! j = us ! j) \<and> 256 \<le> length ts)"
proof (rule less_loop.raw_induct[OF _ assms])
  fix loop :: "string list \<Rightarrow> string list \<Rightarrow> 8 word \<Rightarrow> bool option" and ts us i r
  assume IH: "\<And>ts us i r. loop ts us i = Some r \<Longrightarrow> \<not> ((\<forall>j<256. ts ! j = us ! j) \<and> 256 \<le> length ts)"
    and body: "(if unat i < length ts then (if ts ! unat i > us ! unat i then Some False
       else if ts ! unat i < us ! unat i then Some True else loop ts us (i + 1)) else Some True) = Some r"
  show "\<not> ((\<forall>j<256. ts ! j = us ! j) \<and> 256 \<le> length ts)"
  proof
    assume same: "(\<forall>j<256. ts ! j = us ! j) \<and> 256 \<le> length ts"
    have "unat i < 256" using unsigned_less[of i] by simp
    then have "loop ts us (i + 1) = Some r" using body same by simp
    then show False using IH same by blast
  qed
qed

lemma less_loop_diverges: "\<forall>j<256. ts ! j = us ! j \<Longrightarrow> 256 \<le> length ts \<Longrightarrow> less_loop ts us i = None"
  using less_loop_returns[of ts us i] by (cases "less_loop ts us i") blast+

subsection \<open>Keys that have been read back\<close>

lemma fkey_text: "to_stream fkey_codec k = Inr (path k @ '' '' @ dec (length (path k)) @ '','' @ path k)"
  by (simp add: fkey_codec_def string_codec_def)

lemma length_dec_le: "length (dec n) \<le> Suc n"
proof (induction n rule: dec.induct)
  case (1 n)
  have "length (dec (n div 10)) \<le> n" if "\<not> n < 10"
    by (rule le_trans[OF 1[OF that]]) (use that in presburger)
  then show ?case by (subst dec.simps) auto
qed

lemma parses_fkey:
  assumes "p \<noteq> []" and "\<forall>c\<in>set p. \<not> is_space c" and t: "to_stream fkey_codec (FKey p ts) = Inr t" and len: "length t < 2 ^ 31"
  shows "parses (from_stream fkey_codec) t (FKey p [])"
proof -
  have "parses read_word (p @ '' '') p" by (rule parses_word) (use assms in \<open>auto simp: is_space_def\<close>)
  moreover have "parses (from_stream string_codec) (dec (length p) @ '','' @ p) p"
    by (rule str.reads) (use t len in \<open>auto simp: string_codec_def fkey_text\<close>)
  ultimately have "parses (\<lambda>s. bindE (read_word s) (\<lambda>(a, s1). bindE (from_stream string_codec s1) (\<lambda>(k, s2). Inr (FKey k [], s2))))
      ((p @ '' '') @ dec (length p) @ '','' @ p) (FKey p [])"
    by (intro parses_bind[where f = "\<lambda>a s1. bindE (from_stream string_codec s1) (\<lambda>(k, s2). Inr (FKey k [], s2))"] parses_map)
  then show ?thesis using t[unfolded fkey_text] by (simp add: fkey_codec_def)
qed

lemma fkey_less_reloaded: "fkey_less (FKey a []) (FKey b []) = Some (a \<noteq> b)"
  by (simp add: fkey_less_tokens)

lemma fkey_less_reloaded_fresh: "b \<noteq> [] \<Longrightarrow> fkey_less (FKey a []) (FKey_new b) = Some (a \<noteq> b)"
  by (simp add: fkey_less_tokens FKey_new_def)

end
