(* ===== verification/Debug_Message.thy ===== *)
theory Debug_Message
  imports Prelude Serialization Configuration
begin

text \<open>
  The logging functions of debug/message.hpp and debug/message.cpp: the text of a message, the
  buffers freed after a message, the patterns of the environment variable \<open>DEBUG\<close>, and the dumps
  of memory.  Logging does not change the state of the rest of the program, so no other component
  refers to this one.

  What the operating system supplies (the local time, whether the output is a terminal, the
  environment, the text of \<open>errno\<close>) and \<open>fnmatch\<close> are parameters.  Writing behind the end of a
  buffer is \<open>Buffer_Overflow\<close>, and reading a pointer that was never set is \<open>Null_Pointer\<close>.
\<close>

subsection \<open>Messages\<close>

unbundle bit_operations_syntax

text \<open>The values of \<open>enum Message_Type\<close> are those of 17 bits, since its largest member is \<open>1 << 16\<close>.\<close>

type_synonym message_type = "17 word"

definition MSG_NUM_TYPES :: message_type where
  "MSG_NUM_TYPES = 4"

definition MSG_PERROR :: message_type where
  "MSG_PERROR = push_bit 16 1"

definition descs :: "(string \<times> string option) list" where
  "descs = [(''PANIC'', Some ''1;31''), (''!'', Some ''1;33''), (''*'', None), ('' '', Some ''22;37''),
            (''<Invalid message type>'', None)]"

definition desc_index :: "message_type \<Rightarrow> nat" where
  "desc_index ty =
     (let n = ty AND NOT MSG_PERROR in unat (if n > MSG_NUM_TYPES then MSG_NUM_TYPES else n))"

text \<open>\<open>strrchr(fname, '/')\<close>: what follows the last separator, if there is one.\<close>

definition after_slash :: "string \<Rightarrow> string option" where
  "after_slash f = (if CHR ''/'' \<in> set f then Some (rev (takeWhile (\<lambda>c. c \<noteq> CHR ''/'') (rev f))) else None)"

definition pad :: "nat \<Rightarrow> string \<Rightarrow> string" where
  "pad n s = s @ replicate (n - length s) (CHR '' '')"

text \<open>\<open>snprintf\<close> into \<open>filepos[32]\<close>.\<close>

definition filepos :: "string \<Rightarrow> int \<Rightarrow> string" where
  "filepos fname line =
     take 31 (''('' @ (case after_slash fname of Some b \<Rightarrow> b | None \<Rightarrow> fname) @ '':'' @ show_int line @ ''):'')"

text \<open>The time stamp, with \<open>TIMESTAMP_NUMERIC\<close> as the source sets it.\<close>

record tm =
  tm_year :: nat
  tm_mon :: nat
  tm_mday :: nat
  tm_hour :: nat
  tm_min :: nat
  tm_sec :: nat

definition zeros :: "nat \<Rightarrow> nat \<Rightarrow> string" where
  "zeros w n = (let s = dec n in replicate (w - length s) (CHR ''0'') @ s)"

definition timestamp_numeric :: "tm \<Rightarrow> nat \<Rightarrow> nat \<Rightarrow> string" where
  "timestamp_numeric t usec pid =
     zeros 4 (1900 + tm_year t) @ zeros 2 (tm_mon t) @ zeros 2 (tm_mday t) @ ''-'' @
     zeros 2 (tm_hour t) @ zeros 2 (tm_min t) @ zeros 2 (tm_sec t) @ ''-'' @
     zeros 4 (usec div 100) @ '' '' @ zeros 5 pid @ '' ''"

definition Message_VA :: "bool \<Rightarrow> (tm \<times> nat \<times> nat) option \<Rightarrow> string \<Rightarrow> message_type \<Rightarrow> string option \<Rightarrow> int \<Rightarrow> string \<Rightarrow> string \<Rightarrow> string" where
  "Message_VA haveColor now strerror ty fname line func body =
     (let (prefix, color) = descs ! desc_index ty; esc = [CHR 0x1B] in
      (case color of Some c \<Rightarrow> if haveColor then esc @ ''['' @ c @ ''m'' else [] | None \<Rightarrow> []) @
      (case now of Some (t, usec, pid) \<Rightarrow> timestamp_numeric t usec pid | None \<Rightarrow> []) @ prefix @ '' '' @
      (case fname of Some f \<Rightarrow> pad 15 func @ '' '' @ pad 19 (filepos f line) @ '' '' | None \<Rightarrow> []) @
      body @
      (if ty AND MSG_PERROR \<noteq> 0 then '': '' @ strerror else []) @
      (if haveColor \<and> color \<noteq> None then esc @ ''[0m'' else []) @ endl)"

subsection \<open>Deferred frees\<close>

definition MAX_DEFERRED_FREES :: nat where
  "MAX_DEFERRED_FREES = 16"

definition Message_DFree :: "'a option \<Rightarrow> 'a list \<Rightarrow> err + 'a list" where
  "Message_DFree buf deferred = (case buf of
     None \<Rightarrow> Inr deferred
   | Some b \<Rightarrow> if length deferred = MAX_DEFERRED_FREES then Inl (Panic ''Too many deferred frees'') else Inr (deferred @ [b]))"

definition Message_DoFrees :: "'a list \<Rightarrow> 'a list \<times> 'a list" where
  "Message_DoFrees deferred = (deferred, [])"

subsection \<open>Which files are debugged\<close>

definition separator :: "char \<Rightarrow> bool" where
  "separator c \<longleftrightarrow> c = CHR '','' \<or> c = CHR '' ''"

text \<open>
  The patterns: \<open>nPats\<close> is one more than the number of separators.  The second loop cuts the
  buffer at the first separator; its condition \<open>i < strlen(buf)\<close> is false from then on, so
  \<open>pats[1]\<close> is all that follows and the entries after it are never set.
\<close>

definition parse_patterns :: "string \<Rightarrow> string option list" where
  "parse_patterns buf =
     (let nPats = 1 + length (filter separator buf);
          w = takeWhile (\<lambda>c. \<not> separator c) buf; r = dropWhile (\<lambda>c. \<not> separator c) buf in
      if r = [] then [Some w] else Some w # Some (tl r) # replicate (nPats - 2) None)"

definition negated :: "string \<Rightarrow> bool" where
  "negated p \<longleftrightarrow> p \<noteq> [] \<and> hd p = CHR ''^''"

definition pattern_matches :: "(string \<Rightarrow> string \<Rightarrow> bool) \<Rightarrow> string \<Rightarrow> string \<Rightarrow> bool" where
  "pattern_matches fnmatch fname p \<longleftrightarrow>
     (let pat = (if negated p then tl p else p) in
      fnmatch pat fname \<or> (case after_slash fname of Some b \<Rightarrow> fnmatch pat b | None \<Rightarrow> False))"

fun match_loop :: "(string \<Rightarrow> string \<Rightarrow> bool) \<Rightarrow> string \<Rightarrow> string option list \<Rightarrow> bool \<Rightarrow> err + bool" where
  "match_loop fnmatch fname [] result = Inr result"
| "match_loop fnmatch fname (None # pats) result = Inl Null_Pointer"
| "match_loop fnmatch fname (Some p # pats) result =
     match_loop fnmatch fname pats (if pattern_matches fnmatch fname p then \<not> negated p else result)"

definition Message_DebugEnabled :: "(string \<Rightarrow> string \<Rightarrow> bool) \<Rightarrow> string option \<Rightarrow> string \<Rightarrow> err + bool" where
  "Message_DebugEnabled fnmatch env fname = (case env of
     None \<Rightarrow> Inr False
   | Some buf \<Rightarrow>
       if buf = [] then Inr False
       else
         let pats = parse_patterns buf; p0 = takeWhile (\<lambda>c. \<not> separator c) buf in
         match_loop fnmatch fname pats (p0 = ''all'' \<or> negated p0))"

subsection \<open>Dumps\<close>

definition hex_char :: "nat \<Rightarrow> char" where
  "hex_char d = (if d < 10 then char_of (48 + d) else char_of (87 + d))"

fun hex :: "nat \<Rightarrow> nat \<Rightarrow> string" where
  "hex 0 n = []"
| "hex (Suc w) n = hex w (n div 16) @ [hex_char (n mod 16)]"

definition isprint :: "char \<Rightarrow> bool" where
  "isprint c \<longleftrightarrow> 32 \<le> (of_char c :: nat) \<and> (of_char c :: nat) < 127"

text \<open>One line of \<open>_Message_Hexdump\<close>: the address, sixteen columns of hexadecimal, and the characters.\<close>

definition hexdump_line :: "string \<Rightarrow> nat \<Rightarrow> string" where
  "hexdump_line d base =
     hex 8 base @
     concat (map (\<lambda>offset. (if offset = 8 then '' '' else []) @
       (if base + offset \<ge> length d then ''   '' else '' '' @ hex 2 (of_char (d ! (base + offset))))) [0..<16]) @
     '' |'' @ map (\<lambda>c. if isprint c then c else CHR ''.'') (take 16 (drop base d)) @ ''|''"

definition Message_Hexdump :: "string \<Rightarrow> string list" where
  "Message_Hexdump d = map (\<lambda>i. hexdump_line d (16 * i)) [0..<(length d + 15) div 16]"

text \<open>
  \<open>Message_FmtBlob\<close> with the limit of the environment variable \<open>BLOBMAX\<close>: a buffer of \<open>plen + 3\<close> bytes, of
  which the last one written is at \<open>max 0 plen + 2\<close>; \<open>malloc\<close> of a negative size fails.
\<close>

definition Message_FmtBlob :: "int \<Rightarrow> string \<Rightarrow> err + string option" where
  "Message_FmtBlob blobmax d =
     (let plen = (if int (length d) > blobmax then blobmax else int (length d)) in
      if plen + 3 < 0 then Inr None
      else if plen < 0 then Inl Buffer_Overflow
      else Inr (Some (''|'' @ map (\<lambda>c. if isprint c then c else CHR ''.'') (take (nat plen) d) @
        (if int (length d) \<noteq> plen then ''>'' else ''|''))))"

subsection \<open>Bounds\<close>

lemma desc_index_bound: "desc_index ty < length descs"
proof -
  have "unat (if ty AND NOT MSG_PERROR > MSG_NUM_TYPES then MSG_NUM_TYPES else ty AND NOT MSG_PERROR) \<le> unat MSG_NUM_TYPES"
    by (simp add: word_less_nat_alt)
  then show ?thesis by (simp add: desc_index_def Let_def descs_def MSG_NUM_TYPES_def)
qed

lemma filepos_bound: "length (filepos f l) < 32"
  by (simp add: filepos_def)

lemma length_dec_bound: "n < 10 ^ w \<Longrightarrow> 0 < w \<Longrightarrow> length (dec n) \<le> w"
proof (induction w arbitrary: n)
  case (Suc w)
  show ?case
  proof (cases "n < 10")
    case False
    then have "0 < w" using Suc.prems(1) by (cases w) auto
    moreover have "n div 10 < 10 ^ w" using Suc.prems(1) by (simp add: less_mult_imp_div_less mult.commute)
    ultimately show ?thesis using Suc.IH[of "n div 10"] False by (subst dec.simps) simp
  qed (subst dec.simps, simp)
qed simp

lemma length_hex [simp]: "length (hex w n) = w"
  by (induction w arbitrary: n) simp_all

lemma hexdump_line_bound: "length (hexdump_line d base) \<le> 76"
proof -
  let ?col = "\<lambda>offset. (if offset = 8 then '' '' else []) @ (if base + offset \<ge> length d then ''   '' else '' '' @ hex 2 (of_char (d ! (base + offset))))"
  have "length (?col i) = (if i = 8 then 4 else 3)" for i by simp
  then have "length (concat (map ?col [0..<16])) = sum_list (map (\<lambda>i. if i = 8 then 4 else 3) [0..<16])"
    by (simp only: length_concat map_map comp_def)
  also have "\<dots> = 49" by (simp add: upt_conv_Cons)
  finally show ?thesis unfolding hexdump_line_def by (simp only: length_append length_hex length_map) simp
qed

lemma length_zeros: "n < 10 ^ w \<Longrightarrow> 0 < w \<Longrightarrow> length (zeros w n) = w"
  using length_dec_bound[of n w] by (simp add: zeros_def Let_def)

text \<open>A time stamp has a fixed width, so that the texts of messages are aligned.\<close>

lemma length_timestamp:
  assumes "tm_year t < 8100" and "tm_mon t < 12" and "tm_mday t < 32" and "tm_hour t < 24" and "tm_min t < 60" and "tm_sec t \<le> 60"
    and "usec < 10 ^ 6" and "pid < 10 ^ 5"
  shows "length (timestamp_numeric t usec pid) = 27"
proof -
  have "usec div 100 < 10 ^ 4" using assms(7) by simp
  then show ?thesis using assms by (simp add: timestamp_numeric_def length_zeros)
qed

lemma dfree_bound:
  assumes "length ds \<le> MAX_DEFERRED_FREES"
  shows "wpE (Message_DFree b ds) (\<lambda>e. length ds = MAX_DEFERRED_FREES \<and> e = Panic ''Too many deferred frees'') (\<lambda>ds'. length ds' \<le> MAX_DEFERRED_FREES)"
  using assms by (auto simp: Message_DFree_def split: option.split)

subsection \<open>Patterns\<close>

text \<open>What the loop means to compute: the last pattern that matches decides.\<close>

definition last_match :: "(string \<Rightarrow> string \<Rightarrow> bool) \<Rightarrow> string \<Rightarrow> string list \<Rightarrow> bool \<Rightarrow> bool" where
  "last_match fnmatch fname ps result =
     (case filter (pattern_matches fnmatch fname) (rev ps) of [] \<Rightarrow> result | p # _ \<Rightarrow> \<not> negated p)"

lemma match_loop_set: "match_loop fnm f (map Some ps) r = Inr (last_match fnm f ps r)"
  by (induction ps arbitrary: r) (auto simp: last_match_def split: list.split)

lemma match_loop_unset: "None \<in> set ps \<Longrightarrow> match_loop fnm f ps r = Inl Null_Pointer"
proof (induction ps arbitrary: r)
  case (Cons p ps)
  then show ?case by (cases p) auto
qed simp

lemma parse_patterns_two:
  assumes "\<forall>c\<in>set a. \<not> separator c" and "\<forall>c\<in>set b. \<not> separator c" and "separator s"
  shows "parse_patterns (a @ s # b) = [Some a, Some b]"
  using assms by (simp add: parse_patterns_def Let_def takeWhile_append dropWhile_append filter_empty_conv[THEN iffD2])

lemma parse_patterns_many: "2 \<le> length (filter separator buf) \<Longrightarrow> None \<in> set (parse_patterns buf)"
proof -
  assume n: "2 \<le> length (filter separator buf)"
  have "dropWhile (\<lambda>c. \<not> separator c) buf \<noteq> []"
  proof
    assume "dropWhile (\<lambda>c. \<not> separator c) buf = []"
    then have "filter separator buf = []" by (auto simp: dropWhile_eq_Nil_conv filter_empty_conv)
    then show False using n by simp
  qed
  then show ?thesis using n by (simp add: parse_patterns_def Let_def)
qed

end
