(* ===== verification/Swap_Policy.thy ===== *)
theory Swap_Policy
  imports Swap_Space
begin

text \<open>
  What the swap space evicts, in any state and over any store: never an object that is pinned,
  always the least recently used of the others, and as many as it takes to get below the limit
  unless all that are left are pinned.  A pointer that is copied and destroyed again leaves the
  swap space as it was, so the copies C++ makes of a pointer need no place in the model of the tree.
\<close>

subsection \<open>One eviction\<close>

lemma write_back_objects:
  assumes "write_back env i s = Inr s'" and "objects s i = Some ob"
  shows "\<exists>ob'. objects s' = (objects s)(i \<mapsto> ob') \<and> pincount ob' = pincount ob \<and> last_access ob' = last_access ob"
  using assms
  by (auto simp: write_back_def obj_at_def Let_def set_obj_def bindE_eq_Inr_iff split: option.splits if_splits prod.splits)

lemma write_back_count:
  assumes "write_back env i s = Inr s'"
  shows "current_in_memory_objects s' = current_in_memory_objects s \<and> lru_pqueue s' = lru_pqueue s"
  using assms
  by (auto simp: write_back_def obj_at_def Let_def set_obj_def bindE_eq_Inr_iff split: option.splits if_splits prod.splits)

lemma evict_oneD:
  assumes e: "evict_one env i s = Inr s'" and old: "objects s i = Some ob"
  shows "current_in_memory_objects s' = current_in_memory_objects s - 1"
    and "lru_pqueue s' = lru_erase (access_time s) i (lru_pqueue s)"
    and "\<exists>ob'. objects s' = (objects s)(i \<mapsto> ob') \<and> pincount ob' = pincount ob \<and> target ob' = None"
proof -
  let ?s = "s\<lparr>lru_pqueue := lru_erase (access_time s) i (lru_pqueue s)\<rparr>"
  obtain s1 where w: "write_back env i ?s = Inr s1" using e by (auto simp: evict_one_def bindE_eq_Inr_iff)
  obtain ob1 where o1: "objects s1 = (objects s)(i \<mapsto> ob1)" "pincount ob1 = pincount ob"
    using write_back_objects[OF w, of ob] old by auto
  have s': "s' = set_obj i (ob1\<lparr>target := None\<rparr>) (s1\<lparr>current_in_memory_objects := current_in_memory_objects s1 - 1\<rparr>)"
    using e w o1(1) by (auto simp: evict_one_def obj_at_def)
  show "current_in_memory_objects s' = current_in_memory_objects s - 1"
    and "lru_pqueue s' = lru_erase (access_time s) i (lru_pqueue s)"
    using write_back_count[OF w] by (simp_all add: s' set_obj_def)
  show "\<exists>ob'. objects s' = (objects s)(i \<mapsto> ob') \<and> pincount ob' = pincount ob \<and> target ob' = None"
    using o1 by (auto simp: s' set_obj_def)
qed

subsection \<open>The loop\<close>

lemma evict_loop_induct [consumes 1, case_names stop step]:
  assumes "evict_loop env limit s = Inr s'"
    and stop: "current_in_memory_objects s' \<le> limit \<or> find (unpinned_obj s') (lru_pqueue s') = None \<Longrightarrow> P s'"
    and step: "\<And>s i ob s1. find (unpinned_obj s) (lru_pqueue s) = Some i \<Longrightarrow> objects s i = Some ob \<Longrightarrow> pincount ob = 0 \<Longrightarrow>
      evict_one env i s = Inr s1 \<Longrightarrow> P s1 \<Longrightarrow> P s"
  shows "P s"
  using assms(1)
proof (induction "length (lru_pqueue s)" arbitrary: s rule: less_induct)
  case less
  show ?case
  proof (cases "current_in_memory_objects s > limit \<and> find (unpinned_obj s) (lru_pqueue s) \<noteq> None")
    case False
    then have "s' = s" using less.prems by (auto simp: evict_loop.simps[of env limit s] split: if_splits option.splits)
    then show ?thesis using False stop by (auto simp: not_less)
  next
    case True
    then obtain i where i: "find (unpinned_obj s) (lru_pqueue s) = Some i" by auto
    then have "unpinned_obj s i" and mem: "i \<in> set (lru_pqueue s)" using find_in_set[OF i] by auto
    then obtain ob where ob: "objects s i = Some ob" "pincount ob = 0" by (auto simp: unpinned_obj_def split: option.splits)
    obtain s1 where s1: "evict_one env i s = Inr s1" "evict_loop env limit s1 = Inr s'"
      using less.prems True i by (auto simp: evict_loop.simps[of env limit s] bindE_eq_Inr_iff)
    have "length (lru_pqueue s1) < length (lru_pqueue s)"
      unfolding evict_oneD(2)[OF s1(1) ob(1)] lru_erase_def by (rule length_filter_less[OF mem]) simp
    from step[OF i ob s1(1) less.hyps[OF this s1(2)]] show ?thesis .
  qed
qed

lemma evict_loop_pinned:
  assumes "evict_loop env limit s = Inr s'" and "objects s j = Some ob" and "0 < pincount ob"
  shows "objects s' j = Some ob"
  using assms(1,2)
proof (induction rule: evict_loop_induct)
  case (step s i ob' s1)
  have "j \<noteq> i" using step assms(3) by auto
  then have "objects s1 j = Some ob" using evict_oneD(3)[OF step(4,2)] step(6) by auto
  then show ?case by (rule step(5))
qed

lemma evict_loop_done:
  assumes "evict_loop env limit s = Inr s'"
  shows "current_in_memory_objects s' \<le> limit \<or> (\<forall>i\<in>set (lru_pqueue s'). \<not> unpinned_obj s' i)"
  using assms
proof (induction rule: evict_loop_induct)
  case stop
  then show ?case by (auto simp: find_None_iff)
qed

subsection \<open>The order of the queue\<close>

definition lru_sorted :: "(u64 \<Rightarrow> u64) \<Rightarrow> u64 list \<Rightarrow> bool" where
  "lru_sorted at q \<longleftrightarrow> sorted_wrt (\<lambda>i j. at i < at j) q"

lemma set_lru_insert: "set (lru_insert at i q) \<subseteq> insert i (set q)"
  by (induction q) auto

lemma lru_sorted_insert: "lru_sorted at q \<Longrightarrow> lru_sorted at (lru_insert at i q)"
proof (induction q)
  case (Cons j q)
  then have q: "\<forall>k\<in>set q. at j < at k" "lru_sorted at q" by (auto simp: lru_sorted_def)
  then show ?case using Cons.IH set_lru_insert[of at i q] by (auto simp: lru_sorted_def intro: order_less_trans)
qed (simp add: lru_sorted_def)

lemma lru_sorted_erase: "lru_sorted at q \<Longrightarrow> lru_sorted at (lru_erase at i q)"
  by (simp add: lru_sorted_def lru_erase_def sorted_wrt_filter)

lemma find_least: "lru_sorted at q \<Longrightarrow> find P q = Some i \<Longrightarrow> j \<in> set q \<Longrightarrow> P j \<Longrightarrow> at i \<le> at j"
  by (induction q) (auto simp: lru_sorted_def split: if_splits intro: order_less_imp_le)

subsection \<open>Copies of a pointer\<close>

lemma copy_depoint:
  assumes "objects s p = Some ob" and "0 < p" and "0 < refcount ob" and "refcount ob \<noteq> - 1"
  shows "bindE (pointer_copy p s) (depoint (Suc fuel) env p) = Inr s"
proof -
  have "refcount ob + 1 > 0" using assms(4) by (metis add.commute add_eq_0_iff word_gt_0)
  moreover have "set_obj p ob s = s" using assms(1) by (simp add: set_obj_def fun_upd_idem)
  ultimately show ?thesis using assms by (auto simp: pointer_copy_def obj_at_def set_obj_def Let_def)
qed

end
