(* ===== verification/Spec2Isabelle.thy ===== *)
theory Spec2Isabelle
  imports Client_Program Betree_Small Filesystem Debug_Message Swap_Policy
begin

text \<open>
  A verification of the B-epsilon-tree key-value store.

  \<^bold>\<open>The program.\<close>  A client keeps an ordered map in a B-epsilon-tree (client/betree.hpp): a search tree
  whose inner nodes buffer messages (insert, update, delete) and flush them towards the leaves in
  batches.  The nodes live in a swap space (client/swap_space.hpp, .cpp), a cache that evicts the least recently used node
  that is not pinned.  An evicted node is serialized, written to a file of its own
  (client/backing_store.cpp) and sent to a storage server (client/storage_client.cpp, server/) over a transport
  on eRPC (network/fasttransport.cpp) that finds the servers in a configuration file (network/configuration.cpp).
  client/main.cpp has the test and the benchmarks, client/filesystem.hpp the path keys, and debug/message.cpp the logging.

  \<^bold>\<open>Theories.\<close>
  \<^item> \<open>Prelude\<close>: the error monad \<open>err + 'a\<close>, its rule \<open>wpE m E Q\<close> (every error of \<open>m\<close> is in \<open>E\<close> and every result
    in \<open>Q\<close>), words and lists.  \<open>Std_Map\<close>: \<open>std::map\<close> as a list sorted by key, with positions as iterators.
  \<^item> \<open>Upserts\<close>: \<open>MessageKey\<close>, \<open>Message\<close>, and what messages mean.  \<open>Swap_Interface\<close>: the calls the tree makes
    of the swap space (\<open>swap_ops\<close>) and the locale \<open>swap_contract\<close> of their laws.
  \<^item> \<open>Betree_Node\<close>: \<open>class node\<close>, one definition per member function (\<open>node_apply\<close>, \<open>node_split\<close>, \<open>flush\<close>,
    \<open>query\<close>, \<open>get_next_message\<close>, \<dots>), \<open>Betree_Api\<close>: \<open>class betree\<close> and its iterators.  \<open>Betree_Tree\<close> has the tree
    that a store represents and its invariant; \<open>Betree_Apply\<close>, \<open>Betree_Cut\<close>, \<open>Betree_Split\<close>, \<open>Betree_Replace\<close>, \<open>Betree_Flush\<close>,
    \<open>Betree_Flush_Internal\<close>, \<open>Betree_Query\<close>, \<open>Betree_Next\<close> prove each operation on it, and \<open>Betree_Map\<close>,
    \<open>Betree_Iterate\<close> the public calls, inside the locale \<open>node_store\<close>.
  \<^item> \<open>Serialization\<close>: the text formats as codecs, with the locale \<open>lawful_codec\<close> of the round-trip law.
    \<open>Backing_Store\<close>: the files, with the locale \<open>backing_contract\<close>.
  \<^item> \<open>Configuration\<close>, \<open>Transport\<close>, \<open>Storage\<close>, \<open>Loopback\<close>: configuration files, request tags and requests, the storage
    client and the request handlers of the server; the locale \<open>erpc_network\<close> states what is assumed of eRPC, and
    \<open>loopback\<close> is a network that has it, made of the server's own handlers.
  \<^item> \<open>Swap_Space\<close>, \<open>Swap_Correct\<close>, \<open>Swap_Policy\<close>: the cache, that it keeps \<open>swap_contract\<close> over any disk and client with
    their contracts, and what it evicts.
  \<^item> \<open>Betree_Store\<close>, \<open>Betree_Run\<close>, \<open>Betree_Small\<close>: the tree over the swap space, the files and the client; runs of calls
    against a specification on ordered maps (\<open>spec_run\<close>); runs that certainly return.
  \<^item> \<open>Driver\<close>, \<open>Driver_Correct\<close>, \<open>Client_Program\<close>, \<open>Server\<close>: client/main.cpp and server/main.cpp.
    \<open>Filesystem\<close>: \<open>FKey\<close>.  \<open>Debug_Message\<close>: the logging functions.

  \<^bold>\<open>State and errors.\<close>  A C++ object is a record; a member function takes the state and returns the new one.
  Assertions, uncaught exceptions, overflows of buffers, null pointers and invalid iterators are values of
  \<open>err\<close>.  Timestamps, identifiers and access times are 64-bit words; running out of them is the error
  \<open>Counter_Wrap\<close>.  \<open>size_t\<close> quantities that are lengths of containers are natural numbers.

  \<^bold>\<open>What is shown.\<close>  C1 to C4: the tree over all layers refines an ordered map, with no failing assertion as long as
  \<open>min_flush_size\<close> is twice the number of calls (the program's own is 16384, for runs of up to 8192); beyond that the only other outcomes are two
  statements in \<open>node::flush\<close>; with the server in the same process it never waits forever, and
  small runs certainly return.  C5 to C7: the test and the client program.  C8 and C9: buffers of messages,
  and nodes as text.  C10 to C14: files and cache.  C15 to C21: tags, requests and the server.  C22 to C26: configuration
  files.  C27 to C30: path keys, which are no keys of the tree once read back.  C31 and C32: scripts.  C33 to C37:
  logging.  C38 and C39: several fibers.

  \<^bold>\<open>Fuel.\<close>  Recursive member functions of the tree get \<open>next_timestamp\<close> as the depth of their call stack
  and loops over messages as the number of their rounds; the invariant bounds the height and the number of messages by it,
  so that \<open>Out_Of_Fuel\<close> never comes from the tree.  \<open>depoint\<close> gets one more than the number of identifiers ever given.  A
  wait for the network has a fuel of its own, arbitrary in C1 and C2 and any positive number in C3 and C4.  The loop
  over a configuration file and those of \<open>FKey::operator<\<close> are partial functions, and not returning is \<open>None\<close>.

  \<^bold>\<open>Parameters.\<close>  eRPC (\<open>erpc_network\<close>: responses arrive once, for requests that were sent), \<open>rand\<close>, \<open>fnmatch\<close>, the local time, the
  terminal and the environment variables.  Keys of the tree are any linear order with a lawful codec, since \<open>FKey\<close> is not one.

  \<^bold>\<open>Not modelled.\<close>  \<open>node::merge\<close> and \<open>merge_small_children\<close> of client/betree.hpp, whose only call is commented out; the interleaving of
  several fibers or threads in one process (the program's defaults are one of each; C38 and C39 are about what they share); timers, usage texts and
  what is printed; the copies of pointers C++ makes in passing (C14 shows that they cancel); NUMA, libevent and eRPC objects made by
  the transport; the abstract classes of network/transport.hpp and the macros of debug/assert.hpp and debug/hash.hpp; the batch
  variants of the transport's interface that the program does not compile in; the scripts.
\<close>

section \<open>Sample states\<close>

text \<open>A client that has just been started, with its server in the same process, and an empty directory.\<close>

definition sample_client :: "loop_net client_state" where
  "sample_client =
     (\<lparr>lastReqId = 0, clientid = 1, blocked = False,
       nodeIdReply = \<lparr>nid_serverIdx = 0, nid_coreIdx = 0, nid_nodeIdx = 0\<rparr>, evictNodeReply = False\<rparr>,
      \<lparr>tr_config = Configuration 1 [ServerAddress ''host'' ''7000''] None False, receiverIdx = - 1, crt_req_tag = (0, 0),
       req_tag_pool = mem_pool_new, tags = Map.empty, sessions = Map.empty\<rparr>,
      \<lparr>loop_app = storage_app_new, loop_queue = []\<rparr>)"

definition sample_store :: file_store where
  "sample_store = file_store_new ''/tmp'' Map.empty"

text \<open>A swap space with one object in memory, which is pinned.\<close>

definition sample_space :: "((u64, u64, string) node, file_store, loop_net client_state) swap_space" where
  "sample_space =
     (let ob = \<lparr>target = Some new_node, bsid = 0, obj_is_leaf = False, refcount = 1, last_access = 1, target_is_dirty = True, pincount = 1\<rparr> in
      (swap_space_new sample_store sample_client 0)\<lparr>current_in_memory_objects := 1, objects := [2 \<mapsto> ob], lru_pqueue := [2]\<rparr>)"

lemma sample_idle: "loop.client_idle sample_client" "0 < nextid sample_store"
  using pool_inv_new
  by (simp_all add: sample_client_def loop.client_idle_def loop.net_ok_def loop.idle_pool_def loop_pending_def mem_pool_new_def
      sample_store_def file_store_new_def)


section \<open>The tree\<close>









section \<open>The programs\<close>







section \<open>Nodes\<close>

text \<open>
  C8.  Applying a run of new messages to the buffer of a node (\<open>node::apply\<close> in a loop, as
  \<open>flush\<close> does) never fails, keeps the buffer well formed, and makes it mean, for every
  key, the old buffer followed by the messages.
\<close>

theorem apply_all_correct:
  fixes n :: "('p, 'k :: linorder, 'v :: plus) node"
  assumes "buf_ok (is_leaf n) (elements n)" and "map_ok elts"
    and "\<forall>e\<in>set elts. known_opcode (snd e)" and "older (fst ` set (elements n)) elts"
  shows "\<exists>es'. apply_all d n elts = Inr (n\<lparr>elements := es'\<rparr>) \<and> buf_ok (is_leaf n) es' \<and>
    (\<forall>b x. (is_leaf n \<longrightarrow> b = None) \<longrightarrow>
       apply_msgs d b (msgs_for es' x) = apply_msgs d (apply_msgs d b (msgs_for (elements n) x)) (msgs_for elts x))"
  using apply_all_msgs[OF assms, of d] by blast

theorem apply_all_correct_witness:
  "\<exists>es'. apply_all (0 :: int) (new_node :: (nat, nat, int) node)
       [(MessageKey 3 1, Message UPDATE 5), (MessageKey 3 2, Message UPDATE 7)] = Inr (new_node\<lparr>elements := es'\<rparr>)"
  using apply_all_correct[of "new_node :: (nat, nat, int) node"
      "[(MessageKey 3 1, Message UPDATE 5), (MessageKey 3 2, Message UPDATE 7)]" 0]
  by (auto simp: new_node_def is_leaf_def buf_ok_def leaf_shape_def map_ok_def less_message_key_def
      known_opcode_def older_def)

text \<open>
  C9.  A node that is written is read back: for codecs of keys and values that keep the law, a node
  whose pointers are to live objects is serialized, and deserializing the text followed by anything
  gives the node and leaves what follows.
\<close>

theorem node_round_trip:
  assumes "lawful_codec kc kok" and "lawful_codec vc vok" and "storable_node kok vok n" and "refs_ok alive n"
  shows "\<exists>t. to_stream (node_codec kc vc alive) n = Inr t \<and>
    (length t < 2 ^ 31 \<longrightarrow> (\<exists>r. from_stream (node_codec kc vc alive) (t @ rest) = Inr (n, r) \<and> skipws r = skipws rest))"
proof -
  note law = lawful_node[OF assms(1,2), of alive]
  obtain t where t: "to_stream (node_codec kc vc alive) n = Inr t" using lawful_codec.writes[OF law, of n] assms(3,4) by auto
  then show ?thesis using lawful_codec.round_trip[OF law _ t, of rest] assms(3,4) by auto
qed

definition sample_node :: "(u64, u64, string) node" where
  "sample_node = \<lparr>pivots = [(1, \<lparr>child = 4, child_size = 2\<rparr>)], elements = [(MessageKey 1 9, Message UPDATE ''a b'')]\<rparr>"

lemma sample_node_text:
  "\<exists>t. to_stream (node_codec u64_codec string_codec (\<lambda>_. True)) sample_node = Inr t \<and> length t < 2 ^ 31"
  by (simp add: sample_node_def node_codec_def map_codec_def child_info_codec_def pointer_codec_def message_key_codec_def
      message_codec_def boxed_codec_def u64_codec_def string_codec_def i64_codec_def dec.simps show_int_def endl_def)

theorem node_round_trip_witness:
  "\<exists>t r. to_stream (node_codec u64_codec string_codec (\<lambda>_. True)) sample_node = Inr t \<and>
     from_stream (node_codec u64_codec string_codec (\<lambda>_. True)) (t @ ''end'') = Inr (sample_node, r) \<and> skipws r = skipws ''end''"
proof -
  have "storable_node (\<lambda>_. True) (\<lambda>_. True) sample_node" "refs_ok (\<lambda>_. True) sample_node"
    by (auto simp: sample_node_def storable_node_def refs_ok_def node_refs_def map_ok_def)
  from node_round_trip[OF u64.lawful_codec_axioms str.lawful_codec_axioms this, of "''end''"] show ?thesis
    using sample_node_text by auto
qed

section \<open>The backing store and the swap space\<close>



text \<open>
  C11.  An object that is pinned is not evicted, nor changed in any way, by \<open>maybe_evict_something\<close>: a
  reference the program holds through a pin stays valid.
\<close>

theorem evict_keeps_pinned:
  assumes "maybe_evict_something env s = Inr s'" and "objects s i = Some ob" and "0 < pincount ob"
  shows "objects s' i = Some ob"
  using evict_loop_pinned[of env _ s s' i ob] assms by (simp add: maybe_evict_something_def)

theorem evict_keeps_pinned_witness:
  "maybe_evict_something (node_env u64_codec string_codec file_ops (storage_ops 1 loopback)) sample_space = Inr sample_space \<and>
   (\<exists>ob. objects sample_space 2 = Some ob \<and> 0 < pincount ob)"
proof -
  let ?env = "node_env u64_codec string_codec file_ops (storage_ops 1 loopback)"
  have "maybe_evict_something ?env sample_space = Inr sample_space"
    by (simp add: maybe_evict_something_def evict_loop.simps sample_space_def swap_space_new_def unpinned_obj_def Let_def)
  moreover obtain ob where "objects sample_space 2 = Some ob" "0 < pincount ob"
    by (simp add: sample_space_def Let_def)
  ultimately show ?thesis using evict_keeps_pinned[of ?env sample_space sample_space 2 ob] by blast
qed

text \<open>
  C12.  What is evicted first is the least recently used object that is not pinned, when the queue is
  in the order of the access times; inserting into the queue and erasing from it keep that order.
\<close>

theorem evict_least_recent:
  assumes "lru_sorted (access_time s) (lru_pqueue s)" and "limit < current_in_memory_objects s"
    and "find (unpinned_obj s) (lru_pqueue s) = Some i"
  shows "evict_loop env limit s = bindE (evict_one env i s) (evict_loop env limit) \<and> unpinned_obj s i \<and>
    (\<forall>j\<in>set (lru_pqueue s). unpinned_obj s j \<longrightarrow> access_time s i \<le> access_time s j) \<and>
    lru_sorted (access_time s) (lru_insert (access_time s) k (lru_erase (access_time s) i (lru_pqueue s)))"
  using assms find_least[OF assms(1,3)] find_in_set[OF assms(3)] lru_sorted_insert[OF lru_sorted_erase[OF assms(1)]]
  by (auto simp: evict_loop.simps[of env limit s])

theorem evict_least_recent_witness:
  "let s = sample_space\<lparr>objects := map_option (\<lambda>ob. ob\<lparr>pincount := 0\<rparr>) \<circ> objects sample_space\<rparr> in
   evict_loop (node_env u64_codec string_codec file_ops (storage_ops 1 loopback)) 0 s =
     bindE (evict_one (node_env u64_codec string_codec file_ops (storage_ops 1 loopback)) 2 s)
       (evict_loop (node_env u64_codec string_codec file_ops (storage_ops 1 loopback)) 0)"
proof -
  let ?s = "sample_space\<lparr>objects := map_option (\<lambda>ob. ob\<lparr>pincount := 0\<rparr>) \<circ> objects sample_space\<rparr>"
  have "lru_sorted (access_time ?s) (lru_pqueue ?s)" "0 < current_in_memory_objects ?s" "find (unpinned_obj ?s) (lru_pqueue ?s) = Some 2"
    by (simp_all add: sample_space_def lru_sorted_def unpinned_obj_def Let_def)
  from evict_least_recent[OF this] show ?thesis by (simp add: Let_def)
qed



text \<open>
  C14.  Copying a pointer and destroying the copy changes nothing, whatever the object is: the
  reference count goes up and down again and does not reach 0.
\<close>

theorem pointer_copies_cancel:
  assumes "objects s p = Some ob" and "0 < p" and "0 < refcount ob" and "refcount ob \<noteq> - 1"
  shows "bindE (pointer_copy p s) (depoint (Suc fuel) env p) = Inr s"
  by (rule copy_depoint[OF assms])

theorem pointer_copies_cancel_witness:
  "bindE (pointer_copy 2 sample_space) (depoint (Suc 0) (node_env u64_codec string_codec file_ops (storage_ops 1 loopback)) 2) = Inr sample_space"
  by (rule pointer_copies_cancel[where ob = "the (objects sample_space 2)"]) (simp_all add: sample_space_def Let_def)

section \<open>The network and the server\<close>

text \<open>
  C15.  The pool of request tags hands out a tag that is not in use, and takes a tag back: with the tags of
  \<open>U\<close> in use and fewer than 64 blocks allocated, \<open>alloc\<close> succeeds with a tag outside of \<open>U\<close>, and the
  invariant holds for the tags then in use.
\<close>

theorem pool_hands_out_unused:
  assumes "pool_inv U p" and "length (backing_ptr_vec p) < 64"
  shows "\<exists>t p'. pool_alloc p = Inr (t, p') \<and> t \<notin> U \<and> pool_inv (insert t U) p' \<and> pool_inv U (pool_free t p')"
proof -
  obtain t p' where a: "pool_alloc p = Inr (t, p')" "t \<notin> U" "pool_inv (insert t U) p'"
    using wp_pool_alloc[OF assms] by (cases "pool_alloc p") auto
  then show ?thesis using pool_inv_free[OF a(3), of t] by simp
qed

theorem pool_hands_out_unused_witness:
  "\<exists>t p'. pool_alloc mem_pool_new = Inr (t, p') \<and> t \<notin> {} \<and> pool_inv {t} p' \<and> pool_inv {} (pool_free t p')"
  using pool_hands_out_unused[OF pool_inv_new] by (simp add: mem_pool_new_def)



text \<open>
  C17.  A node whose text is longer than 4096 bytes overflows the request buffer in \<open>EvictNode\<close>: nothing
  checks the size before the \<open>memcpy\<close>.
\<close>

theorem evict_node_overflows:
  assumes "erpc_network rpc pending" and "erpc_network.client_idle pending st" and "4096 < length request"
  shows "EvictNode fuel rpc coreIdx serverIdx node_id request st = Inl Buffer_Overflow"
  using erpc_network.evict_overflow[OF assms(1,2)] assms(3) by (simp add: BUFFER_SIZE_def)

theorem evict_node_overflows_witness:
  "EvictNode 5 loopback 0 0 7 (replicate 4097 (CHR ''x'')) sample_client = Inl Buffer_Overflow"
  by (rule evict_node_overflows[OF loop.erpc_network_axioms sample_idle(1)]) simp

text \<open>
  C18.  The server answers every request it serves, in order: in any run of the server the responses
  carry the numbers of the requests, and \<open>current_id\<close> has moved on by the number of requests for an
  identifier, modulo \<open>2 ^ 32\<close>.
\<close>

theorem server_answers_in_order:
  assumes "server_run c rs c'" and "sent c = []"
  shows "map (resp_req_nr \<circ> fst) (sent c') = map (req_nr \<circ> snd) rs \<and>
    current_id (app c') = current_id (app c) + of_nat (node_requests rs)"
  using server_run_answers[OF assms] server_run_counter[OF assms(1)] by blast

theorem server_answers_in_order_witness:
  "\<exists>c'. server_run \<lparr>app = storage_app_new, sent = []\<rparr> [(1, blank_request\<lparr>req_nr := 4\<rparr>)] c' \<and>
     map (resp_req_nr \<circ> fst) (sent c') = [4] \<and> current_id (app c') = 1"
proof -
  let ?c = "\<lparr>app = storage_app_new, sent = []\<rparr>" and ?r = "(1, blank_request\<lparr>req_nr := 4\<rparr>) :: u8 \<times> request_buf"
  obtain c' where "fasttransport_request 1 (blank_request\<lparr>req_nr := 4\<rparr>) blank_response ?c = Inr c'"
    by (simp add: fasttransport_request_def ReceiveRequest_def getNodeIdReqType_def HandleGetNodeId_def app_GetNodeId_def)
  then have "server_step ?c ?r c'" by (intro server_step.request) (simp_all add: registered_def)
  from server_run.serve[OF server_run.idle this] have run: "server_run ?c [?r] c'" by simp
  then show ?thesis using server_answers_in_order[OF run]
    by (auto simp: storage_app_new_def node_requests_def getNodeIdReqType_def intro!: exI[of _ c'])
qed




text \<open>
  C21.  The server program goes on with an index that is not in the configuration, after printing that it is out of
  bounds, and reads past the end of the list of servers.
\<close>

theorem server_index_out_of_range:
  assumes "fs cfg = Some (write_config srv)" and "cfg \<noteq> []" and "srv \<noteq> []" and "length srv < 2 ^ 31" and "\<forall>a\<in>set srv. good_address a"
    and "int (length srv) \<le> serverIndex"
  shows "server_main rpc cfg serverIndex fs junk = Some (Inl Past_The_End)"
  using assms read_written_config[OF assms(5,3,4)]
  by (auto simp: server_main_def configuration_copy_def server_thread_func_def GetServerAddress_def)

theorem server_index_out_of_range_witness:
  "server_main loopback ''c'' 1 [''c'' \<mapsto> write_config [ServerAddress ''host'' ''7000'']] (fst (snd sample_client)) = Some (Inl Past_The_End)"
  by (rule server_index_out_of_range[where srv = "[ServerAddress ''host'' ''7000'']"])
    (simp_all add: good_address_def good_host_def blank_def address_line_def)

section \<open>Configuration files\<close>

text \<open>
  C22.  A configuration file is read back: from a file with a line \<open>server host:port\<close> for each server, the
  constructor makes the configuration with these servers in this order.
\<close>

theorem config_round_trip:
  assumes "\<forall>a\<in>set srv. good_address a" and "srv \<noteq> []" and "length srv < 2 ^ 31"
  shows "configuration_read (open_file (Some (write_config srv))) = Some (Inr (Configuration (int (length srv)) srv None False))"
  by (rule read_written_config[OF assms])

theorem config_round_trip_witness:
  "configuration_read (open_file (Some (write_config [ServerAddress ''host'' ''7000'', ServerAddress ''10.0.0.1'' ''1'']))) =
     Some (Inr (Configuration 2 [ServerAddress ''host'' ''7000'', ServerAddress ''10.0.0.1'' ''1''] None False))"
  using config_round_trip[of "[ServerAddress ''host'' ''7000'', ServerAddress ''10.0.0.1'' ''1'']"]
  by (simp add: good_address_def good_host_def blank_def address_line_def)

text \<open>
  C23.  Reading a configuration ends, with a configuration or an error, for every file that can be opened.
\<close>

theorem config_read_terminates: "\<exists>r. configuration_read (open_file (Some contents)) = Some r"
  using config_loop_returns[of "open_file (Some contents)" "[]"] by (auto simp: configuration_read_def open_file_def)

text \<open>
  C24.  For a file that cannot be opened it does not end: \<open>getline\<close> on the failed stream never sets
  \<open>eofbit\<close>.  Both programs only print a message before they make the configuration.
\<close>

theorem config_read_unreadable: "configuration_read (open_file None) = None"
proof (cases "config_loop (open_file None) []")
  case (Some r)
  from config_loop_unreadable[OF this] show ?thesis by (simp add: open_file_def)
qed (simp add: configuration_read_def)

text \<open>
  C25.  A line without a colon is not rejected: the position \<open>npos\<close> is narrowed to 32 bits and is never
  equal to \<open>npos\<close> again, and the whole line becomes the port.
\<close>

theorem config_line_without_colon:
  assumes "good_host h" and "length (''server '' @ h) < 2 ^ 32 - 1"
  shows "config_line (''server '' @ h) srv = Inr (srv @ [ServerAddress h (''server '' @ h)])"
  by (rule config_line_no_colon[OF assms])

theorem config_line_without_colon_witness: "config_line ''server foo'' [] = Inr [ServerAddress ''foo'' ''server foo'']"
  using config_line_without_colon[of "''foo''" "[]"] by (simp add: good_host_def blank_def)

text \<open>
  C26.  The comparison of configurations is a strict order that agrees with their equality: of two
  configurations exactly one is less, or they are equal; and it is transitive.
\<close>

theorem configuration_order:
  assumes "configuration_ok c" and "configuration_ok d" and "configuration_ok e"
  shows "(configuration_less c d \<and> \<not> configuration_eq c d \<and> \<not> configuration_less d c \<or>
      \<not> configuration_less c d \<and> configuration_eq c d \<and> \<not> configuration_less d c \<or>
      \<not> configuration_less c d \<and> \<not> configuration_eq c d \<and> configuration_less d c) \<and>
    (configuration_less c d \<and> configuration_less d e \<longrightarrow> configuration_less c e)"
  using configuration_trichotomy[OF assms(1,2)] configuration_less_trans[OF assms] by blast

theorem configuration_order_witness:
  "configuration_less (Configuration 1 [ServerAddress ''a'' ''1''] None False) (Configuration 1 [ServerAddress ''b'' ''1''] None False) \<and>
   \<not> configuration_less (Configuration 1 [ServerAddress ''b'' ''1''] None False) (Configuration 1 [ServerAddress ''a'' ''1''] None False)"
proof -
  let ?a = "Configuration 1 [ServerAddress ''a'' ''1''] None False" and ?b = "Configuration 1 [ServerAddress ''b'' ''1''] None False"
  have "configuration_ok ?a" "configuration_ok ?b" by (simp_all add: configuration_ok_def)
  moreover have "configuration_less ?a ?b" by (simp add: configuration_less_def tuple_less_def less_server_address_def)
  ultimately show ?thesis using configuration_order[of ?a ?b ?b] by blast
qed

section \<open>Path keys\<close>

text \<open>
  C27.  On keys made from a path, with fewer than 256 components and no \<open>/\<close> at the end, \<open>FKey::operator<\<close> is the strict
  linear order by the number of components and then by the components from left to right.
\<close>

theorem fkey_order:
  assumes "no_slash_end a" and "no_slash_end b" and "length (split_path a) < 256"
  shows "fkey_less (FKey_new a) (FKey_new b) = Some (length (split_path a) < length (split_path b) \<or>
    length (split_path a) = length (split_path b) \<and> split_path a < split_path b)"
  using fkey_less_tokens[of "FKey_new a" "FKey_new b"] assms split_path_inject[OF assms(1,2)]
  by (auto simp: FKey_new_def order_less_le)

theorem fkey_order_witness:
  "fkey_less (FKey_new ''/a/b'') (FKey_new ''/a/c'') = Some True \<and> fkey_less (FKey_new ''/a/c'') (FKey_new ''/a/b'') = Some False"
  using fkey_order[of "''/a/b''" "''/a/c''"] fkey_order[of "''/a/c''" "''/a/b''"] by (simp add: no_slash_end_def)

text \<open>
  C28.  A key that is written and read back has lost its components: \<open>_deserialize\<close> sets the path but does not split it.
\<close>

theorem fkey_reload:
  assumes "p \<noteq> []" and "\<forall>c\<in>set p. \<not> is_space c" and "length p < 2 ^ 29"
  shows "\<exists>t r. to_stream fkey_codec (FKey_new p) = Inr t \<and> from_stream fkey_codec t = Inr (FKey p [], r)"
proof -
  have "length (dec (length p)) \<le> Suc (length p)" by (rule length_dec_le)
  then have "parses (from_stream fkey_codec) (p @ '' '' @ dec (length p) @ '','' @ p) (FKey p [])"
    by (intro parses_fkey[where ts = "split_path p"] assms) (use assms(3) in \<open>simp_all add: fkey_text\<close>)
  from this[unfolded parses_def, rule_format, of _ "[]"] show ?thesis by (auto simp: fkey_text FKey_new_def)
qed

theorem fkey_reload_witness:
  "\<exists>t r. to_stream fkey_codec (FKey_new ''/a/b'') = Inr t \<and> from_stream fkey_codec t = Inr (FKey ''/a/b'' [], r)"
  by (rule fkey_reload) (auto simp: is_space_def)

text \<open>
  C29.  Between keys that have been read back the order is no order: of two different keys each is less than the other.
  The maps of a node that has been evicted and loaded again compare such keys.
\<close>

theorem fkey_reloaded_not_ordered:
  "fkey_less (FKey p []) (FKey q []) = Some (p \<noteq> q) \<and> fkey_less (FKey q []) (FKey p []) = Some (p \<noteq> q)"
  by (auto simp: fkey_less_reloaded)

text \<open>
  C30.  The comparison of two different keys whose first 256 components agree does not return when both have the same number of
  components: the index is a \<open>uint8_t\<close> and starts again at 0.
\<close>

theorem fkey_less_diverges:
  assumes "path a \<noteq> path b" and "length (tokens a) = length (tokens b)" and "256 \<le> length (tokens a)"
    and "\<forall>j<256. tokens a ! j = tokens b ! j"
  shows "fkey_less a b = None"
  using assms less_loop_diverges[OF assms(4,3)] by (simp add: fkey_less_def)

theorem fkey_less_diverges_witness:
  "fkey_less (FKey ''x'' (replicate 257 ''d'')) (FKey ''y'' (replicate 256 ''d'' @ [''e''])) = None"
  by (rule fkey_less_diverges) (simp_all add: nth_append)

section \<open>Scripts of the test\<close>

text \<open>A swap space with room for one node only, and an empty tree in it.\<close>

definition one_node_ops :: "((unit, string, string) node, unit, (unit, string, string) node) swap_ops" where
  "one_node_ops =
     \<lparr>ss_allocate = (\<lambda>n s. Inr ((), n)), ss_enter = (\<lambda>_ _ s. Inr s), ss_leave = (\<lambda>_ s. Inr s), ss_object = (\<lambda>_ s. Some s),
      ss_store = (\<lambda>_ n s. n), ss_depoint = (\<lambda>_ s. Inr s), ss_is_dirty = (\<lambda>_ _. True), ss_is_in_memory = (\<lambda>_ _. True)\<rparr>"

definition one_node_state :: "((unit, string, string) node, unit, string) test_state" where
  "one_node_state =
     \<lparr>tree = \<lparr>min_flush_size = 16, max_node_size = 64, min_node_size = 16, root = (), next_timestamp = 1, default_value = []\<rparr>,
      reference = [], script_output = Some [], space = new_node\<rparr>"

lemma one_node_flush:
  "1 < max_node_size b \<Longrightarrow> flush (Suc n) one_node_ops b () [(MessageKey k ts, Message INSERT v)] new_node =
    Inr ([], new_node\<lparr>elements := [(MessageKey k ts, Message INSERT v)]\<rparr>)"
  by (simp add: one_node_ops_def this_node_def flush_leaf_def new_node_def is_leaf_def node_apply_def apply_insert_def
      erase_messages_def erase_range_def Let_def node_size_def lower_bound_def upper_bound_def put_def)

lemma one_node_insert: "\<exists>st. test_op one_node_ops (id :: string \<Rightarrow> string) [] 0 ''7'' one_node_state = Inr st"
proof -
  let ?b = "(tree one_node_state)\<lparr>next_timestamp := 2\<rparr>"
  have "fuel_of ?b = Suc 1" and "1 < max_node_size ?b" by (simp_all add: fuel_of_def one_node_state_def)
  then have "flush (fuel_of ?b) one_node_ops ?b () [(MessageKey ''7'' 1, Message INSERT ''7:'')] new_node =
      Inr ([], new_node\<lparr>elements := [(MessageKey ''7'' 1, Message INSERT ''7:'')]\<rparr>)"
    by (simp only: one_node_flush)
  then show ?thesis
    by (simp add: test_op_def Let_def insert_key_def upsert_def arrow_def one_node_state_def put_def lower_bound_def upper_bound_def)
      (simp add: one_node_ops_def)
qed

text \<open>
  C31.  A script that \<open>test\<close> writes can be replayed: what an operation other than a query appends to the script is read back by
  \<open>next_command\<close> as that operation with that key (0 for a full scan).
\<close>

theorem script_replay:
  assumes "test_op ops mk nokey opr t st = Inr st'" and "script_output st = Some out" and "plain_word 256 t" and "opr \<noteq> 3"
  shows "\<exists>line. script_output st' = Some (out @ line) \<and>
    next_command (line @ rest) = Inr (Some (opr, if opr = 4 then ''0'' else t), endl @ rest)"
proof (intro exI conjI)
  let ?line = "command_word opr @ '' '' @ command_key opr t @ endl"
  show "script_output st' = Some (out @ ?line)" using test_op_line(2)[OF assms(1,4)] assms(2) by simp
  show "next_command (?line @ rest) = Inr (Some (opr, if opr = 4 then ''0'' else t), endl @ rest)"
    using next_command_word[OF test_op_line(1)[OF assms(1,4)] assms(4,3), of rest] by (simp add: command_key_def)
qed

theorem script_replay_witness:
  "(case test_op one_node_ops (id :: string \<Rightarrow> string) [] 0 ''7'' one_node_state of
      Inr st' \<Rightarrow> \<exists>line. script_output st' = Some line \<and> next_command (line @ []) = Inr (Some (0, ''7''), endl @ [])
    | Inl e \<Rightarrow> False)"
proof -
  obtain st' where "test_op one_node_ops (id :: string \<Rightarrow> string) [] 0 ''7'' one_node_state = Inr st'"
    using one_node_insert by blast
  then show ?thesis
    using script_replay[of one_node_ops id "[]" 0 "''7''" one_node_state st' "[]" "[]"]
    by (simp add: one_node_state_def plain_word_def is_space_def)
qed

text \<open>
  C32.  A query whose result has 64 characters or more cannot be replayed: the line that \<open>test\<close> writes for it overflows
  the array \<open>command\<close> of \<open>next_command\<close>.  Values grow with every update, so that such results are not rare.
\<close>

theorem script_query_overflow:
  assumes "plain_word 256 t" and "64 \<le> length v" and "\<forall>c\<in>set v. \<not> is_space c"
  shows "next_command (''Query '' @ t @ '' -> '' @ v @ endl @ rest) = Inl Buffer_Overflow"
  using next_command_query[OF assms(1)] scan_word_long[OF assms(2,3), of rest] by simp

theorem script_query_overflow_witness:
  "next_command (''Query '' @ ''k'' @ '' -> '' @ replicate 64 (CHR ''x'') @ endl @ []) = Inl Buffer_Overflow"
  by (rule script_query_overflow) (auto simp: plain_word_def is_space_def)

section \<open>Log messages\<close>

text \<open>
  C33.  The logging functions stay within their arrays: the index into \<open>descs\<close>, the text in \<open>filepos[32]\<close>, and a line of a
  hexadecimal dump with its final zero in the buffer of 80 bytes.
\<close>

theorem log_buffers_fit:
  "desc_index ty < length descs \<and> length (filepos f l) < 32 \<and> length (hexdump_line d base) < 80"
  using desc_index_bound[of ty] filepos_bound[of f l] hexdump_line_bound[of d base] by simp



text \<open>
  C35.  With two patterns in \<open>DEBUG\<close> the last one that matches the file decides, and it enables debugging unless it
  starts with \<open>^\<close>; with no match debugging is on when the first pattern is \<open>all\<close> or starts with \<open>^\<close>.
\<close>

theorem debug_last_match:
  assumes "\<forall>c\<in>set a. \<not> separator c" and "\<forall>c\<in>set b. \<not> separator c" and "separator s"
  shows "Message_DebugEnabled fnmatch (Some (a @ s # b)) fname = Inr (last_match fnmatch fname [a, b] (a = ''all'' \<or> negated a))"
proof -
  have "takeWhile (\<lambda>c. \<not> separator c) (a @ s # b) = a" using assms by (simp add: takeWhile_append)
  then show ?thesis
    using match_loop_set[of fnmatch fname "[a, b]"] by (simp add: Message_DebugEnabled_def parse_patterns_two[OF assms])
qed

theorem debug_last_match_witness:
  "Message_DebugEnabled (\<lambda>p f. p = f) (Some (''main.cpp'' @ CHR '','' # ''^main.cpp'')) ''main.cpp'' = Inr False"
proof -
  have "Message_DebugEnabled (\<lambda>p f. p = f) (Some (''main.cpp'' @ CHR '','' # ''^main.cpp'')) ''main.cpp'' =
      Inr (last_match (\<lambda>p f. p = f) ''main.cpp'' [''main.cpp'', ''^main.cpp''] (''main.cpp'' = ''all'' \<or> negated ''main.cpp''))"
    by (rule debug_last_match) (simp_all add: separator_def)
  then show ?thesis by (simp add: last_match_def pattern_matches_def negated_def after_slash_def)
qed

text \<open>
  C36.  With three patterns or more the loop of \<open>_Message_DebugEnabled\<close> reaches an entry of \<open>pats\<close> that was never set.
\<close>

theorem debug_many_patterns:
  assumes "2 \<le> length (filter separator vars)"
  shows "Message_DebugEnabled fnmatch (Some vars) fname = Inl Null_Pointer"
proof -
  have "vars \<noteq> []" using assms by auto
  then show ?thesis using match_loop_unset[OF parse_patterns_many[OF assms]] by (simp add: Message_DebugEnabled_def Let_def)
qed

theorem debug_many_patterns_witness:
  "Message_DebugEnabled (\<lambda>p f. p = f) (Some ''a,b,c'') ''main.cpp'' = Inl Null_Pointer"
  by (rule debug_many_patterns) (simp add: separator_def)


section \<open>Several fibers\<close>

text \<open>
  C38.  The client identifiers \<open>client_thread_func\<close> computes for the fibers of all threads are consecutive from 0, and so
  distinct as long as there are at most \<open>2 ^ 32\<close> fibers.
\<close>

theorem fiber_ids_distinct:
  assumes "k * unat n \<le> 2 ^ 32"
  shows "concat (map (\<lambda>t. fiber_ids (of_nat t) n) [0..<k]) = map of_nat [0..<k * unat n] \<and>
    distinct (concat (map (\<lambda>t. fiber_ids (of_nat t) n) [0..<k]))"
proof -
  have all: "concat (map (\<lambda>t. fiber_ids (of_nat t) n) [0..<k]) = map of_nat [0..<k * unat n]" by (rule fiber_ids_all)
  have "inj_on (of_nat :: nat \<Rightarrow> u32) {0..<k * unat n}"
    by (rule inj_onI) (use assms in \<open>auto simp: word_of_nat_eq_iff take_bit_nat_eq_self\<close>)
  then show ?thesis by (simp add: all distinct_map)
qed

theorem fiber_ids_distinct_witness: "distinct (concat (map (\<lambda>t. fiber_ids (of_nat t) 2) [0..<3]))"
  by (rule conjunct2[OF fiber_ids_distinct]) simp

text \<open>
  C39.  Every fiber makes a backing store of its own on the same directory, and each starts its file names at 1: the first
  file the second store allocates is the first file of the first store, which loses what was written to it.
\<close>

theorem fibers_share_files:
  "\<exists>i b1 b2 b3. file_allocate n (file_store_new dir fs) = Inr (i, b1) \<and> file_write i t b1 = Inr b2 \<and> file_get i b2 = Inr t \<and>
     file_allocate m (file_store_new dir (files b2)) = Inr (i, b3) \<and> file_get i (b2\<lparr>files := files b3\<rparr>) = Inr []"
  by (simp add: file_allocate_def file_store_new_def file_write_def file_get_def incr_def)

end
